(* ===== verification/Prelude.thy ===== *)
theory Prelude
  imports Main "HOL-Library.Multiset" "HOL-Library.Word" "HOL-Library.Monad_Syntax"
begin

text \<open>
  Shared vocabulary of the development: thread identifiers, the interleaving machine in which
  every concurrent class of the library is modelled, reachability, the invariant locale and the
  theorem collections that carry the component proofs.

  A machine has a shared state and one program counter per thread. One step is one atomic action
  of one thread; a thread that sits in the wait set of a condition variable (\<open>waiting\<close>) cannot
  act. The environment may take a waiting thread out of the wait set at any moment
  (\<open>Wakeup\<close>, the spurious wake-ups that POSIX allows) and may expire a timed wait
  (\<open>Timeout\<close>). The first argument of an action is the environment's choice: which method
  a client calls, which waiter a signal picks, what the clock reads.
\<close>

named_theorems sync \<open>normal forms of the mutex and condition variable operations\<close>
named_theorems pc_simps \<open>facts about program counters of the component machines\<close>

type_synonym tid = nat

section \<open>Interleaving machines\<close>

record ('s, 'k, 'e) machine =
  act :: "'e \<Rightarrow> tid \<Rightarrow> 'k \<Rightarrow> 's \<Rightarrow> ('k \<times> 's) option"
  waiting :: "'s \<Rightarrow> tid \<Rightarrow> bool"
  unwait :: "tid \<Rightarrow> 's \<Rightarrow> 's"
  expire :: "'k \<Rightarrow> 'k option"

datatype 'e label = Act tid 'e | Wakeup tid | Timeout tid

type_synonym ('s, 'k) config = "'s \<times> (tid \<Rightarrow> 'k)"

inductive step :: "('s, 'k, 'e) machine \<Rightarrow> ('s, 'k) config \<Rightarrow> ('s, 'k) config \<Rightarrow> bool"
  for M :: "('s, 'k, 'e) machine" where
  step_act: "\<not> waiting M s t \<Longrightarrow> act M e t (pc t) s = Some (k, s') \<Longrightarrow>
     step M (s, pc) (s', pc(t := k))"
| step_wakeup: "waiting M s t \<Longrightarrow> step M (s, pc) (unwait M t s, pc)"
| step_timeout: "waiting M s t \<Longrightarrow> expire M (pc t) = Some k \<Longrightarrow>
     step M (s, pc) (unwait M t s, pc(t := k))"

inductive_cases stepE [elim]: "step M (s, pc) c"

text \<open>The executable form of one step, labelled by its schedule.\<close>

fun mstep :: "('s, 'k, 'e) machine \<Rightarrow> 'e label \<Rightarrow> ('s, 'k) config \<Rightarrow> ('s, 'k) config option" where
  "mstep M (Act t e) (s, pc) =
     (if waiting M s t then None
      else case act M e t (pc t) s of None \<Rightarrow> None | Some (k, s') \<Rightarrow> Some (s', pc(t := k)))"
| "mstep M (Wakeup t) (s, pc) = (if waiting M s t then Some (unwait M t s, pc) else None)"
| "mstep M (Timeout t) (s, pc) =
     (if waiting M s t then
        (case expire M (pc t) of None \<Rightarrow> None | Some k \<Rightarrow> Some (unwait M t s, pc(t := k)))
      else None)"

fun mrun :: "('s, 'k, 'e) machine \<Rightarrow> 'e label list \<Rightarrow> ('s, 'k) config \<Rightarrow> ('s, 'k) config option" where
  "mrun M [] c = Some c"
| "mrun M (l # ls) c = (case mstep M l c of None \<Rightarrow> None | Some c' \<Rightarrow> mrun M ls c')"

lemma mstep_step: "mstep M l c = Some c' \<Longrightarrow> step M c c'"
  by (cases "(M, l, c)" rule: mstep.cases)
     (auto intro: step.intros split: if_splits option.splits)

lemma step_mstep: "step M c c' \<Longrightarrow> \<exists>l. mstep M l c = Some c'"
proof (induction rule: step.induct)
  case (step_act s t e pc k s')
  then have "mstep M (Act t e) (s, pc) = Some (s', pc(t := k))" by simp
  then show ?case ..
next
  case (step_wakeup s t pc)
  then have "mstep M (Wakeup t) (s, pc) = Some (unwait M t s, pc)" by simp
  then show ?case ..
next
  case (step_timeout s t pc k)
  then have "mstep M (Timeout t) (s, pc) = Some (unwait M t s, pc(t := k))" by simp
  then show ?case ..
qed

lemma step_iff_mstep: "step M c c' \<longleftrightarrow> (\<exists>l. mstep M l c = Some c')"
  by (blast intro: mstep_step dest: step_mstep)

section \<open>Reachable configurations\<close>

inductive reachable :: "('s, 'k, 'e) machine \<Rightarrow> (('s, 'k) config \<Rightarrow> bool) \<Rightarrow> ('s, 'k) config \<Rightarrow> bool"
  for M :: "('s, 'k, 'e) machine" and init :: "('s, 'k) config \<Rightarrow> bool" where
  reach_init: "init c \<Longrightarrow> reachable M init c"
| reach_step: "reachable M init c \<Longrightarrow> step M c c' \<Longrightarrow> reachable M init c'"

lemma mrun_reachable:
  "reachable M init c \<Longrightarrow> mrun M ls c = Some c' \<Longrightarrow> reachable M init c'"
proof (induction ls arbitrary: c)
  case Nil
  then show ?case by simp
next
  case (Cons l ls)
  then obtain d where "mstep M l c = Some d" "mrun M ls d = Some c'"
    by (auto split: option.splits)
  with Cons show ?case by (blast intro: reachable.reach_step mstep_step)
qed

text \<open>
  A schedule that the kernel evaluates proves that a configuration with a given property is
  reachable: the form in which the defects of the library are stated.
\<close>

definition run_check :: "('s, 'k, 'e) machine \<Rightarrow> 'e label list \<Rightarrow> ('s, 'k) config \<Rightarrow>
    ('s \<Rightarrow> (tid \<Rightarrow> 'k) \<Rightarrow> bool) \<Rightarrow> bool" where
  "run_check M ls c P = (case mrun M ls c of None \<Rightarrow> False | Some (s, pc) \<Rightarrow> P s pc)"

lemma run_check_reachable:
  assumes "run_check M ls c P" and "init c"
  shows "\<exists>s pc. reachable M init (s, pc) \<and> P s pc"
proof -
  from assms(1) obtain s pc where "mrun M ls c = Some (s, pc)" "P s pc"
    by (auto simp: run_check_def split: option.splits)
  with assms(2) show ?thesis by (blast intro: mrun_reachable reachable.reach_init)
qed

text \<open>The threads a schedule does not name stay where they are.\<close>

fun label_tid :: "'e label \<Rightarrow> tid" where
  "label_tid (Act t e) = t" | "label_tid (Wakeup t) = t" | "label_tid (Timeout t) = t"

lemma mstep_frame: "mstep M l (s, pc) = Some (s', pc') \<Longrightarrow> t \<noteq> label_tid l \<Longrightarrow> pc' t = pc t"
  by (cases l) (auto split: if_splits option.splits)

lemma mrun_frame:
  "mrun M ls (s, pc) = Some (s', pc') \<Longrightarrow> t \<notin> label_tid ` set ls \<Longrightarrow> pc' t = pc t"
proof (induction ls arbitrary: s pc)
  case Nil
  then show ?case by simp
next
  case (Cons l ls)
  then obtain s1 pc1 where "mstep M l (s, pc) = Some (s1, pc1)" "mrun M ls (s1, pc1) = Some (s', pc')"
    by (auto split: option.splits)
  with Cons show ?case using mstep_frame [of M l s pc s1 pc1 t] by auto
qed

lemma run_check_reachable_frame:
  assumes "run_check M ls (s0, pc0) P" and "init (s0, pc0)"
  shows "\<exists>s pc. reachable M init (s, pc) \<and> P s pc \<and> (\<forall>t. t \<notin> label_tid ` set ls \<longrightarrow> pc t = pc0 t)"
proof -
  from assms(1) obtain s pc where r: "mrun M ls (s0, pc0) = Some (s, pc)" "P s pc"
    by (auto simp: run_check_def split: option.splits)
  have "pc t = pc0 t" if "t \<notin> label_tid ` set ls" for t
    using mrun_frame [OF r(1) that] .
  with r assms(2) show ?thesis by (blast intro: mrun_reachable reachable.reach_init)
qed

locale machine_invariant =
  fixes M :: "('s, 'k, 'e) machine"
    and init :: "('s, 'k) config \<Rightarrow> bool"
    and Inv :: "'s \<Rightarrow> (tid \<Rightarrow> 'k) \<Rightarrow> bool"
  assumes init_inv: "init (s, pc) \<Longrightarrow> Inv s pc"
    and act_inv: "Inv s pc \<Longrightarrow> \<not> waiting M s t \<Longrightarrow> act M e t (pc t) s = Some (k, s') \<Longrightarrow>
          Inv s' (pc(t := k))"
    and wakeup_inv: "Inv s pc \<Longrightarrow> waiting M s t \<Longrightarrow> Inv (unwait M t s) pc"
    and timeout_inv: "Inv s pc \<Longrightarrow> waiting M s t \<Longrightarrow> expire M (pc t) = Some k \<Longrightarrow>
          Inv (unwait M t s) (pc(t := k))"
begin

lemma step_inv: "step M (s, pc) (s', pc') \<Longrightarrow> Inv s pc \<Longrightarrow> Inv s' pc'"
  by (erule stepE) (auto intro: act_inv wakeup_inv timeout_inv)

lemma reachable_inv_config: "reachable M init c \<Longrightarrow> Inv (fst c) (snd c)"
proof (induction rule: reachable.induct)
  case (reach_init c)
  then show ?case by (cases c) (simp add: init_inv)
next
  case (reach_step c c')
  then show ?case by (cases c; cases c') (auto intro: step_inv)
qed

lemma reachable_inv: "reachable M init (s, pc) \<Longrightarrow> Inv s pc"
  using reachable_inv_config by fastforce

end

section \<open>Atomics and C++ scalars\<close>

text \<open>
  \<open>compare_exchange_weak(expected, desired)\<close> on a flag: besides the comparison, the standard
  lets the weak form fail spuriously; \<open>spurious\<close> is the environment's choice.
\<close>

definition compare_exchange_weak :: "bool \<Rightarrow> bool \<Rightarrow> bool \<Rightarrow> bool \<Rightarrow> bool \<times> bool" where
  "compare_exchange_weak spurious expected desired v =
     (if v = expected \<and> \<not> spurious then (True, desired) else (False, v))"

lemma compare_exchange_weak_simps [simp]:
  "compare_exchange_weak True x y v = (False, v)"
  "compare_exchange_weak sp False True True = (False, True)"
  "compare_exchange_weak False False True False = (True, True)"
  by (auto simp: compare_exchange_weak_def)

section \<open>Lists\<close>

lemma remove1_nth_subset [simp]: "set (remove1 x xs) \<subseteq> set xs"
  by (rule set_remove1_subset)

lemma mset_list_swap:
  "i < length xs \<Longrightarrow> j < length xs \<Longrightarrow> mset (xs[i := xs ! j, j := v]) = mset (xs[i := v])"
  by (cases "i = j") (auto simp: mset_update nth_list_update multiset_eq_iff)

end
