(* ===== verification/Clock.thy ===== *)
theory Clock
  imports Prelude
begin

text \<open>
  Time values of the library (\<open>include/empool/Util.h\<close>, \<open>src/Util.cpp\<close>, the deadline
  computation of \<open>ConditionVariable::TimeWait\<close> and \<open>GetCurrentTime\<close> of
  \<open>src/TimerTaskHandler.cpp\<close>).  \<open>TimeValue\<close> is \<open>uint64_t\<close>: a \<open>64 word\<close>.  The C
  types \<open>long\<close>, \<open>time_t\<close> and \<open>suseconds_t\<close> are signed and their overflow is undefined:
  they are integers here, and the theorems state that every intermediate value fits a
  64-bit \<open>long\<close>.
\<close>

type_synonym TimeValue = "64 word"
type_synonym ThreadId = int

record timeval =
  tv_sec :: int
  tv_usec :: int

record timespec =
  ts_sec :: int
  ts_nsec :: int

definition in_long :: "int \<Rightarrow> bool" where
  "in_long x \<longleftrightarrow> - (2 ^ 63) \<le> x \<and> x < 2 ^ 63"

text \<open>What \<open>gettimeofday\<close> returns: a non-negative number of seconds and a reduced fraction.\<close>

definition valid_timeval :: "timeval \<Rightarrow> bool" where
  "valid_timeval now \<longleftrightarrow> 0 \<le> tv_sec now \<and> tv_sec now < 2 ^ 62 \<and>
     0 \<le> tv_usec now \<and> tv_usec now < 1000000"

definition timeval_us :: "timeval \<Rightarrow> int" where
  "timeval_us tv = tv_sec tv * 1000000 + tv_usec tv"

definition timespec_ns :: "timespec \<Rightarrow> int" where
  "timespec_ns ts = ts_sec ts * 1000000000 + ts_nsec ts"

section \<open>The deadline of a timed wait\<close>

text \<open>
  \<open>ConditionVariable::TimeWait\<close>: the absolute deadline handed to
  \<open>pthread_cond_timedwait\<close>.  Up to the last line the field \<open>tv_nsec\<close> holds microseconds.
\<close>

definition TimeWait_deadline :: "timeval \<Rightarrow> TimeValue \<Rightarrow> timespec" where
  "TimeWait_deadline now delay_in_ms =
     (let sec = tv_sec now + sint (delay_in_ms div 1000);
          usec = tv_usec now + sint (delay_in_ms mod 1000) * 1000;
          (sec', usec') = (if usec \<ge> 1000000 then (sec + 1, usec mod 1000000) else (sec, usec))
      in \<lparr>ts_sec = sec', ts_nsec = usec' * 1000\<rparr>)"

lemma sint_small: "uint (w :: TimeValue) < 2 ^ 63 \<Longrightarrow> sint w = uint w"
proof -
  assume "uint w < 2 ^ 63"
  moreover have "- (2 ^ 63) \<le> uint w" by (rule order_trans [of _ 0]) simp_all
  ultimately show ?thesis
    by (subst sint_uint, subst signed_take_bit_int_eq_self) simp_all
qed

lemma TimeValue_bounds: "0 \<le> uint (d :: TimeValue)" "uint d < 2 ^ 64"
  using unsigned_less [of d] by simp_all

lemma sint_div_1000: "sint ((d :: TimeValue) div 1000) = uint d div 1000"
proof -
  have "uint d div 1000 < 2 ^ 63" using TimeValue_bounds [of d] by simp
  then show ?thesis by (simp add: sint_small uint_div)
qed

lemma sint_mod_1000: "sint ((d :: TimeValue) mod 1000) = uint d mod 1000"
proof -
  have "uint d mod 1000 < 1000" by simp
  then have "uint d mod 1000 < 2 ^ 63" by (rule order.strict_trans) simp
  then show ?thesis by (simp add: sint_small uint_mod)
qed

text \<open>
  C21: the deadline of a timed wait is exact and normalised: it lies \<open>delay_in_ms\<close> after
  the clock reading, its nanosecond field is a reduced fraction, and no step of the
  computation leaves the range of \<open>long\<close>.
\<close>

theorem TimeWait_deadline_exact:
  assumes "valid_timeval now"
  shows "timespec_ns (TimeWait_deadline now d) =
           timeval_us now * 1000 + uint d * 1000000
       \<and> 0 \<le> ts_nsec (TimeWait_deadline now d)
       \<and> ts_nsec (TimeWait_deadline now d) < 1000000000
       \<and> in_long (ts_sec (TimeWait_deadline now d))
       \<and> in_long (tv_usec now + sint (d mod 1000) * 1000)"
proof -
  define q r where "q = uint d div 1000" and "r = uint d mod 1000"
  have q: "0 \<le> q" "q < 2 ^ 60"
    using TimeValue_bounds [of d] by (simp_all add: q_def pos_imp_zdiv_nonneg_iff)
  have r: "0 \<le> r" "r < 1000" by (simp_all add: r_def)
  have d: "uint d = q * 1000 + r" by (simp add: q_def r_def)
  have carry: "(tv_usec now + r * 1000) mod 1000000 = tv_usec now + r * 1000 - 1000000"
    if "tv_usec now + r * 1000 \<ge> 1000000"
  proof -
    have "(tv_usec now + r * 1000 - 1000000) mod 1000000 = tv_usec now + r * 1000 - 1000000"
      using that assms r by (intro mod_pos_pos_trivial) (simp_all add: valid_timeval_def)
    then show ?thesis by simp
  qed
  have eqs: "sint (d div 1000) = q" "sint (d mod 1000) = r"
    by (simp_all add: q_def r_def sint_div_1000 sint_mod_1000)
  show ?thesis
    unfolding TimeWait_deadline_def Let_def eqs d
    using assms q r carry
    by (auto simp: timespec_ns_def timeval_us_def valid_timeval_def in_long_def)
qed

theorem TimeWait_deadline_exact_witness:
  "timespec_ns (TimeWait_deadline \<lparr>tv_sec = 5, tv_usec = 999999\<rparr> 1001) =
     5999999 * 1000 + 1001 * 1000000"
  using TimeWait_deadline_exact [of "\<lparr>tv_sec = 5, tv_usec = 999999\<rparr>" 1001]
  by (simp add: valid_timeval_def timeval_us_def)

section \<open>Sleeping and reading the clock\<close>

text \<open>\<open>MilliSleep\<close>: the timeout handed to \<open>select\<close>.\<close>

definition MilliSleep_timeout :: "TimeValue \<Rightarrow> timeval" where
  "MilliSleep_timeout time_in_ms =
     \<lparr>tv_sec = sint (time_in_ms div 1000), tv_usec = sint ((time_in_ms mod 1000) * 1000)\<rparr>"

text \<open>\<open>MicroSleep\<close>: what \<open>usleep\<close> is called with, its parameter being 32 bits wide.\<close>

definition MicroSleep_usec :: "TimeValue \<Rightarrow> 32 word" where
  "MicroSleep_usec time_in_ms = ucast time_in_ms"

text \<open>\<open>timeInMilliseconds\<close> and \<open>timeInSeconds\<close> on one reading of the clock.\<close>

definition timeInMilliseconds :: "timeval \<Rightarrow> int" where
  "timeInMilliseconds tv = tv_sec tv * 1000 + tv_usec tv div 1000"

definition timeInSeconds :: "timeval \<Rightarrow> int" where
  "timeInSeconds tv = tv_sec tv"

text \<open>\<open>GetCurrentTime\<close>: the same value, computed in \<open>uint64_t\<close>.\<close>

definition GetCurrentTime :: "timeval \<Rightarrow> TimeValue" where
  "GetCurrentTime now =
     (let now_in_ms = (word_of_int (tv_sec now) :: TimeValue)
      in now_in_ms * 1000 + word_of_int (tv_usec now div 1000))"

lemma sint_mod_1000_1000: "sint (((d :: TimeValue) mod 1000) * 1000) = (uint d mod 1000) * 1000"
proof -
  have "uint d mod 1000 < 1000" "0 \<le> uint d mod 1000" by simp_all
  then have "(uint d mod 1000) * 1000 < 1000 * 1000" "0 \<le> (uint d mod 1000) * 1000"
    by linarith+
  moreover from this have "uint ((d mod 1000) * 1000) = (uint d mod 1000) * 1000"
    by (simp add: uint_word_ariths uint_mod)
  ultimately show ?thesis by (simp add: sint_small)
qed

lemma MilliSleep_timeout_exact:
  "timeval_us (MilliSleep_timeout d) = uint d * 1000 \<and>
   0 \<le> tv_usec (MilliSleep_timeout d) \<and> tv_usec (MilliSleep_timeout d) < 1000000"
proof -
  have "uint d = uint d div 1000 * 1000 + uint d mod 1000" by simp
  moreover have "0 \<le> uint d mod 1000" "uint d mod 1000 < 1000" by simp_all
  ultimately show ?thesis
    unfolding MilliSleep_timeout_def timeval_us_def sint_div_1000 sint_mod_1000_1000
      timeval.simps by linarith
qed

lemma GetCurrentTime_ms:
  assumes "valid_timeval now" and "tv_sec now < 2 ^ 53"
  shows "uint (GetCurrentTime now) = timeInMilliseconds now"
proof -
  have us: "0 \<le> tv_usec now div 1000" "tv_usec now div 1000 < 1000"
    using assms by (auto simp: valid_timeval_def)
  then have "0 \<le> timeInMilliseconds now" "timeInMilliseconds now < 2 ^ 64"
    using assms by (simp_all add: timeInMilliseconds_def valid_timeval_def)
  moreover have "GetCurrentTime now = word_of_int (timeInMilliseconds now)"
    by (simp add: GetCurrentTime_def timeInMilliseconds_def)
  ultimately show ?thesis
    by (simp add: uint_word_of_int)
qed

text \<open>
  C39: milliseconds survive the conversion to a time value and back: the timeout that \<open>MilliSleep\<close> makes
  of \<open>d\<close>, read as a clock value, is \<open>d\<close> again, in \<open>GetCurrentTime\<close> and in \<open>timeInMilliseconds\<close>, for
  every 64-bit \<open>d\<close>.
\<close>

theorem MilliSleep_roundtrip:
  "GetCurrentTime (MilliSleep_timeout d) = d \<and> timeInMilliseconds (MilliSleep_timeout d) = uint d"
proof -
  have sum: "uint d div 1000 * 1000 + uint d mod 1000 = uint d" by simp
  have parts: "tv_sec (MilliSleep_timeout d) = uint d div 1000" "tv_usec (MilliSleep_timeout d) div 1000 = uint d mod 1000"
    by (simp_all add: MilliSleep_timeout_def sint_div_1000 sint_mod_1000_1000)
  have ms: "timeInMilliseconds (MilliSleep_timeout d) = uint d" using sum parts by (simp add: timeInMilliseconds_def)
  have "GetCurrentTime tv = word_of_int (timeInMilliseconds tv)" for tv
    by (simp add: GetCurrentTime_def timeInMilliseconds_def)
  with ms show ?thesis by simp
qed

text \<open>A pause of 2^32 microseconds or more is cut to its lower 32 bits.\<close>

lemma MicroSleep_truncates: "uint (MicroSleep_usec d) = uint d mod 2 ^ 32"
  by (simp add: MicroSleep_usec_def unsigned_ucast_eq take_bit_eq_mod)

end
