(* ===== verification/Sync.thy ===== *)
theory Sync
  imports Clock
begin

text \<open>
  Mutual exclusion and condition variables: \<open>src/Mutex.cpp\<close>, \<open>src/ConditionVariable.cpp\<close>
  and the scoped lockers of \<open>include/empool/ConditionVariable.h\<close>.

  A \<open>Mutex\<close> is its \<open>m_isInit\<close> flag and the thread that holds the underlying
  \<open>pthread_mutex_t\<close>; a call that would block returns \<open>None\<close>.  Every
  \<open>ConditionVariable\<close> of the library is built on a mutex of its own, so the record holds
  both, and \<open>m_cond\<close> is the queue of threads blocked in \<open>pthread_cond_wait\<close>.  A waiting
  thread leaves the mutex when it enters the queue and takes it again when it goes on; the
  two locker constructors with a wait loop are therefore one attempt: take the mutex, test the
  predicate, and either sleep or keep the mutex.
\<close>

datatype 'r attempt = Slept | Returned 'r

section \<open>Mutex\<close>

record mutex =
  m_isInit :: bool
  m_owner :: "tid option"

text \<open>\<open>rc\<close> is the result of \<open>pthread_mutex_init\<close>; \<open>Inl\<close> is the \<open>runtime_error\<close>.\<close>

definition Mutex_Init :: "int \<Rightarrow> mutex \<Rightarrow> string + mutex" where
  "Mutex_Init rc m =
     (if \<not> m_isInit m then
        (if rc \<noteq> 0 then Inl ''failed to initialize mutex'' else Inr (m\<lparr>m_isInit := True\<rparr>))
      else Inr m)"

definition Mutex_ctor :: "int \<Rightarrow> string + mutex" where
  "Mutex_ctor rc = Mutex_Init rc \<lparr>m_isInit = False, m_owner = None\<rparr>"

definition Mutex_Lock :: "tid \<Rightarrow> mutex \<Rightarrow> mutex option" where
  "Mutex_Lock t m =
     (if \<not> m_isInit m then Some m
      else if m_owner m = None then Some (m\<lparr>m_owner := Some t\<rparr>) else None)"

definition Mutex_Unlock :: "mutex \<Rightarrow> mutex" where
  "Mutex_Unlock m = (if \<not> m_isInit m then m else m\<lparr>m_owner := None\<rparr>)"

definition Mutex_TryLock :: "tid \<Rightarrow> mutex \<Rightarrow> bool \<times> mutex" where
  "Mutex_TryLock t m =
     (if \<not> m_isInit m then (False, m)
      else if m_owner m = None then (True, m\<lparr>m_owner := Some t\<rparr>) else (False, m))"

text \<open>\<open>None\<close>: \<open>pthread_mutex_destroy\<close> of a mutex that is held, which the code does not check.\<close>

definition Mutex_dtor :: "mutex \<Rightarrow> unit option" where
  "Mutex_dtor m = (if \<not> m_isInit m then Some () else if m_owner m = None then Some () else None)"

text \<open>\<open>MutexLocker\<close>: the constructor locks, the destructor unlocks.\<close>

definition MutexLocker :: "tid \<Rightarrow> mutex \<Rightarrow> mutex option" where
  "MutexLocker t m = Mutex_Lock t m"

definition MutexLocker_dtor :: "mutex \<Rightarrow> mutex" where
  "MutexLocker_dtor m = Mutex_Unlock m"

subsection \<open>Mutual exclusion\<close>

text \<open>
  Any number of threads that enter a scope through \<open>MutexLocker\<close> or through a successful
  \<open>TryLock\<close>, on a mutex whose constructor succeeded.
\<close>

datatype scope_pc = Outside | Inside

datatype scope_ev = Enter | TryEnter | Leave

fun scope_act :: "scope_ev \<Rightarrow> tid \<Rightarrow> scope_pc \<Rightarrow> mutex \<Rightarrow> (scope_pc \<times> mutex) option" where
  "scope_act Enter t Outside m = map_option (Pair Inside) (MutexLocker t m)"
| "scope_act TryEnter t Outside m =
     (case Mutex_TryLock t m of (b, m') \<Rightarrow> Some (if b then Inside else Outside, m'))"
| "scope_act Leave t Inside m = Some (Outside, MutexLocker_dtor m)"
| "scope_act _ _ _ _ = None"

definition scope_machine :: "(mutex, scope_pc, scope_ev) machine" where
  "scope_machine = \<lparr>act = scope_act, waiting = (\<lambda>_ _. False), unwait = (\<lambda>_ m. m),
     expire = (\<lambda>_. None)\<rparr>"

definition scope_init :: "(mutex, scope_pc) config \<Rightarrow> bool" where
  "scope_init c \<longleftrightarrow> Mutex_ctor 0 = Inr (fst c) \<and> (\<forall>t. snd c t = Outside)"

definition scope_inv :: "mutex \<Rightarrow> (tid \<Rightarrow> scope_pc) \<Rightarrow> bool" where
  "scope_inv m pc \<longleftrightarrow> m_isInit m \<and> (\<forall>t. pc t = Inside \<longleftrightarrow> m_owner m = Some t)"

lemma scope_init_inv: "scope_init (m, pc) \<Longrightarrow> scope_inv m pc"
  by (auto simp: scope_init_def scope_inv_def Mutex_ctor_def Mutex_Init_def)

lemma scope_act_inv:
  assumes "scope_inv m pc" and "scope_act e t (pc t) m = Some (k, m')"
  shows "scope_inv m' (pc(t := k))"
proof -
  have "m_owner m = Some t \<longleftrightarrow> pc t = Inside" using assms(1) by (simp add: scope_inv_def)
  with assms show ?thesis
    by (cases e; cases "pc t")
       (auto simp: scope_inv_def MutexLocker_def MutexLocker_dtor_def Mutex_Lock_def
          Mutex_TryLock_def Mutex_Unlock_def split: if_splits)
qed

interpretation scope: machine_invariant scope_machine scope_init scope_inv
  by unfold_locales (auto simp: scope_machine_def intro: scope_init_inv scope_act_inv)

text \<open>The destructor is safe exactly when no thread is inside a scope.\<close>

lemma Mutex_dtor_safe:
  assumes "reachable scope_machine scope_init (m, pc)"
  shows "Mutex_dtor m \<noteq> None \<longleftrightarrow> (\<forall>t. pc t = Outside)"
proof -
  have m: "m_isInit m" "\<And>t. pc t = Inside \<longleftrightarrow> m_owner m = Some t"
    using scope.reachable_inv [OF assms] by (auto simp: scope_inv_def)
  have "(\<forall>t. pc t = Outside) \<longleftrightarrow> (\<forall>t. pc t \<noteq> Inside)" by (metis scope_pc.distinct(1) scope_pc.exhaust)
  with m show ?thesis by (cases "m_owner m") (simp_all add: Mutex_dtor_def)
qed

text \<open>At most one thread is inside the scopes guarded by one mutex.\<close>

theorem MutexLocker_mutual_exclusion:
  assumes "reachable scope_machine scope_init (m, pc)" and "pc t = Inside" and "pc u = Inside"
  shows "t = u"
  using scope.reachable_inv [OF assms(1)] assms(2,3) by (auto simp: scope_inv_def)

theorem MutexLocker_mutual_exclusion_witness:
  "\<exists>m pc. reachable scope_machine scope_init (m, pc) \<and> pc 3 = Inside \<and> (\<forall>u. pc u = Inside \<longrightarrow> 3 = u)"
proof -
  define c where "c = (\<lparr>m_isInit = True, m_owner = None\<rparr>, \<lambda>_ :: tid. Outside)"
  have "scope_init c" by (simp add: c_def scope_init_def Mutex_ctor_def Mutex_Init_def)
  moreover have "run_check scope_machine [Act 3 Enter] c (\<lambda>m pc. pc 3 = Inside)"
    by (simp add: c_def run_check_def scope_machine_def MutexLocker_def Mutex_Lock_def)
  ultimately obtain m pc where "reachable scope_machine scope_init (m, pc)" "pc 3 = Inside"
    using run_check_reachable by blast
  with MutexLocker_mutual_exclusion [of m pc 3] show ?thesis by blast
qed

section \<open>Condition variables\<close>

record condition_variable =
  cv_mutex :: mutex
  m_cond :: "tid list"

definition ConditionVariable_ctor :: "mutex \<Rightarrow> condition_variable" where
  "ConditionVariable_ctor m = \<lparr>cv_mutex = m, m_cond = []\<rparr>"

text \<open>\<open>None\<close>: \<open>pthread_cond_destroy\<close> while threads wait.\<close>

definition ConditionVariable_dtor :: "condition_variable \<Rightarrow> unit option" where
  "ConditionVariable_dtor c = (if m_cond c = [] then Some () else None)"

definition CV_Lock :: "tid \<Rightarrow> condition_variable \<Rightarrow> condition_variable option" where
  "CV_Lock t c = map_option (\<lambda>m. c\<lparr>cv_mutex := m\<rparr>) (Mutex_Lock t (cv_mutex c))"

definition CV_Unlock :: "condition_variable \<Rightarrow> condition_variable" where
  "CV_Unlock c = c\<lparr>cv_mutex := Mutex_Unlock (cv_mutex c)\<rparr>"

text \<open>\<open>pthread_cond_signal\<close> unblocks one of the waiting threads; which one is the choice \<open>n\<close>.\<close>

definition CV_Notify :: "nat \<Rightarrow> condition_variable \<Rightarrow> condition_variable" where
  "CV_Notify n c =
     (if m_cond c = [] then c
      else c\<lparr>m_cond := remove1 (m_cond c ! (n mod length (m_cond c))) (m_cond c)\<rparr>)"

definition CV_NotifyAll :: "condition_variable \<Rightarrow> condition_variable" where
  "CV_NotifyAll c = c\<lparr>m_cond := []\<rparr>"

text \<open>
  \<open>Wait\<close> and \<open>TimeWait\<close> block the caller and release the mutex in one step; a timed wait
  differs only in that the machine may expire it.
\<close>

definition CV_Wait :: "tid \<Rightarrow> condition_variable \<Rightarrow> condition_variable" where
  "CV_Wait t c = c\<lparr>m_cond := m_cond c @ [t], cv_mutex := Mutex_Unlock (cv_mutex c)\<rparr>"

definition cv_waiting :: "condition_variable \<Rightarrow> tid \<Rightarrow> bool" where
  "cv_waiting c t \<longleftrightarrow> t \<in> set (m_cond c)"

definition cv_unwait :: "tid \<Rightarrow> condition_variable \<Rightarrow> condition_variable" where
  "cv_unwait t c = c\<lparr>m_cond := removeAll t (m_cond c)\<rparr>"

text \<open>The scope of a \<open>MutexLocker\<close> on the mutex of a condition variable.\<close>

definition CV_Scope :: "tid \<Rightarrow> condition_variable \<Rightarrow> condition_variable option" where
  "CV_Scope t c = do { c1 \<leftarrow> CV_Lock t c; Some (CV_Unlock c1) }"

subsection \<open>Scoped lockers\<close>

text \<open>
  One attempt of the wait loop.  The flag of the result says whether the thread went to
  sleep; if it did not, it holds the mutex.
\<close>

definition ConditionWaitLocker ::
    "tid \<Rightarrow> bool \<Rightarrow> condition_variable \<Rightarrow> (bool \<times> condition_variable) option" where
  "ConditionWaitLocker t f c =
     do { c1 \<leftarrow> CV_Lock t c;
          Some (if f then (True, CV_Wait t c1) else (False, c1)) }"

definition ConditionWaitLocker_dtor :: "condition_variable \<Rightarrow> condition_variable" where
  "ConditionWaitLocker_dtor c = CV_Unlock c"

text \<open>
  \<open>ConditionWaitLocker::TimeWait\<close>: the same loop over timed waits.  When the wait has expired
  the thread only takes the mutex back and reports \<open>false\<close>: the predicate is not tested again.
\<close>

definition ConditionWaitLocker_TimeWait ::
    "tid \<Rightarrow> bool \<Rightarrow> condition_variable \<Rightarrow> (bool \<times> condition_variable) option" where
  "ConditionWaitLocker_TimeWait t f c =
     do { c1 \<leftarrow> CV_Lock t c;
          Some (if f then (True, CV_Wait t c1) else (False, c1)) }"

definition ConditionWaitLocker_TimeWait_expired ::
    "tid \<Rightarrow> condition_variable \<Rightarrow> condition_variable option" where
  "ConditionWaitLocker_TimeWait_expired t c = CV_Lock t c"

definition ConditionNotifyLocker ::
    "tid \<Rightarrow> nat \<Rightarrow> bool \<Rightarrow> condition_variable \<Rightarrow> condition_variable option" where
  "ConditionNotifyLocker t n f c =
     do { c1 \<leftarrow> CV_Lock t c; Some (if f then CV_Notify n c1 else c1) }"

definition ConditionNotifyLocker_dtor :: "condition_variable \<Rightarrow> condition_variable" where
  "ConditionNotifyLocker_dtor c = CV_Unlock c"

definition ConditionNotifyAllLocker ::
    "tid \<Rightarrow> bool \<Rightarrow> condition_variable \<Rightarrow> condition_variable option" where
  "ConditionNotifyAllLocker t f c =
     do { c1 \<leftarrow> CV_Lock t c; Some (if f then CV_NotifyAll c1 else c1) }"

definition ConditionNotifyAllLocker_dtor :: "condition_variable \<Rightarrow> condition_variable" where
  "ConditionNotifyAllLocker_dtor c = CV_Unlock c"

subsection \<open>Normal forms\<close>

text \<open>
  \<open>cv_free\<close>: the mutex is initialised and nobody holds it.  \<open>cv_hold t c\<close>: \<open>c\<close> with its mutex
  held by \<open>t\<close>.  On a free condition variable every locker succeeds and the scope gives the
  mutex back; the lemmas of the collection \<open>sync\<close> reduce a whole critical section to its
  effect on the wait queue.
\<close>

definition cv_free :: "condition_variable \<Rightarrow> bool" where
  "cv_free c \<longleftrightarrow> m_isInit (cv_mutex c) \<and> m_owner (cv_mutex c) = None"

definition cv_hold :: "tid \<Rightarrow> condition_variable \<Rightarrow> condition_variable" where
  "cv_hold t c = c\<lparr>cv_mutex := (cv_mutex c)\<lparr>m_owner := Some t\<rparr>\<rparr>"

lemmas cv_defs = cv_free_def cv_hold_def CV_Lock_def CV_Unlock_def CV_Wait_def CV_Notify_def
  CV_NotifyAll_def Mutex_Lock_def Mutex_Unlock_def cv_waiting_def cv_unwait_def

lemmas locker_defs = CV_Scope_def ConditionWaitLocker_def ConditionWaitLocker_dtor_def
  ConditionWaitLocker_TimeWait_def ConditionWaitLocker_TimeWait_expired_def
  ConditionNotifyLocker_def ConditionNotifyLocker_dtor_def ConditionNotifyAllLocker_def
  ConditionNotifyAllLocker_dtor_def

lemma cv_free_ctor [sync]: "cv_free (ConditionVariable_ctor \<lparr>m_isInit = True, m_owner = None\<rparr>)"
  by (simp add: ConditionVariable_ctor_def cv_free_def)

lemma cv_lock_free [sync]: "cv_free c \<Longrightarrow> CV_Lock t c = Some (cv_hold t c)"
  by (simp add: cv_defs)

lemma cv_unlock_hold [sync]: "cv_free c \<Longrightarrow> CV_Unlock (cv_hold t c) = c"
  by (simp add: cv_defs)

lemma cv_wait_hold [sync]: "cv_free c \<Longrightarrow> CV_Wait t (cv_hold u c) = c\<lparr>m_cond := m_cond c @ [t]\<rparr>"
  by (simp add: cv_defs)

lemma cv_notify_hold [sync]: "CV_Notify n (cv_hold t c) = cv_hold t (CV_Notify n c)"
  by (simp add: cv_defs)

lemma cv_notify_all_hold [sync]: "CV_NotifyAll (cv_hold t c) = cv_hold t (CV_NotifyAll c)"
  by (simp add: cv_defs)

lemma m_cond_hold [sync]: "m_cond (cv_hold t c) = m_cond c"
  by (simp add: cv_defs)

lemma m_cond_notify_all [sync]: "m_cond (CV_NotifyAll c) = []"
  by (simp add: cv_defs)

lemma m_cond_unwait [sync]: "m_cond (cv_unwait t c) = removeAll t (m_cond c)"
  by (simp add: cv_defs)

lemma m_cond_notify_subset: "set (m_cond (CV_Notify n c)) \<subseteq> set (m_cond c)"
  by (auto simp: cv_defs dest: notin_set_remove1)

lemma cv_free_upd [sync]:
  "cv_free (c\<lparr>m_cond := w\<rparr>) = cv_free c" "cv_free (CV_NotifyAll c) = cv_free c"
  "cv_free (CV_Notify n c) = cv_free c" "cv_free (cv_unwait t c) = cv_free c"
  "cv_free (cv_hold t c) = False"
  by (simp_all add: cv_defs)

lemma cv_waiting_iff [sync]: "cv_waiting c t \<longleftrightarrow> t \<in> set (m_cond c)"
  by (simp add: cv_defs)

lemma scope_section [sync]: "cv_free c \<Longrightarrow> CV_Scope t c = Some c"
  by (simp add: CV_Scope_def sync)

lemma notify_all_section [sync]:
  "cv_free c \<Longrightarrow> ConditionNotifyAllLocker t f c = Some (cv_hold t (if f then CV_NotifyAll c else c))"
  by (simp add: locker_defs sync)

lemma notify_section [sync]:
  "cv_free c \<Longrightarrow> ConditionNotifyLocker t n f c = Some (cv_hold t (if f then CV_Notify n c else c))"
  by (simp add: locker_defs sync)

lemma wait_section [sync]:
  "cv_free c \<Longrightarrow> ConditionWaitLocker t f c =
     Some (if f then (True, c\<lparr>m_cond := m_cond c @ [t]\<rparr>) else (False, cv_hold t c))"
  by (simp add: locker_defs sync)

lemma time_wait_section [sync]:
  "cv_free c \<Longrightarrow> ConditionWaitLocker_TimeWait t f c =
     Some (if f then (True, c\<lparr>m_cond := m_cond c @ [t]\<rparr>) else (False, cv_hold t c))"
  by (simp add: locker_defs sync)

lemma time_wait_expired_section [sync]:
  "cv_free c \<Longrightarrow> ConditionWaitLocker_TimeWait_expired t c = Some (cv_hold t c)"
  by (simp add: locker_defs sync)

lemma locker_dtor [sync]:
  "cv_free c \<Longrightarrow> ConditionWaitLocker_dtor (cv_hold t c) = c"
  "cv_free c \<Longrightarrow> ConditionNotifyLocker_dtor (cv_hold t c) = c"
  "cv_free c \<Longrightarrow> ConditionNotifyAllLocker_dtor (cv_hold t c) = c"
  by (simp_all add: locker_defs sync)

section \<open>The wait discipline\<close>

text \<open>
  The contract of a condition variable whose waiters wait for \<open>guard\<close> to become false: a
  thread enters the queue only while the guard holds, and an action that makes the guard false
  empties the queue in the same critical section.  Every class that obeys it loses no wake-up.
\<close>

locale guarded_wait = machine_invariant M init Inv
  for M :: "('s, 'k, 'e) machine"
    and init :: "('s, 'k) config \<Rightarrow> bool"
    and Inv :: "'s \<Rightarrow> (tid \<Rightarrow> 'k) \<Rightarrow> bool" +
  fixes cv :: "'s \<Rightarrow> condition_variable"
    and guard :: "'s \<Rightarrow> bool"
  assumes start_empty: "init (s, pc) \<Longrightarrow> m_cond (cv s) = []"
    and act_disciplined: "Inv s pc \<Longrightarrow> \<not> waiting M s t \<Longrightarrow> act M e t (pc t) s = Some (k, s') \<Longrightarrow>
      m_cond (cv s') = [] \<or> set (m_cond (cv s')) \<subseteq> set (m_cond (cv s)) \<and> (guard s \<longrightarrow> guard s')
      \<or> guard s \<and> guard s'"
    and unwait_disciplined: "Inv s pc \<Longrightarrow> waiting M s t \<Longrightarrow>
      set (m_cond (cv (unwait M t s))) \<subseteq> set (m_cond (cv s)) \<and> (guard s \<longrightarrow> guard (unwait M t s))"
begin

lemma step_no_lost_wakeup:
  assumes "step M (s, pc) (s', pc')" and "Inv s pc" and "m_cond (cv s) \<noteq> [] \<longrightarrow> guard s"
  shows "m_cond (cv s') \<noteq> [] \<longrightarrow> guard s'"
  using assms
proof (cases rule: step.cases)
  case (step_act t e k)
  with assms act_disciplined [of s pc t e k s'] show ?thesis by auto
next
  case (step_wakeup t)
  with assms unwait_disciplined [of s pc t] show ?thesis by auto
next
  case (step_timeout t k)
  with assms unwait_disciplined [of s pc t] show ?thesis by auto
qed

lemma no_lost_wakeup:
  assumes "reachable M init (s, pc)"
  shows "m_cond (cv s) \<noteq> [] \<longrightarrow> guard s"
  using assms
proof (induction "(s, pc)" arbitrary: s pc rule: reachable.induct)
  case reach_init
  then show ?case by (simp add: start_empty)
next
  case (reach_step c)
  obtain s0 pc0 where c: "c = (s0, pc0)" by (cases c)
  with reach_step have "Inv s0 pc0" "m_cond (cv s0) \<noteq> [] \<longrightarrow> guard s0"
    by (auto intro: reachable_inv)
  with reach_step c show ?case by (auto dest: step_no_lost_wakeup)
qed

end

text \<open>
  The second discipline: waiters wait until another thread has finished, the finisher publishes
  its end first and notifies in a later critical section, and only if somebody asked.  A waiter
  asks before it tests.  \<open>notifying\<close> marks the program counters between publishing and
  notifying.
\<close>

locale finish_handshake = machine_invariant M init Inv
  for M :: "('s, 'k, 'e) machine"
    and init :: "('s, 'k) config \<Rightarrow> bool"
    and Inv :: "'s \<Rightarrow> (tid \<Rightarrow> 'k) \<Rightarrow> bool" +
  fixes cv :: "'s \<Rightarrow> condition_variable"
    and requested :: "'s \<Rightarrow> bool"
    and finished :: "'s \<Rightarrow> bool"
    and notifying :: "'k \<Rightarrow> bool"
  assumes start_empty: "init (s, pc) \<Longrightarrow> m_cond (cv s) = []"
    and act_disciplined: "Inv s pc \<Longrightarrow> \<not> waiting M s t \<Longrightarrow> act M e t (pc t) s = Some (k, s') \<Longrightarrow>
      m_cond (cv s') = []
      \<or> set (m_cond (cv s')) \<subseteq> set (m_cond (cv s)) \<and> (requested s \<longrightarrow> requested s')
          \<and> (finished s' \<longrightarrow> finished s \<or> notifying k)
          \<and> (notifying (pc t) \<longrightarrow> notifying k \<or> \<not> requested s)
      \<or> requested s' \<and> \<not> finished s'"
    and unwait_disciplined: "Inv s pc \<Longrightarrow> waiting M s t \<Longrightarrow>
      set (m_cond (cv (unwait M t s))) \<subseteq> set (m_cond (cv s))
      \<and> (requested s \<longrightarrow> requested (unwait M t s)) \<and> (finished (unwait M t s) \<longrightarrow> finished s)"
    and expire_keeps: "expire M k = Some k' \<Longrightarrow> \<not> notifying k"
begin

definition handshake_ok :: "'s \<Rightarrow> (tid \<Rightarrow> 'k) \<Rightarrow> bool" where
  "handshake_ok s pc \<longleftrightarrow>
     (m_cond (cv s) \<noteq> [] \<longrightarrow> requested s \<and> (finished s \<longrightarrow> (\<exists>t. notifying (pc t))))"

lemma step_handshake:
  assumes "step M (s, pc) (s', pc')" and "Inv s pc" and "handshake_ok s pc"
  shows "handshake_ok s' pc'"
  using assms(1)
proof (cases rule: step.cases)
  case (step_act t e k)
  have "handshake_ok s' (pc(t := k))"
    using act_disciplined [OF assms(2) step_act(2,3)] assms(3)
    unfolding handshake_ok_def by (metis empty_set fun_upd_apply set_empty2 subset_empty)
  with step_act show ?thesis by simp
next
  case (step_wakeup t)
  with assms unwait_disciplined [of s pc t] show ?thesis
    by (auto simp: handshake_ok_def)
next
  case (step_timeout t k)
  have "handshake_ok (unwait M t s) (pc(t := k))"
    using unwait_disciplined [OF assms(2) step_timeout(3)] assms(3) expire_keeps [OF step_timeout(4)]
    unfolding handshake_ok_def by (metis empty_set fun_upd_apply set_empty2 subset_empty)
  with step_timeout show ?thesis by simp
qed

lemma reachable_handshake:
  assumes "reachable M init (s, pc)"
  shows "handshake_ok s pc"
  using assms
proof (induction "(s, pc)" arbitrary: s pc rule: reachable.induct)
  case reach_init
  then show ?case by (simp add: handshake_ok_def start_empty)
next
  case (reach_step c)
  obtain s0 pc0 where c: "c = (s0, pc0)" by (cases c)
  with reach_step show ?case by (auto dest: step_handshake intro: reachable_inv)
qed

lemma no_waiter_left:
  assumes "reachable M init (s, pc)" and "finished s" and "\<And>t. \<not> notifying (pc t)"
  shows "m_cond (cv s) = []"
  using reachable_handshake [OF assms(1)] assms(2,3) by (auto simp: handshake_ok_def)

end

end
