(* ===== verification/BlockingQueue.thy ===== *)
theory BlockingQueue
  imports Sync
begin

text \<open>
  The blocking queue (\<open>include/empool/BlockingQueue.h\<close>) and the task queue built on it
  (\<open>BlockingTaskQueue\<close>), with the interface \<open>TaskQueueBase\<close> as a locale.  An operation takes
  the calling thread and the queue; \<open>None\<close> means that the mutex is taken, \<open>Slept\<close> that the
  caller went to sleep in the wait loop and will try again once it is woken.
\<close>

record 'a blocking_queue =
  bq_mutexCond :: condition_variable
  bq_queue :: "'a list"

definition BlockingQueue_ctor :: "mutex \<Rightarrow> 'a list \<Rightarrow> 'a blocking_queue" where
  "BlockingQueue_ctor m container =
     \<lparr>bq_mutexCond = ConditionVariable_ctor m, bq_queue = container\<rparr>"

definition BlockingQueue_Push :: "tid \<Rightarrow> 'a \<Rightarrow> 'a blocking_queue \<Rightarrow> 'a blocking_queue option" where
  "BlockingQueue_Push t elem q =
     do { l \<leftarrow> ConditionNotifyAllLocker t (bq_queue q = []) (bq_mutexCond q);
          Some (q\<lparr>bq_queue := bq_queue q @ [elem],
                  bq_mutexCond := ConditionNotifyAllLocker_dtor l\<rparr>) }"

definition BlockingQueue_Pop :: "tid \<Rightarrow> 'a blocking_queue \<Rightarrow> ('a attempt \<times> 'a blocking_queue) option" where
  "BlockingQueue_Pop t q =
     do { (slept, l) \<leftarrow> ConditionWaitLocker t (bq_queue q = []) (bq_mutexCond q);
          Some (if slept then (Slept, q\<lparr>bq_mutexCond := l\<rparr>)
                else (Returned (hd (bq_queue q)),
                      q\<lparr>bq_queue := tl (bq_queue q), bq_mutexCond := ConditionWaitLocker_dtor l\<rparr>)) }"

text \<open>
  \<open>PopTimeWait\<close> returns a flag and, when it is \<open>true\<close>, assigns the reference parameter:
  \<open>Returned (Some x)\<close> is \<open>true\<close> with \<open>elem = x\<close>, \<open>Returned None\<close> is \<open>false\<close> with
  \<open>elem\<close> untouched.
\<close>

definition BlockingQueue_PopTimeWait ::
    "tid \<Rightarrow> 'a blocking_queue \<Rightarrow> ('a option attempt \<times> 'a blocking_queue) option" where
  "BlockingQueue_PopTimeWait t q =
     do { (slept, l) \<leftarrow> ConditionWaitLocker_TimeWait t (bq_queue q = []) (bq_mutexCond q);
          Some (if slept then (Slept, q\<lparr>bq_mutexCond := l\<rparr>)
                else (Returned (Some (hd (bq_queue q))),
                      q\<lparr>bq_queue := tl (bq_queue q), bq_mutexCond := ConditionWaitLocker_dtor l\<rparr>)) }"

definition BlockingQueue_PopTimeWait_expired ::
    "tid \<Rightarrow> 'a blocking_queue \<Rightarrow> ('a option attempt \<times> 'a blocking_queue) option" where
  "BlockingQueue_PopTimeWait_expired t q =
     do { l \<leftarrow> ConditionWaitLocker_TimeWait_expired t (bq_mutexCond q);
          Some (Returned None, q\<lparr>bq_mutexCond := ConditionWaitLocker_dtor l\<rparr>) }"

definition BlockingQueue_Front :: "tid \<Rightarrow> 'a blocking_queue \<Rightarrow> ('a attempt \<times> 'a blocking_queue) option" where
  "BlockingQueue_Front t q =
     do { (slept, l) \<leftarrow> ConditionWaitLocker t (bq_queue q = []) (bq_mutexCond q);
          Some (if slept then (Slept, q\<lparr>bq_mutexCond := l\<rparr>)
                else (Returned (hd (bq_queue q)), q\<lparr>bq_mutexCond := ConditionWaitLocker_dtor l\<rparr>)) }"

definition BlockingQueue_Size :: "tid \<Rightarrow> 'a blocking_queue \<Rightarrow> (nat \<times> 'a blocking_queue) option" where
  "BlockingQueue_Size t q =
     do { m \<leftarrow> MutexLocker t (cv_mutex (bq_mutexCond q));
          Some (length (bq_queue q),
                q\<lparr>bq_mutexCond := (bq_mutexCond q)\<lparr>cv_mutex := MutexLocker_dtor m\<rparr>\<rparr>) }"

definition BlockingQueue_IsEmpty :: "tid \<Rightarrow> 'a blocking_queue \<Rightarrow> (bool \<times> 'a blocking_queue) option" where
  "BlockingQueue_IsEmpty t q =
     do { m \<leftarrow> MutexLocker t (cv_mutex (bq_mutexCond q));
          Some (bq_queue q = [],
                q\<lparr>bq_mutexCond := (bq_mutexCond q)\<lparr>cv_mutex := MutexLocker_dtor m\<rparr>\<rparr>) }"

lemma mutex_scope [sync]:
  "cv_free c \<Longrightarrow> MutexLocker t (cv_mutex c) = Some ((cv_mutex c)\<lparr>m_owner := Some t\<rparr>)"
  "cv_free c \<Longrightarrow> c\<lparr>cv_mutex := MutexLocker_dtor ((cv_mutex c)\<lparr>m_owner := Some t\<rparr>)\<rparr> = c"
  by (simp_all add: cv_free_def MutexLocker_def MutexLocker_dtor_def Mutex_Lock_def
      Mutex_Unlock_def)

text \<open>The effect of each operation on a queue whose mutex is free.\<close>

lemma BlockingQueue_ops [sync]:
  assumes "cv_free (bq_mutexCond q)"
  shows "BlockingQueue_Push t x q = Some (q\<lparr>bq_queue := bq_queue q @ [x],
           bq_mutexCond := (if bq_queue q = [] then CV_NotifyAll (bq_mutexCond q)
                            else bq_mutexCond q)\<rparr>)"
    and "BlockingQueue_Pop t q = Some (case bq_queue q of
           [] \<Rightarrow> (Slept, q\<lparr>bq_mutexCond := (bq_mutexCond q)\<lparr>m_cond := m_cond (bq_mutexCond q) @ [t]\<rparr>\<rparr>)
         | x # xs \<Rightarrow> (Returned x, q\<lparr>bq_queue := xs\<rparr>))"
    and "BlockingQueue_PopTimeWait t q = Some (case bq_queue q of
           [] \<Rightarrow> (Slept, q\<lparr>bq_mutexCond := (bq_mutexCond q)\<lparr>m_cond := m_cond (bq_mutexCond q) @ [t]\<rparr>\<rparr>)
         | x # xs \<Rightarrow> (Returned (Some x), q\<lparr>bq_queue := xs\<rparr>))"
    and "BlockingQueue_PopTimeWait_expired t q = Some (Returned None, q)"
    and "BlockingQueue_Front t q = Some (case bq_queue q of
           [] \<Rightarrow> (Slept, q\<lparr>bq_mutexCond := (bq_mutexCond q)\<lparr>m_cond := m_cond (bq_mutexCond q) @ [t]\<rparr>\<rparr>)
         | x # xs \<Rightarrow> (Returned x, q))"
    and "BlockingQueue_Size t q = Some (length (bq_queue q), q)"
    and "BlockingQueue_IsEmpty t q = Some (bq_queue q = [], q)"
  using assms
  by (simp_all add: BlockingQueue_Push_def BlockingQueue_Pop_def BlockingQueue_PopTimeWait_def
      BlockingQueue_PopTimeWait_expired_def BlockingQueue_Front_def BlockingQueue_Size_def
      BlockingQueue_IsEmpty_def sync split: list.splits)

section \<open>Any number of producers and consumers\<close>

text \<open>
  The system of one queue and its clients.  The histories of completed pushes and pops are
  ghost state: no operation reads them.
\<close>

record 'a bq_sys =
  bqs_queue :: "'a blocking_queue"
  bqs_pushed :: "'a list"
  bqs_popped :: "'a list"

datatype 'a bq_pc = BQ_Ready | BQ_Pushing 'a | BQ_Popping | BQ_TimedPopping | BQ_Expired
  | BQ_Fronting | BQ_Popped 'a | BQ_Failed

datatype 'a bq_ev = CallPush 'a | CallPop | CallPopTimeWait | CallFront | BQ_Run

fun bq_act :: "'a bq_ev \<Rightarrow> tid \<Rightarrow> 'a bq_pc \<Rightarrow> 'a bq_sys \<Rightarrow> ('a bq_pc \<times> 'a bq_sys) option" where
  "bq_act (CallPush x) t BQ_Ready s = Some (BQ_Pushing x, s)"
| "bq_act CallPop t BQ_Ready s = Some (BQ_Popping, s)"
| "bq_act CallPopTimeWait t BQ_Ready s = Some (BQ_TimedPopping, s)"
| "bq_act CallFront t BQ_Ready s = Some (BQ_Fronting, s)"
| "bq_act BQ_Run t (BQ_Pushing x) s =
     do { q \<leftarrow> BlockingQueue_Push t x (bqs_queue s);
          Some (BQ_Ready, s\<lparr>bqs_queue := q, bqs_pushed := bqs_pushed s @ [x]\<rparr>) }"
| "bq_act BQ_Run t BQ_Popping s =
     do { (r, q) \<leftarrow> BlockingQueue_Pop t (bqs_queue s);
          Some (case r of Slept \<Rightarrow> (BQ_Popping, s\<lparr>bqs_queue := q\<rparr>)
                | Returned x \<Rightarrow> (BQ_Popped x, s\<lparr>bqs_queue := q, bqs_popped := bqs_popped s @ [x]\<rparr>)) }"
| "bq_act BQ_Run t BQ_TimedPopping s =
     do { (r, q) \<leftarrow> BlockingQueue_PopTimeWait t (bqs_queue s);
          Some (case r of Slept \<Rightarrow> (BQ_TimedPopping, s\<lparr>bqs_queue := q\<rparr>)
                | Returned None \<Rightarrow> (BQ_Failed, s\<lparr>bqs_queue := q\<rparr>)
                | Returned (Some x) \<Rightarrow>
                    (BQ_Popped x, s\<lparr>bqs_queue := q, bqs_popped := bqs_popped s @ [x]\<rparr>)) }"
| "bq_act BQ_Run t BQ_Expired s =
     do { (r, q) \<leftarrow> BlockingQueue_PopTimeWait_expired t (bqs_queue s);
          Some (BQ_Failed, s\<lparr>bqs_queue := q\<rparr>) }"
| "bq_act BQ_Run t BQ_Fronting s =
     do { (r, q) \<leftarrow> BlockingQueue_Front t (bqs_queue s);
          Some (case r of Slept \<Rightarrow> (BQ_Fronting, s\<lparr>bqs_queue := q\<rparr>)
                | Returned x \<Rightarrow> (BQ_Ready, s\<lparr>bqs_queue := q\<rparr>)) }"
| "bq_act BQ_Run t (BQ_Popped x) s = Some (BQ_Ready, s)"
| "bq_act BQ_Run t BQ_Failed s = Some (BQ_Ready, s)"
| "bq_act _ _ _ _ = None"

definition bq_machine :: "('a bq_sys, 'a bq_pc, 'a bq_ev) machine" where
  "bq_machine = \<lparr>act = bq_act,
     waiting = (\<lambda>s. cv_waiting (bq_mutexCond (bqs_queue s))),
     unwait = (\<lambda>t s. s\<lparr>bqs_queue := (bqs_queue s)
        \<lparr>bq_mutexCond := cv_unwait t (bq_mutexCond (bqs_queue s))\<rparr>\<rparr>),
     expire = (\<lambda>k. if k = BQ_TimedPopping then Some BQ_Expired else None)\<rparr>"

definition bq_init :: "('a bq_sys, 'a bq_pc) config \<Rightarrow> bool" where
  "bq_init c \<longleftrightarrow> (\<exists>m xs. Mutex_ctor 0 = Inr m \<and>
     fst c = \<lparr>bqs_queue = BlockingQueue_ctor m xs, bqs_pushed = xs, bqs_popped = []\<rparr>) \<and>
     (\<forall>t. snd c t = BQ_Ready)"

definition bq_inv :: "'a bq_sys \<Rightarrow> (tid \<Rightarrow> 'a bq_pc) \<Rightarrow> bool" where
  "bq_inv s pc \<longleftrightarrow> cv_free (bq_mutexCond (bqs_queue s)) \<and>
     bqs_pushed s = bqs_popped s @ bq_queue (bqs_queue s)"

lemma bq_init_inv: "bq_init (s, pc) \<Longrightarrow> bq_inv s pc \<and> m_cond (bq_mutexCond (bqs_queue s)) = []"
  by (auto simp: bq_init_def bq_inv_def BlockingQueue_ctor_def Mutex_ctor_def Mutex_Init_def
      ConditionVariable_ctor_def cv_free_def)

lemma bq_act_inv:
  assumes "bq_inv s pc" and "bq_act e t (pc t) s = Some (k, s')"
  shows "bq_inv s' (pc(t := k))"
  using assms by (cases e; cases "pc t")
    (auto simp: bq_inv_def sync split: list.splits if_splits)

lemma bq_act_disciplined:
  assumes "bq_inv s pc" and "bq_act e t (pc t) s = Some (k, s')"
  shows "m_cond (bq_mutexCond (bqs_queue s')) = []
    \<or> set (m_cond (bq_mutexCond (bqs_queue s'))) \<subseteq> set (m_cond (bq_mutexCond (bqs_queue s)))
        \<and> (bq_queue (bqs_queue s) = [] \<longrightarrow> bq_queue (bqs_queue s') = [])
    \<or> bq_queue (bqs_queue s) = [] \<and> bq_queue (bqs_queue s') = []"
  using assms by (cases e; cases "pc t")
    (auto simp: bq_inv_def sync split: list.splits if_splits)

lemma bq_unwait_inv:
  "bq_inv s pc \<Longrightarrow> bq_inv (s\<lparr>bqs_queue := (bqs_queue s)
     \<lparr>bq_mutexCond := cv_unwait t (bq_mutexCond (bqs_queue s))\<rparr>\<rparr>) pc'"
  by (simp add: bq_inv_def sync)

interpretation bq: guarded_wait bq_machine bq_init bq_inv
    "\<lambda>s. bq_mutexCond (bqs_queue s)" "\<lambda>s. bq_queue (bqs_queue s) = []"
  by unfold_locales
     (auto simp: bq_machine_def sync
       dest: bq_init_inv bq_act_inv bq_act_disciplined intro: bq_unwait_inv)

text \<open>
  C15: first in, first out, exactly once: at every moment, under any interleaving, the values
  pushed so far (with the initial content) are, in order, the values popped so far followed by
  the content of the queue.
\<close>

theorem BlockingQueue_fifo:
  assumes "reachable bq_machine bq_init (s, pc)"
  shows "bqs_pushed s = bqs_popped s @ bq_queue (bqs_queue s)"
  using bq.reachable_inv [OF assms] by (simp add: bq_inv_def)

definition bq_start :: "'a list \<Rightarrow> ('a bq_sys, 'a bq_pc) config" where
  "bq_start xs = (\<lparr>bqs_queue = BlockingQueue_ctor \<lparr>m_isInit = True, m_owner = None\<rparr> xs,
     bqs_pushed = xs, bqs_popped = []\<rparr>, \<lambda>_. BQ_Ready)"

lemma bq_init_start: "bq_init (bq_start xs)"
  by (simp add: bq_init_def bq_start_def Mutex_ctor_def Mutex_Init_def)

lemmas bq_exec = bq_machine_def bq_start_def run_check_def BlockingQueue_ctor_def
  ConditionVariable_ctor_def cv_waiting_def cv_defs

lemma bq_example: "run_check bq_machine
    [Act 1 CallPop, Act 1 BQ_Run, Act 2 (CallPush a), Act 2 BQ_Run, Act 2 (CallPush b), Act 2 BQ_Run]
    (bq_start []) (\<lambda>s pc. bqs_pushed s = [a, b] \<and> bqs_popped s = [] \<and>
      bq_queue (bqs_queue s) = [a, b] \<and> pc 1 = BQ_Popping)"
  by (simp add: bq_exec BlockingQueue_Pop_def BlockingQueue_Push_def locker_defs)

theorem BlockingQueue_fifo_witness:
  "\<exists>s pc. reachable bq_machine bq_init (s, pc) \<and> bq_queue (bqs_queue s) = [7, 8 :: nat]
     \<and> bqs_pushed s = bqs_popped s @ bq_queue (bqs_queue s)"
  using run_check_reachable [where init = bq_init, OF bq_example bq_init_start, of 7 8] BlockingQueue_fifo by blast

text \<open>
  C18: no wake-up is lost and no consumer starves on a non-empty queue: whatever producers,
  consumers, spurious wake-ups and expired waits did before, as soon as the queue holds an
  element every thread inside \<open>Pop\<close> is out of the wait queue and its next action returns the
  front element.
\<close>

theorem BlockingQueue_consumer_progress:
  assumes "reachable bq_machine bq_init (s, pc)" and "pc t = BQ_Popping"
    and "bq_queue (bqs_queue s) = x # xs"
  shows "\<exists>s'. mstep bq_machine (Act t BQ_Run) (s, pc) = Some (s', pc(t := BQ_Popped x))
     \<and> bq_queue (bqs_queue s') = xs \<and> bqs_popped s' = bqs_popped s @ [x]"
proof -
  have "m_cond (bq_mutexCond (bqs_queue s)) = []"
    using bq.no_lost_wakeup [OF assms(1)] assms(3) by auto
  moreover have "cv_free (bq_mutexCond (bqs_queue s))"
    using bq.reachable_inv [OF assms(1)] by (simp add: bq_inv_def)
  ultimately show ?thesis
    using assms(2,3) by (simp add: bq_machine_def sync)
qed

theorem BlockingQueue_consumer_progress_witness:
  "\<exists>s pc s'. reachable bq_machine bq_init (s, pc) \<and> bq_queue (bqs_queue s) = [7, 8 :: nat] \<and>
     mstep bq_machine (Act 1 BQ_Run) (s, pc) = Some (s', pc(1 := BQ_Popped 7))"
proof -
  obtain s pc where "reachable bq_machine bq_init (s, pc)" "bq_queue (bqs_queue s) = [7, 8 :: nat]"
      "pc 1 = BQ_Popping"
    using run_check_reachable [where init = bq_init, OF bq_example bq_init_start, of 7 8] by blast
  with BlockingQueue_consumer_progress [of s pc 1 7 "[8]"] show ?thesis by blast
qed

section \<open>The task queue interface\<close>

text \<open>
  \<open>TaskQueueBase\<close>: what the workers call.  \<open>contents\<close> is the abstract queue, \<open>ready\<close> the state
  in which no operation is under way.
\<close>

locale TaskQueueBase =
  fixes Push :: "tid \<Rightarrow> 'a \<Rightarrow> 'q \<Rightarrow> 'q option"
    and Pop :: "tid \<Rightarrow> 'q \<Rightarrow> ('a attempt \<times> 'q) option"
    and PopTimeWait :: "tid \<Rightarrow> 'q \<Rightarrow> ('a option attempt \<times> 'q) option"
    and Size :: "tid \<Rightarrow> 'q \<Rightarrow> (nat \<times> 'q) option"
    and contents :: "'q \<Rightarrow> 'a list"
    and ready :: "'q \<Rightarrow> bool"
  assumes Push_law: "ready q \<Longrightarrow> \<exists>q'. Push t x q = Some q' \<and> ready q' \<and> contents q' = contents q @ [x]"
    and Pop_law: "ready q \<Longrightarrow> contents q = x # xs \<Longrightarrow>
      \<exists>q'. Pop t q = Some (Returned x, q') \<and> ready q' \<and> contents q' = xs"
    and PopTimeWait_law: "ready q \<Longrightarrow> contents q = x # xs \<Longrightarrow>
      \<exists>q'. PopTimeWait t q = Some (Returned (Some x), q') \<and> ready q' \<and> contents q' = xs"
    and PopTimeWait_empty_law: "ready q \<Longrightarrow> contents q = [] \<Longrightarrow>
      \<exists>q'. PopTimeWait t q = Some (Slept, q') \<and> ready q' \<and> contents q' = []"
    and Size_law: "ready q \<Longrightarrow> \<exists>q'. Size t q = Some (length (contents q), q') \<and> ready q' \<and>
      contents q' = contents q"

type_synonym 'a BlockingTaskQueue = "'a blocking_queue"

definition BlockingTaskQueue_Push :: "tid \<Rightarrow> 'a \<Rightarrow> 'a BlockingTaskQueue \<Rightarrow> 'a BlockingTaskQueue option" where
  "BlockingTaskQueue_Push t task q = BlockingQueue_Push t task q"

definition BlockingTaskQueue_Pop :: "tid \<Rightarrow> 'a BlockingTaskQueue \<Rightarrow> ('a attempt \<times> 'a BlockingTaskQueue) option" where
  "BlockingTaskQueue_Pop t q = BlockingQueue_Pop t q"

definition BlockingTaskQueue_PopTimeWait ::
    "tid \<Rightarrow> 'a BlockingTaskQueue \<Rightarrow> ('a option attempt \<times> 'a BlockingTaskQueue) option" where
  "BlockingTaskQueue_PopTimeWait t q = BlockingQueue_PopTimeWait t q"

definition BlockingTaskQueue_Size :: "tid \<Rightarrow> 'a BlockingTaskQueue \<Rightarrow> (nat \<times> 'a BlockingTaskQueue) option" where
  "BlockingTaskQueue_Size t q = BlockingQueue_Size t q"

lemmas BlockingTaskQueue_defs = BlockingTaskQueue_Push_def BlockingTaskQueue_Pop_def
  BlockingTaskQueue_PopTimeWait_def BlockingTaskQueue_Size_def

interpretation btq: TaskQueueBase BlockingTaskQueue_Push BlockingTaskQueue_Pop
    BlockingTaskQueue_PopTimeWait BlockingTaskQueue_Size bq_queue "\<lambda>q. cv_free (bq_mutexCond q)"
  by unfold_locales (simp_all add: BlockingTaskQueue_defs sync)

end
