(* ===== verification/TaskBase.thy ===== *)
theory TaskBase
  imports Sync
begin

text \<open>
  Tasks: \<open>src/TaskBase.cpp\<close>, \<open>include/empool/TaskBase.h\<close> and the trivial subclasses.  The
  record holds the members of \<open>TaskBase\<close>; subclasses extend it.  \<open>Run\<close> and \<open>Cancel\<close> are
  sequences of atomic actions: each load or store of the atomic flag and each scope of
  \<open>m_stateGuard\<close> is one.
\<close>

datatype task_state = Task_INIT | Task_RUNNING | Task_FINISHED | Task_CANCELLED

record task_base =
  tb_state :: task_state
  tb_isRequestCancel :: bool
  tb_cancelCondition :: condition_variable

definition TaskBase_ctor :: "mutex \<Rightarrow> task_base" where
  "TaskBase_ctor m = \<lparr>tb_state = Task_INIT, tb_isRequestCancel = False,
     tb_cancelCondition = ConditionVariable_ctor m\<rparr>"

text \<open>A scope of \<open>MutexLocker lock(m_stateGuard)\<close> around \<open>f\<close>.\<close>

definition with_stateGuard :: "tid \<Rightarrow> ('z task_base_scheme \<Rightarrow> 'r \<times> 'z task_base_scheme) \<Rightarrow>
    'z task_base_scheme \<Rightarrow> ('r \<times> 'z task_base_scheme) option" where
  "with_stateGuard t f tb =
     do { m \<leftarrow> MutexLocker t (cv_mutex (tb_cancelCondition tb));
          let (r, tb') = f tb;
          Some (r, tb'\<lparr>tb_cancelCondition := (tb_cancelCondition tb')\<lparr>cv_mutex := MutexLocker_dtor m\<rparr>\<rparr>) }"

definition TaskBase_SetState :: "tid \<Rightarrow> task_state \<Rightarrow> 'z task_base_scheme \<Rightarrow>
    (unit \<times> 'z task_base_scheme) option" where
  "TaskBase_SetState t st = with_stateGuard t (\<lambda>tb. ((), tb\<lparr>tb_state := st\<rparr>))"

definition TaskBase_GetState :: "tid \<Rightarrow> 'z task_base_scheme \<Rightarrow>
    (task_state \<times> 'z task_base_scheme) option" where
  "TaskBase_GetState t = with_stateGuard t (\<lambda>tb. (tb_state tb, tb))"

definition TaskBase_IsStopState :: "'z task_base_scheme \<Rightarrow> bool" where
  "TaskBase_IsStopState tb \<longleftrightarrow> tb_state tb = Task_FINISHED \<or> tb_state tb = Task_CANCELLED"

definition TaskBase_IsRunning :: "tid \<Rightarrow> 'z task_base_scheme \<Rightarrow> (bool \<times> 'z task_base_scheme) option" where
  "TaskBase_IsRunning t tb = do { (s, tb') \<leftarrow> TaskBase_GetState t tb; Some (s = Task_RUNNING, tb') }"

definition TaskBase_IsFinished :: "tid \<Rightarrow> 'z task_base_scheme \<Rightarrow> (bool \<times> 'z task_base_scheme) option" where
  "TaskBase_IsFinished t tb = do { (s, tb') \<leftarrow> TaskBase_GetState t tb; Some (s = Task_FINISHED, tb') }"

definition TaskBase_IsCancelled :: "tid \<Rightarrow> 'z task_base_scheme \<Rightarrow> (bool \<times> 'z task_base_scheme) option" where
  "TaskBase_IsCancelled t tb = do { (s, tb') \<leftarrow> TaskBase_GetState t tb; Some (s = Task_CANCELLED, tb') }"

definition TaskBase_IsStopped :: "tid \<Rightarrow> 'z task_base_scheme \<Rightarrow> (bool \<times> 'z task_base_scheme) option" where
  "TaskBase_IsStopped t = with_stateGuard t (\<lambda>tb. (TaskBase_IsStopState tb, tb))"

definition TaskBase_IsRequestCancel :: "'z task_base_scheme \<Rightarrow> bool" where
  "TaskBase_IsRequestCancel tb = tb_isRequestCancel tb"

datatype task_exception = TaskCancelException | OtherException

definition TaskBase_CheckCancellation :: "'z task_base_scheme \<Rightarrow> task_exception + unit" where
  "TaskBase_CheckCancellation tb = (if tb_isRequestCancel tb then Inl TaskCancelException else Inr ())"

lemma with_stateGuard_free [sync]:
  assumes "cv_free (tb_cancelCondition tb)"
    and "tb_cancelCondition (snd (f tb)) = tb_cancelCondition tb"
  shows "with_stateGuard t f tb = Some (f tb)"
proof -
  obtain r tb' where f: "f tb = (r, tb')" by (cases "f tb")
  with assms(2) have "tb_cancelCondition tb' = tb_cancelCondition tb" by simp
  then have "tb'\<lparr>tb_cancelCondition := tb_cancelCondition tb\<rparr> = tb'"
    by (metis (mono_tags, lifting) task_base.surjective task_base.update_convs(3)
        task_base.select_convs(3))
  with assms(1) f \<open>tb_cancelCondition tb' = tb_cancelCondition tb\<close> show ?thesis
    by (simp add: with_stateGuard_def cv_free_def MutexLocker_def MutexLocker_dtor_def
        Mutex_Lock_def Mutex_Unlock_def)
qed

lemma TaskBase_ops [sync]:
  assumes "cv_free (tb_cancelCondition tb)"
  shows "TaskBase_SetState t st tb = Some ((), tb\<lparr>tb_state := st\<rparr>)"
    and "TaskBase_GetState t tb = Some (tb_state tb, tb)"
    and "TaskBase_IsStopped t tb = Some (TaskBase_IsStopState tb, tb)"
    and "TaskBase_IsRunning t tb = Some (tb_state tb = Task_RUNNING, tb)"
    and "TaskBase_IsFinished t tb = Some (tb_state tb = Task_FINISHED, tb)"
    and "TaskBase_IsCancelled t tb = Some (tb_state tb = Task_CANCELLED, tb)"
  using assms
  by (simp_all add: TaskBase_SetState_def TaskBase_GetState_def TaskBase_IsStopped_def
      TaskBase_IsRunning_def TaskBase_IsFinished_def TaskBase_IsCancelled_def sync)

section \<open>Run and Cancel as sequences of atomic actions\<close>

text \<open>
  Program counters of \<open>Run\<close>: the first check, \<open>SetState(RUNNING)\<close>, inside \<open>DoRun\<close>, the two
  final \<open>SetState\<close> calls, the notifying scope, and the two ways to leave \<open>Run\<close> (\<open>T_RunThrew\<close>:
  an exception other than \<open>TaskCancelException\<close> went through).  \<open>DoRun\<close> is the subclass's:
  the environment decides whether it returns, calls \<open>CheckCancellation\<close>, or throws.
\<close>

datatype task_pc = T_Idle | T_RunCheck | T_SetRunning | T_Body | T_SetFinished | T_SetCancelled
  | T_Notify | T_RunDone | T_RunThrew | T_CancelWait | T_CancelReturned

datatype task_ev = E_Run | E_Cancel | E_Step | E_BodyReturn | E_BodyCheck | E_BodyThrow

fun TaskBase_Run :: "task_ev \<Rightarrow> tid \<Rightarrow> task_pc \<Rightarrow> task_base \<Rightarrow> (task_pc \<times> task_base) option" where
  "TaskBase_Run E_Step t T_RunCheck tb =
     (case TaskBase_CheckCancellation tb of
        Inl _ \<Rightarrow> Some (T_SetCancelled, tb) | Inr _ \<Rightarrow> Some (T_SetRunning, tb))"
| "TaskBase_Run E_Step t T_SetRunning tb =
     do { (_, tb') \<leftarrow> TaskBase_SetState t Task_RUNNING tb; Some (T_Body, tb') }"
| "TaskBase_Run E_BodyReturn t T_Body tb = Some (T_SetFinished, tb)"
| "TaskBase_Run E_BodyCheck t T_Body tb =
     (case TaskBase_CheckCancellation tb of
        Inl _ \<Rightarrow> Some (T_SetCancelled, tb) | Inr _ \<Rightarrow> Some (T_Body, tb))"
| "TaskBase_Run E_BodyThrow t T_Body tb = Some (T_RunThrew, tb)"
| "TaskBase_Run E_Step t T_SetFinished tb =
     do { (_, tb') \<leftarrow> TaskBase_SetState t Task_FINISHED tb; Some (T_Notify, tb') }"
| "TaskBase_Run E_Step t T_SetCancelled tb =
     do { (_, tb') \<leftarrow> TaskBase_SetState t Task_CANCELLED tb; Some (T_Notify, tb') }"
| "TaskBase_Run E_Step t T_Notify tb =
     do { l \<leftarrow> ConditionNotifyAllLocker t (TaskBase_IsRequestCancel tb) (tb_cancelCondition tb);
          Some (T_RunDone, tb\<lparr>tb_cancelCondition := ConditionNotifyAllLocker_dtor l\<rparr>) }"
| "TaskBase_Run _ _ _ _ = None"

fun TaskBase_Cancel :: "task_ev \<Rightarrow> tid \<Rightarrow> task_pc \<Rightarrow> task_base \<Rightarrow> (task_pc \<times> task_base) option" where
  "TaskBase_Cancel E_Cancel t T_Idle tb = Some (T_CancelWait, tb\<lparr>tb_isRequestCancel := True\<rparr>)"
| "TaskBase_Cancel E_Step t T_CancelWait tb =
     do { (slept, l) \<leftarrow> ConditionWaitLocker t (\<not> TaskBase_IsStopState tb) (tb_cancelCondition tb);
          Some (if slept then (T_CancelWait, tb\<lparr>tb_cancelCondition := l\<rparr>)
                else (T_CancelReturned, tb\<lparr>tb_cancelCondition := ConditionWaitLocker_dtor l\<rparr>)) }"
| "TaskBase_Cancel _ _ _ _ = None"

text \<open>
  The system: one task, any number of threads that call \<open>Run\<close> (one call at a time, as the pools
  do) and \<open>Cancel\<close>.  The parameter says whether \<open>Run\<close> may be called again after it returned:
  \<open>False\<close> for the tasks of the queue pools, \<open>True\<close> for periodic timer tasks.  The number of
  calls and of started bodies are ghost state.
\<close>

record task_sys =
  ts_task :: task_base
  ts_active :: bool
  ts_runs :: nat
  ts_bodies :: nat

fun task_act :: "bool \<Rightarrow> task_ev \<Rightarrow> tid \<Rightarrow> task_pc \<Rightarrow> task_sys \<Rightarrow> (task_pc \<times> task_sys) option" where
  "task_act rerun E_Run t T_Idle s =
     (if \<not> ts_active s \<and> (rerun \<or> ts_runs s = 0)
      then Some (T_RunCheck, s\<lparr>ts_active := True, ts_runs := Suc (ts_runs s)\<rparr>) else None)"
| "task_act rerun E_Step t T_RunDone s = Some (T_Idle, s)"
| "task_act rerun E_Step t T_CancelReturned s = Some (T_Idle, s)"
| "task_act rerun e t k s =
     (case TaskBase_Run e t k (ts_task s) of
        Some (k', tb) \<Rightarrow>
          Some (k', s\<lparr>ts_task := tb, ts_active := (k' \<noteq> T_RunDone \<and> k' \<noteq> T_RunThrew),
                      ts_bodies := ts_bodies s + (if k = T_SetRunning then 1 else 0)\<rparr>)
      | None \<Rightarrow>
         (case TaskBase_Cancel e t k (ts_task s) of
            Some (k', tb) \<Rightarrow> Some (k', s\<lparr>ts_task := tb\<rparr>)
          | None \<Rightarrow> None))"

definition task_machine :: "bool \<Rightarrow> (task_sys, task_pc, task_ev) machine" where
  "task_machine rerun = \<lparr>act = task_act rerun,
     waiting = (\<lambda>s. cv_waiting (tb_cancelCondition (ts_task s))),
     unwait = (\<lambda>t s. s\<lparr>ts_task := (ts_task s)
        \<lparr>tb_cancelCondition := cv_unwait t (tb_cancelCondition (ts_task s))\<rparr>\<rparr>),
     expire = (\<lambda>_. None)\<rparr>"

definition task_start :: "(task_sys, task_pc) config" where
  "task_start = (\<lparr>ts_task = TaskBase_ctor \<lparr>m_isInit = True, m_owner = None\<rparr>, ts_active = False,
     ts_runs = 0, ts_bodies = 0\<rparr>, \<lambda>_. T_Idle)"

definition in_run :: "task_pc \<Rightarrow> bool" where
  "in_run k \<longleftrightarrow> k \<in> {T_RunCheck, T_SetRunning, T_Body, T_SetFinished, T_SetCancelled, T_Notify}"

lemma in_run_simps [simp]:
  "\<not> in_run T_Idle" "in_run T_RunCheck" "in_run T_SetRunning" "in_run T_Body" "in_run T_SetFinished"
  "in_run T_SetCancelled" "in_run T_Notify" "\<not> in_run T_RunDone" "\<not> in_run T_RunThrew"
  "\<not> in_run T_CancelWait" "\<not> in_run T_CancelReturned"
  by (simp_all add: in_run_def)

text \<open>
  The invariant: the mutex is free between actions; at most one thread is inside \<open>Run\<close>, and
  its program counter determines the state of the task; whoever is in \<open>Cancel\<close> has asked.
\<close>

definition pc_state_ok :: "task_sys \<Rightarrow> task_pc \<Rightarrow> bool" where
  "pc_state_ok s k \<longleftrightarrow>
     (in_run k \<longrightarrow> ts_active s) \<and>
     (k = T_Body \<or> k = T_SetFinished \<longrightarrow> tb_state (ts_task s) = Task_RUNNING) \<and>
     (k = T_Notify \<longrightarrow> TaskBase_IsStopState (ts_task s)) \<and>
     (k = T_SetCancelled \<or> k = T_CancelWait \<or> k = T_CancelReturned \<longrightarrow>
        tb_isRequestCancel (ts_task s))"

definition task_inv :: "task_sys \<Rightarrow> (tid \<Rightarrow> task_pc) \<Rightarrow> bool" where
  "task_inv s pc \<longleftrightarrow> cv_free (tb_cancelCondition (ts_task s)) \<and>
     (\<forall>t. pc_state_ok s (pc t)) \<and>
     (\<forall>t u. in_run (pc t) \<and> in_run (pc u) \<longrightarrow> t = u)"

lemma task_inv_start: "task_inv (fst task_start) (snd task_start)"
  by (simp add: task_start_def task_inv_def pc_state_ok_def TaskBase_ctor_def sync)

text \<open>
  The effects of one action on a free mutex, as a relation: the ways in which a thread can move.
\<close>

inductive task_move :: "bool \<Rightarrow> tid \<Rightarrow> task_sys \<Rightarrow> task_pc \<Rightarrow> task_pc \<Rightarrow> task_sys \<Rightarrow> bool"
  for rerun :: bool and t :: tid and s :: task_sys where
  run: "\<not> ts_active s \<Longrightarrow> rerun \<or> ts_runs s = 0 \<Longrightarrow>
     task_move rerun t s T_Idle T_RunCheck (s\<lparr>ts_active := True, ts_runs := Suc (ts_runs s)\<rparr>)"
| run_idle: "task_move rerun t s T_RunDone T_Idle s"
| cancel_idle: "task_move rerun t s T_CancelReturned T_Idle s"
| refused: "tb_isRequestCancel (ts_task s) \<Longrightarrow>
     task_move rerun t s T_RunCheck T_SetCancelled (s\<lparr>ts_active := True\<rparr>)"
| cancelled: "tb_isRequestCancel (ts_task s) \<Longrightarrow>
     task_move rerun t s T_Body T_SetCancelled (s\<lparr>ts_active := True\<rparr>)"
| passed: "\<not> tb_isRequestCancel (ts_task s) \<Longrightarrow>
     task_move rerun t s T_RunCheck T_SetRunning (s\<lparr>ts_active := True\<rparr>)"
| running: "task_move rerun t s T_SetRunning T_Body (s\<lparr>ts_task := (ts_task s)\<lparr>tb_state := Task_RUNNING\<rparr>,
     ts_active := True, ts_bodies := Suc (ts_bodies s)\<rparr>)"
| body: "task_move rerun t s T_Body T_Body (s\<lparr>ts_active := True\<rparr>)"
| returned: "task_move rerun t s T_Body T_SetFinished (s\<lparr>ts_active := True\<rparr>)"
| threw: "task_move rerun t s T_Body T_RunThrew (s\<lparr>ts_active := False\<rparr>)"
| finished: "task_move rerun t s T_SetFinished T_Notify
     (s\<lparr>ts_task := (ts_task s)\<lparr>tb_state := Task_FINISHED\<rparr>, ts_active := True\<rparr>)"
| aborted: "task_move rerun t s T_SetCancelled T_Notify
     (s\<lparr>ts_task := (ts_task s)\<lparr>tb_state := Task_CANCELLED\<rparr>, ts_active := True\<rparr>)"
| notify_all: "tb_isRequestCancel (ts_task s) \<Longrightarrow> task_move rerun t s T_Notify T_RunDone
     (s\<lparr>ts_task := (ts_task s)\<lparr>tb_cancelCondition := CV_NotifyAll (tb_cancelCondition (ts_task s))\<rparr>,
        ts_active := False\<rparr>)"
| notify_none: "\<not> tb_isRequestCancel (ts_task s) \<Longrightarrow>
     task_move rerun t s T_Notify T_RunDone (s\<lparr>ts_active := False\<rparr>)"
| request: "task_move rerun t s T_Idle T_CancelWait
     (s\<lparr>ts_task := (ts_task s)\<lparr>tb_isRequestCancel := True\<rparr>\<rparr>)"
| sleep: "\<not> TaskBase_IsStopState (ts_task s) \<Longrightarrow> task_move rerun t s T_CancelWait T_CancelWait
     (s\<lparr>ts_task := (ts_task s)\<lparr>tb_cancelCondition := (tb_cancelCondition (ts_task s))
         \<lparr>m_cond := m_cond (tb_cancelCondition (ts_task s)) @ [t]\<rparr>\<rparr>\<rparr>)"
| return: "TaskBase_IsStopState (ts_task s) \<Longrightarrow> task_move rerun t s T_CancelWait T_CancelReturned s"

lemma task_act_move:
  assumes "task_act rerun e t k s = Some (k', s')" and "cv_free (tb_cancelCondition (ts_task s))"
  shows "task_move rerun t s k k' s'"
  using assms by (cases e; cases k)
    (auto simp: sync TaskBase_CheckCancellation_def TaskBase_IsRequestCancel_def
      intro: task_move.intros split: if_splits)

lemmas task_inv_simps = pc_state_ok_def sync TaskBase_IsStopState_def

lemma task_inv_free: "task_inv s pc \<Longrightarrow> cv_free (tb_cancelCondition (ts_task s))"
  by (simp add: task_inv_def)

lemma task_move_free: "task_move rerun t s kt k s' \<Longrightarrow> cv_free (tb_cancelCondition (ts_task s)) \<Longrightarrow>
    cv_free (tb_cancelCondition (ts_task s'))"
  by (erule task_move.cases) (auto simp: sync)

lemma task_move_own: "task_move rerun t s kt k s' \<Longrightarrow> pc_state_ok s kt \<Longrightarrow> pc_state_ok s' k"
  by (erule task_move.cases) (auto simp: task_inv_simps)

lemma task_move_in_run: "task_move rerun t s kt k s' \<Longrightarrow> in_run k \<Longrightarrow> in_run kt \<or> \<not> ts_active s"
  by (erule task_move.cases) auto

lemma task_move_other:
  assumes "task_move rerun t s kt k s'" and "pc_state_ok s kt"
    and "pc_state_ok s ku" and "\<not> (in_run kt \<and> in_run ku)"
  shows "pc_state_ok s' ku"
  using assms by (cases rule: task_move.cases) (cases ku; simp add: task_inv_simps)+

lemma task_act_inv:
  assumes "task_inv s pc" and "task_act rerun e t (pc t) s = Some (k, s')"
  shows "task_inv s' (pc(t := k))"
proof -
  have s: "pc_state_ok s (pc u)" "in_run (pc u) \<and> in_run (pc v) \<longrightarrow> u = v" for u v
    using assms(1) by (auto simp: task_inv_def)
  note move = task_act_move [OF assms(2) task_inv_free [OF assms(1)]]
  have "pc_state_ok s' ((pc(t := k)) u)" for u
    using task_move_own [OF move] task_move_other [OF move] s by (cases "u = t") auto
  moreover have "\<forall>u v. in_run ((pc(t := k)) u) \<and> in_run ((pc(t := k)) v) \<longrightarrow> u = v"
    using task_move_in_run [OF move] s unfolding pc_state_ok_def by (metis fun_upd_apply)
  ultimately show ?thesis
    using task_move_free [OF move task_inv_free [OF assms(1)]] unfolding task_inv_def by blast
qed

lemma task_unwait_inv:
  "task_inv s pc \<Longrightarrow> task_inv (s\<lparr>ts_task := (ts_task s)
     \<lparr>tb_cancelCondition := cv_unwait t (tb_cancelCondition (ts_task s))\<rparr>\<rparr>) pc"
  by (simp add: task_inv_def pc_state_ok_def sync TaskBase_IsStopState_def)

lemma task_act_disciplined:
  assumes "task_inv s pc" and "task_act rerun e t (pc t) s = Some (k, s')"
  shows "m_cond (tb_cancelCondition (ts_task s')) = []
    \<or> set (m_cond (tb_cancelCondition (ts_task s'))) \<subseteq> set (m_cond (tb_cancelCondition (ts_task s)))
        \<and> (tb_isRequestCancel (ts_task s) \<longrightarrow> tb_isRequestCancel (ts_task s'))
        \<and> (TaskBase_IsStopState (ts_task s') \<longrightarrow> TaskBase_IsStopState (ts_task s) \<or> k = T_Notify)
        \<and> (pc t = T_Notify \<longrightarrow> k = T_Notify \<or> \<not> tb_isRequestCancel (ts_task s))
    \<or> tb_isRequestCancel (ts_task s') \<and> \<not> TaskBase_IsStopState (ts_task s')"
proof -
  have "pc_state_ok s (pc t)" using assms(1) by (simp add: task_inv_def)
  then show ?thesis
    by (cases rule: task_move.cases [OF task_act_move [OF assms(2) task_inv_free [OF assms(1)]]])
       (auto simp: task_inv_simps)
qed

interpretation task: finish_handshake "task_machine rerun" "\<lambda>c. c = task_start" task_inv
    "\<lambda>s. tb_cancelCondition (ts_task s)" "\<lambda>s. tb_isRequestCancel (ts_task s)"
    "\<lambda>s. TaskBase_IsStopState (ts_task s)" "\<lambda>k. k = T_Notify" for rerun
proof unfold_locales
  fix s pc
  assume "(s, pc) = task_start"
  then show "task_inv s pc" "m_cond (tb_cancelCondition (ts_task s)) = []"
    using task_inv_start
    by (auto simp: task_start_def TaskBase_ctor_def ConditionVariable_ctor_def)
qed (auto simp: task_machine_def sync task_unwait_inv TaskBase_IsStopState_def
  dest: task_act_inv task_act_disciplined [unfolded TaskBase_IsStopState_def])

text \<open>
  Cancelling loses no wake-up: in every reachable state in which the task has stopped and no
  thread is on its way to notify, no thread sleeps in \<open>Cancel\<close>, and the next action of any
  thread that waits there makes \<open>Cancel\<close> return.
\<close>

theorem Cancel_no_lost_wakeup:
  assumes "reachable (task_machine rerun) (\<lambda>c. c = task_start) (s, pc)"
    and "TaskBase_IsStopState (ts_task s)" and "\<forall>u. pc u \<noteq> T_Notify" and "pc t = T_CancelWait"
  shows "mstep (task_machine rerun) (Act t E_Step) (s, pc) = Some (s, pc(t := T_CancelReturned))"
proof -
  have "m_cond (tb_cancelCondition (ts_task s)) = []"
    using task.no_waiter_left [OF assms(1,2)] assms(3) by blast
  moreover have "cv_free (tb_cancelCondition (ts_task s))"
    using task.reachable_inv [OF assms(1)] by (simp add: task_inv_def)
  ultimately show ?thesis
    using assms(2,4) by (simp add: task_machine_def sync)
qed

lemmas task_exec = task_machine_def task_start_def run_check_def TaskBase_ctor_def
  ConditionVariable_ctor_def TaskBase_CheckCancellation_def TaskBase_SetState_def
  with_stateGuard_def TaskBase_IsStopState_def TaskBase_IsRequestCancel_def locker_defs cv_defs
  MutexLocker_def MutexLocker_dtor_def

lemma task_cancel_example: "run_check (task_machine False)
    [Act 1 E_Run, Act 1 E_Step, Act 1 E_Step, Act 2 E_Cancel, Act 2 E_Step, Act 1 E_BodyReturn,
     Act 1 E_Step, Act 1 E_Step] task_start
    (\<lambda>s pc. TaskBase_IsStopState (ts_task s) \<and> pc 1 = T_RunDone \<and> pc 2 = T_CancelWait \<and>
       (\<forall>u. u \<noteq> 1 \<and> u \<noteq> 2 \<longrightarrow> pc u = T_Idle))"
  by (simp add: task_exec)

theorem Cancel_no_lost_wakeup_witness:
  "\<exists>s pc. reachable (task_machine False) (\<lambda>c. c = task_start) (s, pc) \<and> pc 2 = T_CancelWait \<and>
     mstep (task_machine False) (Act 2 E_Step) (s, pc) = Some (s, pc(2 := T_CancelReturned))"
proof -
  obtain s pc where c: "reachable (task_machine False) (\<lambda>c. c = task_start) (s, pc)"
      "TaskBase_IsStopState (ts_task s)" "pc 1 = T_RunDone" "pc 2 = T_CancelWait"
      "\<forall>u. u \<noteq> 1 \<and> u \<noteq> 2 \<longrightarrow> pc u = T_Idle"
    using run_check_reachable [where init = "\<lambda>c. c = task_start", OF task_cancel_example refl] by blast
  have "\<forall>u. pc u \<noteq> T_Notify"
  proof
    fix u
    show "pc u \<noteq> T_Notify" using c(3-5) by (cases "u = 1"; cases "u = 2") auto
  qed
  with c Cancel_no_lost_wakeup [of False s pc 2] show ?thesis by blast
qed

section \<open>What a cancellation guarantees\<close>

definition cancel_pending :: "nat \<Rightarrow> task_sys \<Rightarrow> (tid \<Rightarrow> task_pc) \<Rightarrow> bool" where
  "cancel_pending n s pc \<longleftrightarrow> tb_isRequestCancel (ts_task s) \<and> (\<forall>u. pc u \<noteq> T_SetRunning) \<and>
     ts_bodies s = n \<and> cv_free (tb_cancelCondition (ts_task s))"

lemma cancel_pending_act:
  assumes "cancel_pending n s pc" and "task_act rerun e t (pc t) s = Some (k, s')"
  shows "cancel_pending n s' (pc(t := k))"
proof -
  have "cv_free (tb_cancelCondition (ts_task s))" "pc t \<noteq> T_SetRunning"
    using assms(1) by (simp_all add: cancel_pending_def)
  with assms(1) show ?thesis
    by (cases rule: task_move.cases [OF task_act_move [OF assms(2)]])
       (auto simp: cancel_pending_def sync)
qed

lemma cancel_pending_future:
  "machine_invariant (task_machine rerun) (\<lambda>c. c = (s, pc) \<and> cancel_pending n s pc) (cancel_pending n)"
  by unfold_locales
     (auto simp: task_machine_def intro: cancel_pending_act, auto simp: cancel_pending_def sync)

text \<open>
  C12: a cancellation takes effect when it comes in time: from any reachable state in which the cancellation
  was requested and no \<open>Run\<close> has already passed its check and stands before \<open>SetState(RUNNING)\<close>, no body is
  started any more, whatever else is called, periodic tasks included.  A \<open>Run\<close> that has passed the check
  starts its body once more (lemma \<open>periodic_Cancel_returns_early\<close>).
\<close>

theorem Cancel_effective:
  assumes "reachable (task_machine rerun) (\<lambda>c. c = task_start) (s, pc)"
    and "tb_isRequestCancel (ts_task s)" and "\<forall>u. pc u \<noteq> T_SetRunning"
    and "reachable (task_machine rerun) (\<lambda>c. c = (s, pc)) (s', pc')"
  shows "ts_bodies s' = ts_bodies s"
proof -
  have "cancel_pending (ts_bodies s) s pc"
    using assms(2,3) task.reachable_inv [OF assms(1)] by (simp add: cancel_pending_def task_inv_def)
  then have "reachable (task_machine rerun) (\<lambda>c. c = (s, pc) \<and> cancel_pending (ts_bodies s) s pc) (s', pc')"
    using assms(4) by simp
  from machine_invariant.reachable_inv [OF cancel_pending_future this] show ?thesis
    by (simp add: cancel_pending_def)
qed

theorem Cancel_effective_witness:
  "\<exists>s pc s' pc'. reachable (task_machine True) (\<lambda>c. c = task_start) (s, pc) \<and>
     reachable (task_machine True) (\<lambda>c. c = (s, pc)) (s', pc') \<and> pc' 1 = T_RunDone \<and>
     ts_bodies s' = ts_bodies s"
proof -
  define s where "s = (fst task_start)\<lparr>ts_task := (ts_task (fst task_start))\<lparr>tb_isRequestCancel := True\<rparr>\<rparr>"
  define pc where "pc = (\<lambda>_ :: tid. T_Idle)(2 := T_CancelWait)"
  have r: "reachable (task_machine True) (\<lambda>c. c = task_start) (s, pc)"
    by (rule mrun_reachable [where ls = "[Act 2 E_Cancel]", OF reachable.reach_init [OF refl]])
       (simp add: s_def pc_def task_exec)
  have "run_check (task_machine True) [Act 1 E_Run, Act 1 E_Step, Act 1 E_Step, Act 1 E_Step] (s, pc)
      (\<lambda>s' pc'. pc' 1 = T_RunDone)"
    by (simp add: s_def pc_def task_exec)
  from run_check_reachable [where init = "\<lambda>c. c = (s, pc)", OF this refl] obtain s' pc' where
    "reachable (task_machine True) (\<lambda>c. c = (s, pc)) (s', pc')" "pc' 1 = T_RunDone" by blast
  moreover from this(1) have "ts_bodies s' = ts_bodies s"
    using Cancel_effective [OF r] by (simp add: s_def pc_def)
  ultimately show ?thesis using r by blast
qed

text \<open>Tasks that are run at most once, as the queue pools run them.\<close>

definition once_ok :: "task_sys \<Rightarrow> task_pc \<Rightarrow> bool" where
  "once_ok s k \<longleftrightarrow>
     (in_run k \<and> k \<noteq> T_Notify \<longrightarrow> \<not> TaskBase_IsStopState (ts_task s)) \<and>
     (k = T_CancelReturned \<longrightarrow> TaskBase_IsStopState (ts_task s)) \<and>
     (k = T_RunThrew \<longrightarrow> tb_state (ts_task s) = Task_RUNNING \<and> \<not> ts_active s \<and> 0 < ts_runs s)"

definition never_run :: "task_sys \<Rightarrow> bool" where
  "never_run s \<longleftrightarrow> (ts_runs s = 0 \<longrightarrow> tb_state (ts_task s) = Task_INIT \<and> \<not> ts_active s)"

lemmas once_simps = once_ok_def never_run_def task_inv_simps

lemma once_move_own: "task_move False t s kt k s' \<Longrightarrow> never_run s \<Longrightarrow> pc_state_ok s kt \<Longrightarrow>
    once_ok s kt \<Longrightarrow> once_ok s' k"
  by (erule task_move.cases) (auto simp: once_simps)

lemma once_move_never_run: "task_move False t s kt k s' \<Longrightarrow> never_run s \<Longrightarrow> pc_state_ok s kt \<Longrightarrow>
    never_run s'"
  by (erule task_move.cases) (auto simp: once_simps)

lemma once_move_other:
  assumes "task_move False t s kt k s'" and "never_run s" and "pc_state_ok s kt" and "once_ok s kt"
    and "once_ok s ku" and "pc_state_ok s ku" and "\<not> (in_run kt \<and> in_run ku)"
  shows "once_ok s' ku"
  using assms by (cases rule: task_move.cases) (cases ku; simp add: once_simps)+

definition once_inv :: "task_sys \<Rightarrow> (tid \<Rightarrow> task_pc) \<Rightarrow> bool" where
  "once_inv s pc \<longleftrightarrow> task_inv s pc \<and> (\<forall>t. once_ok s (pc t)) \<and> never_run s"

lemma once_act_inv:
  assumes "once_inv s pc" and "task_act False e t (pc t) s = Some (k, s')"
  shows "once_inv s' (pc(t := k))"
proof -
  from assms(1) have s: "task_inv s pc" "once_ok s (pc u)" "pc_state_ok s (pc u)"
      "in_run (pc t) \<and> in_run (pc u) \<longrightarrow> u = t" for u
    by (auto simp: once_inv_def task_inv_def)
  have never: "never_run s" using assms(1) by (simp add: once_inv_def)
  note move = task_act_move [OF assms(2) task_inv_free [OF s(1)]]
  have "once_ok s' ((pc(t := k)) u)" for u
    using once_move_own [OF move never s(3,2)] once_move_other [OF move never s(3,2)] s(2-4)
    by (cases "u = t") auto
  with once_move_never_run [OF move never s(3)] task_act_inv [OF s(1) assms(2)]
  show ?thesis by (simp add: once_inv_def)
qed

interpretation once: machine_invariant "task_machine False" "\<lambda>c. c = task_start" once_inv
proof unfold_locales
  fix s pc
  assume "(s, pc) = task_start"
  then show "once_inv s pc"
    using task_inv_start
    by (auto simp: once_inv_def once_ok_def never_run_def task_start_def TaskBase_ctor_def)
next
  fix s pc t
  assume "once_inv s pc"
  then show "once_inv (unwait (task_machine False) t s) pc"
    using task_unwait_inv
    by (auto simp: once_inv_def once_ok_def never_run_def task_machine_def TaskBase_IsStopState_def)
qed (auto simp: task_machine_def intro: once_act_inv)

text \<open>
  For a task that is run once, \<open>Cancel\<close> returns only when the task is over: the state is
  FINISHED or CANCELLED and no thread is before or inside the body, so none can start it later.
\<close>

theorem Cancel_returns_stopped:
  assumes "reachable (task_machine False) (\<lambda>c. c = task_start) (s, pc)" and "pc t = T_CancelReturned"
  shows "TaskBase_IsStopState (ts_task s) \<and>
    (\<forall>u. pc u \<notin> {T_RunCheck, T_SetRunning, T_Body, T_SetFinished, T_SetCancelled})"
proof -
  have ok: "once_ok s (pc u)" for u
    using once.reachable_inv [OF assms(1)] by (simp add: once_inv_def)
  from ok [of t] assms(2) have "TaskBase_IsStopState (ts_task s)" by (simp add: once_ok_def)
  moreover from this have "pc u \<notin> {T_RunCheck, T_SetRunning, T_Body, T_SetFinished, T_SetCancelled}" for u
    using ok [of u] by (auto simp: once_ok_def)
  ultimately show ?thesis by blast
qed

theorem Cancel_returns_stopped_witness:
  "\<exists>s pc. reachable (task_machine False) (\<lambda>c. c = task_start) (s, pc) \<and> pc 2 = T_CancelReturned \<and>
     TaskBase_IsStopState (ts_task s)"
proof -
  have "run_check (task_machine False)
      [Act 2 E_Cancel, Act 1 E_Run, Act 1 E_Step, Act 1 E_Step, Act 2 E_Step] task_start
      (\<lambda>s pc. pc 2 = T_CancelReturned)"
    by (simp add: task_exec)
  then obtain s pc where "reachable (task_machine False) (\<lambda>c. c = task_start) (s, pc)"
      "pc 2 = T_CancelReturned"
    using run_check_reachable [where init = "\<lambda>c. c = task_start"] by blast
  with Cancel_returns_stopped [of s pc 2] show ?thesis by blast
qed

text \<open>
  Two limits of the design.  An exception other than \<open>TaskCancelException\<close> leaves the state at
  RUNNING for good; and for a periodic task \<open>Cancel\<close> may return on the result of an earlier run.
\<close>

definition threw_inv :: "tid \<Rightarrow> task_sys \<Rightarrow> (tid \<Rightarrow> task_pc) \<Rightarrow> bool" where
  "threw_inv r s pc \<longleftrightarrow> once_inv s pc \<and> pc r = T_RunThrew"

lemma threw_future:
  "machine_invariant (task_machine False) (\<lambda>c. c = (s, pc) \<and> threw_inv r s pc) (threw_inv r)"
proof unfold_locales
  fix s pc t e k s'
  assume i: "threw_inv r s pc" and w: "\<not> waiting (task_machine False) s t"
    and a: "act (task_machine False) e t (pc t) s = Some (k, s')"
  then have "t \<noteq> r" by (cases e) (auto simp: threw_inv_def task_machine_def)
  with i w a once.act_inv show "threw_inv r s' (pc(t := k))" by (auto simp: threw_inv_def)
next
  fix s pc t k
  assume "threw_inv r s pc" "waiting (task_machine False) s t" "expire (task_machine False) (pc t) = Some k"
  then show "threw_inv r (unwait (task_machine False) t s) (pc(t := k))"
    by (simp add: task_machine_def)
qed (use once.wakeup_inv in \<open>auto simp: threw_inv_def\<close>)

text \<open>
  When the body of a task throws anything but \<open>TaskCancelException\<close>, the task stays RUNNING
  in every future and no call of \<open>Cancel\<close>, made before or after, ever returns.
\<close>

theorem throwing_body_blocks_Cancel:
  assumes "reachable (task_machine False) (\<lambda>c. c = task_start) (s, pc)" and "pc r = T_RunThrew"
    and "reachable (task_machine False) (\<lambda>c. c = (s, pc)) (s', pc')"
  shows "tb_state (ts_task s') = Task_RUNNING \<and> (\<forall>t. pc' t \<noteq> T_CancelReturned)"
proof -
  have "threw_inv r s pc"
    using once.reachable_inv [OF assms(1)] assms(2) by (simp add: threw_inv_def)
  with assms(3) have "reachable (task_machine False) (\<lambda>c. c = (s, pc) \<and> threw_inv r s pc) (s', pc')"
    by simp
  from machine_invariant.reachable_inv [OF threw_future this] have
    ok: "\<And>u. once_ok s' (pc' u)" and r: "pc' r = T_RunThrew"
    by (auto simp: threw_inv_def once_inv_def)
  from ok [of r] r have state: "tb_state (ts_task s') = Task_RUNNING" by (simp add: once_ok_def)
  have "pc' t \<noteq> T_CancelReturned" for t
    using ok [of t] state by (auto simp: once_ok_def TaskBase_IsStopState_def)
  with state show ?thesis by blast
qed

theorem throwing_body_blocks_Cancel_witness:
  "\<exists>s pc. reachable (task_machine False) (\<lambda>c. c = task_start) (s, pc) \<and> pc 1 = T_RunThrew \<and>
     tb_state (ts_task s) = Task_RUNNING"
proof -
  have "run_check (task_machine False)
      [Act 1 E_Run, Act 1 E_Step, Act 1 E_Step, Act 1 E_BodyThrow] task_start
      (\<lambda>s pc. pc 1 = T_RunThrew)"
    by (simp add: task_exec)
  then obtain s pc where "reachable (task_machine False) (\<lambda>c. c = task_start) (s, pc)" "pc 1 = T_RunThrew"
    using run_check_reachable [where init = "\<lambda>c. c = task_start"] by blast
  with throwing_body_blocks_Cancel [of s pc 1 s pc] show ?thesis
    by (blast intro: reachable.reach_init)
qed

text \<open>
  For a periodic task \<open>Cancel\<close> can return while the body is about to run: there is a
  schedule in which a call of \<open>Cancel\<close> has returned and the next run then starts its body.
\<close>

theorem periodic_Cancel_returns_early:
  "\<exists>s pc. reachable (task_machine True) (\<lambda>c. c = task_start) (s, pc) \<and>
     pc 2 = T_CancelReturned \<and> pc 1 = T_Body \<and> tb_state (ts_task s) = Task_RUNNING"
proof -
  have "run_check (task_machine True)
      [Act 1 E_Run, Act 1 E_Step, Act 1 E_Step, Act 1 E_BodyReturn, Act 1 E_Step, Act 1 E_Step,
       Act 1 E_Step, Act 1 E_Run, Act 1 E_Step, Act 2 E_Cancel, Act 2 E_Step, Act 1 E_Step] task_start
      (\<lambda>s pc. pc 2 = T_CancelReturned \<and> pc 1 = T_Body \<and> tb_state (ts_task s) = Task_RUNNING)"
    by (simp add: task_exec)
  from run_check_reachable [where init = "\<lambda>c. c = task_start", OF this refl] show ?thesis .
qed

end
