(* ===== verification/Thread.thy ===== *)
theory Thread
  imports Sync
begin

text \<open>
  Threads and thread identifiers: \<open>include/empool/Thread.h\<close>, \<open>src/Thread.cpp\<close>,
  \<open>include/empool/System.h\<close>, \<open>src/System.cpp\<close>.  The results of \<open>pthread_create\<close> and
  \<open>gettid\<close> are inputs.
\<close>

section \<open>Thread identifiers\<close>

text \<open>The thread-local variables of \<open>src/System.cpp\<close>.\<close>

record thread_locals =
  t_cachedTid :: int
  t_tidString :: string
  t_tidStringLength :: int

definition initial_locals :: thread_locals where
  "initial_locals = \<lparr>t_cachedTid = 0, t_tidString = [], t_tidStringLength = 6\<rparr>"

fun decimal :: "nat \<Rightarrow> string" where
  "decimal n = (if n < 10 then [char_of (48 + n)] else decimal (n div 10) @ [char_of (48 + n mod 10)])"

declare decimal.simps [simp del]

text \<open>\<open>snprintf(buf, 32, "%5d ", tid)\<close>: the value padded on the left to five columns, one blank.\<close>

definition format_tid :: "int \<Rightarrow> string" where
  "format_tid i =
     (let ds = (if i < 0 then CHR ''-'' # decimal (nat (- i)) else decimal (nat i))
      in replicate (5 - length ds) (CHR '' '') @ ds @ '' '')"

definition CacheTid :: "int \<Rightarrow> thread_locals \<Rightarrow> thread_locals" where
  "CacheTid gettid l =
     (if t_cachedTid l = 0
      then l\<lparr>t_cachedTid := gettid, t_tidString := take 31 (format_tid gettid),
             t_tidStringLength := int (length (format_tid gettid))\<rparr>
      else l)"

definition Tid :: "int \<Rightarrow> thread_locals \<Rightarrow> int \<times> thread_locals" where
  "Tid gettid l =
     (let l' = (if t_cachedTid l = 0 then CacheTid gettid l else l) in (t_cachedTid l', l'))"

definition TidString :: "thread_locals \<Rightarrow> string" where
  "TidString l = t_tidString l"

definition TidStringLength :: "thread_locals \<Rightarrow> int" where
  "TidStringLength l = t_tidStringLength l"

definition IsMainThread :: "int \<Rightarrow> int \<Rightarrow> thread_locals \<Rightarrow> bool" where
  "IsMainThread getpid gettid l = (fst (Tid gettid l) = getpid)"

lemma decimal_nonempty: "decimal n \<noteq> []"
  by (subst decimal.simps) simp

lemma format_tid_length: "6 \<le> length (format_tid i)"
  by (simp add: format_tid_def Let_def)

lemma decimal_length: "n < 10 ^ Suc k \<Longrightarrow> length (decimal n) \<le> Suc k"
proof (induction k arbitrary: n)
  case 0
  then show ?case by (subst decimal.simps) simp
next
  case (Suc k)
  then have "n div 10 < 10 ^ Suc k" by (simp add: less_mult_imp_div_less)
  with Suc.IH show ?case by (subst decimal.simps) simp
qed

text \<open>The identifier of a thread, a 32-bit number, is never cut off in its buffer of 32 bytes.\<close>

lemma TidString_not_truncated:
  assumes "- (2 ^ 31) \<le> i" and "i < 2 ^ 31" and "i \<noteq> 0"
  shows "TidString (CacheTid i initial_locals) = format_tid i \<and>
    TidStringLength (CacheTid i initial_locals) = int (length (TidString (CacheTid i initial_locals)))"
proof -
  have "nat (- i) < 10 ^ Suc 9" "nat i < 10 ^ Suc 9" using assms(1,2) by simp_all
  from this [THEN decimal_length] have "length (decimal (nat (- i))) \<le> 10" "length (decimal (nat i)) \<le> 10" by simp_all
  then have "length (format_tid i) \<le> 31" by (auto simp: format_tid_def Let_def)
  then show ?thesis by (simp add: TidString_def TidStringLength_def CacheTid_def initial_locals_def)
qed

section \<open>Creating, running and joining\<close>

record thread =
  th_threadId :: int
  th_isStart :: bool

definition EPERM :: int where "EPERM = 1"
definition EAGAIN :: int where "EAGAIN = 11"
definition EINVAL :: int where "EINVAL = 22"

text \<open>The message of the \<open>runtime_error\<close> that a failed creation throws.\<close>

definition ProcessCreateError :: "int \<Rightarrow> string" where
  "ProcessCreateError error =
     (let msg = ''Create Thread failed: '' in
      if error = EAGAIN then msg @ ''resource limit''
      else if error = EINVAL then msg @ ''invalid attribute''
      else if error = EPERM then msg @ ''no permission to set scheduling''
      else msg @ ''unknown error'')"

definition Thread_ctor :: "int \<Rightarrow> string + thread" where
  "Thread_ctor rc =
     (if rc \<noteq> 0 then Inl (ProcessCreateError rc) else Inr \<lparr>th_threadId = 0, th_isStart = True\<rparr>)"

datatype stream = Cerr | Cout

datatype func_result = FuncReturned | FuncThrewStd string | FuncThrewUnknown

definition ProcessException :: "string \<Rightarrow> (stream \<times> string) list" where
  "ProcessException e_what = [(Cerr, e_what), (Cout, e_what)]"

definition ProcessUnknownException :: "(stream \<times> string) list" where
  "ProcessUnknownException = [(Cerr, ''Caught Unexpected Excetion.'')]"

text \<open>
  \<open>Thread::ThreadFunction\<close>: publish the identifier, call the functor, swallow every exception.
  The result is the thread with its identifier and what was printed.
\<close>

definition Thread_ThreadFunction :: "int \<Rightarrow> func_result \<Rightarrow> thread \<Rightarrow> thread \<times> (stream \<times> string) list" where
  "Thread_ThreadFunction my_tid func th =
     (th\<lparr>th_threadId := my_tid\<rparr>,
      case func of FuncReturned \<Rightarrow> []
      | FuncThrewStd e_what \<Rightarrow> ProcessException e_what
      | FuncThrewUnknown \<Rightarrow> ProcessUnknownException)"

text \<open>
  \<open>GetThreadId\<close> polls the atomic until the new thread has published its identifier; \<open>loads n\<close> is
  what the \<open>n\<close>-th poll reads.  \<open>None\<close> is the loop that never ends.
\<close>

partial_function (option) GetThreadId :: "(nat \<Rightarrow> int) \<Rightarrow> nat \<Rightarrow> int option" where
  "GetThreadId loads n = (if loads n = 0 then GetThreadId loads (Suc n) else Some (loads n))"

text \<open>The destructor joins: it blocks (\<open>None\<close>) until the thread function has returned.\<close>

definition Thread_dtor :: "bool \<Rightarrow> thread \<Rightarrow> thread option" where
  "Thread_dtor finished th =
     (if th_isStart th then (if finished then Some (th\<lparr>th_isStart := False\<rparr>) else None) else Some th)"

lemma GetThreadId_published:
  "\<forall>i < m. loads (n + i) = 0 \<Longrightarrow> loads (n + m) \<noteq> 0 \<Longrightarrow> GetThreadId loads n = Some (loads (n + m))"
proof (induction m arbitrary: n)
  case 0
  then show ?case by (simp add: GetThreadId.simps [of loads n])
next
  case (Suc m)
  have "GetThreadId loads (Suc n) = Some (loads (Suc n + m))"
    using Suc.prems by (intro Suc.IH) (auto dest: spec [of _ "Suc _"])
  moreover have "loads n = 0" using Suc.prems(1) by force
  ultimately show ?case by (simp add: GetThreadId.simps [of loads n])
qed

text \<open>
  \<open>GetThreadId\<close> returns as soon as the identifier is published, and what it returns is that
  identifier and never zero, however many polls came too early.
\<close>

theorem GetThreadId_returns:
  assumes "loads m \<noteq> 0"
  shows "\<exists>k \<le> m. GetThreadId loads 0 = Some (loads k) \<and> loads k \<noteq> 0 \<and> (\<forall>i < k. loads i = 0)"
proof -
  define k where "k = (LEAST k. loads k \<noteq> 0)"
  have "loads k \<noteq> 0"
    unfolding k_def by (rule LeastI [where P = "\<lambda>k. loads k \<noteq> 0", OF assms])
  moreover have "k \<le> m"
    unfolding k_def by (rule Least_le [where P = "\<lambda>k. loads k \<noteq> 0", OF assms])
  moreover have "\<forall>i < k. loads i = 0"
    unfolding k_def by (auto dest: not_less_Least)
  ultimately show ?thesis using GetThreadId_published [of k loads 0] by auto
qed

theorem GetThreadId_returns_witness:
  "GetThreadId (\<lambda>n. if n < 2 then 0 else 4711) 0 = Some 4711"
  using GetThreadId_returns [of "\<lambda>n. if n < 2 then 0 else 4711" 2] by (auto split: if_splits)

end
