(* ===== verification/CloseableThread.thy ===== *)
theory CloseableThread
  imports Thread
begin

text \<open>
  \<open>src/CloseableThread.cpp\<close>: a thread that runs a work function, can be asked to close, and
  runs a finish action.  \<open>m_state\<close> is read under the mutex and written without it, so each
  write is an atomic action of its own.
\<close>

datatype thread_state = Thread_INIT | Thread_RUNNING | Thread_FINISHED

record closeable_thread =
  ct_state :: thread_state
  ct_stateGuard :: condition_variable
  ct_isRequestClose :: bool

definition CloseableThread_ctor :: "mutex \<Rightarrow> closeable_thread" where
  "CloseableThread_ctor m = \<lparr>ct_state = Thread_INIT, ct_stateGuard = ConditionVariable_ctor m,
     ct_isRequestClose = False\<rparr>"

text \<open>\<open>ProcessError\<close>: the lines that are printed.\<close>

definition CloseableThread_ProcessError :: "string \<Rightarrow> string list" where
  "CloseableThread_ProcessError e_what = [''CloseableThread actor'', e_what, ''Try again.'']"

text \<open>
  \<open>Init\<close>: create the thread, again and again until it succeeds; the argument is what the
  successive calls of \<open>pthread_create\<close> return.  The result holds the lines printed on the way;
  \<open>None\<close> means that the loop is still trying.
\<close>

fun CloseableThread_Init :: "int list \<Rightarrow> (thread \<times> string list) option" where
  "CloseableThread_Init [] = None"
| "CloseableThread_Init (rc # rcs) =
     (case Thread_ctor rc of
        Inr th \<Rightarrow> Some (th, [])
      | Inl e_what \<Rightarrow> map_option (\<lambda>(th, errs). (th, CloseableThread_ProcessError e_what @ errs)) (CloseableThread_Init rcs))"

definition CloseableThread_SetState :: "thread_state \<Rightarrow> closeable_thread \<Rightarrow> closeable_thread" where
  "CloseableThread_SetState st ct = ct\<lparr>ct_state := st\<rparr>"

definition CloseableThread_IsFinished :: "closeable_thread \<Rightarrow> bool" where
  "CloseableThread_IsFinished ct \<longleftrightarrow> ct_state ct = Thread_FINISHED"

definition CloseableThread_IsRequestClose :: "closeable_thread \<Rightarrow> bool" where
  "CloseableThread_IsRequestClose ct = ct_isRequestClose ct"

datatype close_exception = CloseableThreadExitException

definition CheckIsRequestClose :: "closeable_thread \<Rightarrow> close_exception + unit" where
  "CheckIsRequestClose ct = (if ct_isRequestClose ct then Inl CloseableThreadExitException else Inr ())"

definition CloseableThread_AsyncClose :: "bool \<Rightarrow> closeable_thread \<Rightarrow> closeable_thread" where
  "CloseableThread_AsyncClose spurious ct =
     ct\<lparr>ct_isRequestClose := snd (compare_exchange_weak spurious False True (ct_isRequestClose ct))\<rparr>"

definition CloseableThread_NotifyFinished_notify :: "tid \<Rightarrow> closeable_thread \<Rightarrow> closeable_thread option" where
  "CloseableThread_NotifyFinished_notify t ct =
     do { l \<leftarrow> ConditionNotifyAllLocker t (CloseableThread_IsRequestClose ct) (ct_stateGuard ct);
          Some (ct\<lparr>ct_stateGuard := ConditionNotifyAllLocker_dtor l\<rparr>) }"

text \<open>
  Creating the thread is retried until it succeeds: \<open>Init\<close> returns exactly when some
  attempt succeeds, and it has then reported every failed attempt before.
\<close>

lemma Init_retries:
  "CloseableThread_Init rcs =
     (if \<exists>rc \<in> set rcs. rc = 0
      then Some (\<lparr>th_threadId = 0, th_isStart = True\<rparr>,
                 concat (map (CloseableThread_ProcessError \<circ> ProcessCreateError) (takeWhile (\<lambda>rc. rc \<noteq> 0) rcs)))
      else None)"
  by (induction rcs) (auto simp: Thread_ctor_def o_def)

section \<open>The thread function and its closers\<close>

text \<open>
  The thread starts at \<open>C_Start\<close>; the environment decides in \<open>C_Work\<close> whether the work function
  polls its check, returns, or throws an exception of its own (\<open>C_Threw\<close>: it leaves
  \<open>ThreadFunction\<close> through \<open>Thread::ThreadFunction\<close>).  Any other thread may call \<open>AsyncClose\<close>
  and \<open>Close\<close>; \<open>C_Skipped\<close> is a \<open>Close\<close> that returned because its exchange failed, \<open>C_Closed\<close>
  one that returned after waiting.  \<open>cs_finishes\<close> counts the calls of the finish action.
\<close>

datatype close_pc = C_Idle | C_CloseWait | C_Closed | C_Skipped
  | C_Start | C_Check | C_Work | C_Finish | C_SetFinished | C_Notify | C_Done | C_Threw

datatype close_ev = E_AsyncClose bool | E_Close bool | E_Next | E_WorkCheck | E_WorkReturn | E_WorkThrow

record close_sys =
  cs_thread :: closeable_thread
  cs_finishes :: nat

fun CloseableThread_ThreadFunction ::
    "close_ev \<Rightarrow> tid \<Rightarrow> close_pc \<Rightarrow> close_sys \<Rightarrow> (close_pc \<times> close_sys) option" where
  "CloseableThread_ThreadFunction E_Next t C_Start s =
     Some (C_Check, s\<lparr>cs_thread := CloseableThread_SetState Thread_RUNNING (cs_thread s)\<rparr>)"
| "CloseableThread_ThreadFunction E_Next t C_Check s =
     (case CheckIsRequestClose (cs_thread s) of Inl _ \<Rightarrow> Some (C_Finish, s) | Inr _ \<Rightarrow> Some (C_Work, s))"
| "CloseableThread_ThreadFunction E_WorkCheck t C_Work s =
     (case CheckIsRequestClose (cs_thread s) of Inl _ \<Rightarrow> Some (C_Finish, s) | Inr _ \<Rightarrow> Some (C_Work, s))"
| "CloseableThread_ThreadFunction E_WorkReturn t C_Work s = Some (C_Finish, s)"
| "CloseableThread_ThreadFunction E_WorkThrow t C_Work s = Some (C_Threw, s)"
| "CloseableThread_ThreadFunction E_Next t C_Finish s =
     Some (C_SetFinished, s\<lparr>cs_finishes := Suc (cs_finishes s)\<rparr>)"
| "CloseableThread_ThreadFunction E_Next t C_SetFinished s =
     Some (C_Notify, s\<lparr>cs_thread := CloseableThread_SetState Thread_FINISHED (cs_thread s)\<rparr>)"
| "CloseableThread_ThreadFunction E_Next t C_Notify s =
     do { ct \<leftarrow> CloseableThread_NotifyFinished_notify t (cs_thread s); Some (C_Done, s\<lparr>cs_thread := ct\<rparr>) }"
| "CloseableThread_ThreadFunction _ _ _ _ = None"

fun CloseableThread_Close ::
    "close_ev \<Rightarrow> tid \<Rightarrow> close_pc \<Rightarrow> closeable_thread \<Rightarrow> (close_pc \<times> closeable_thread) option" where
  "CloseableThread_Close (E_Close spurious) t C_Idle ct =
     (case compare_exchange_weak spurious False True (ct_isRequestClose ct) of
        (won, v) \<Rightarrow> Some (if won then C_CloseWait else C_Skipped, ct\<lparr>ct_isRequestClose := v\<rparr>))"
| "CloseableThread_Close E_Next t C_CloseWait ct =
     do { (slept, l) \<leftarrow> ConditionWaitLocker t (\<not> CloseableThread_IsFinished ct) (ct_stateGuard ct);
          Some (if slept then (C_CloseWait, ct\<lparr>ct_stateGuard := l\<rparr>)
                else (C_Closed, ct\<lparr>ct_stateGuard := ConditionWaitLocker_dtor l\<rparr>)) }"
| "CloseableThread_Close _ _ _ _ = None"

fun close_act :: "close_ev \<Rightarrow> tid \<Rightarrow> close_pc \<Rightarrow> close_sys \<Rightarrow> (close_pc \<times> close_sys) option" where
  "close_act (E_AsyncClose spurious) t C_Idle s =
     Some (C_Idle, s\<lparr>cs_thread := CloseableThread_AsyncClose spurious (cs_thread s)\<rparr>)"
| "close_act e t k s =
     (case CloseableThread_ThreadFunction e t k s of
        Some r \<Rightarrow> Some r
      | None \<Rightarrow>
         (case CloseableThread_Close e t k (cs_thread s) of
            Some (k', ct) \<Rightarrow> Some (k', s\<lparr>cs_thread := ct\<rparr>)
          | None \<Rightarrow> None))"

definition close_machine :: "(close_sys, close_pc, close_ev) machine" where
  "close_machine = \<lparr>act = close_act,
     waiting = (\<lambda>s. cv_waiting (ct_stateGuard (cs_thread s))),
     unwait = (\<lambda>t s. s\<lparr>cs_thread := (cs_thread s)\<lparr>ct_stateGuard := cv_unwait t (ct_stateGuard (cs_thread s))\<rparr>\<rparr>),
     expire = (\<lambda>_. None)\<rparr>"

text \<open>Thread 0 is the closeable thread.\<close>

definition close_start :: "(close_sys, close_pc) config" where
  "close_start = (\<lparr>cs_thread = CloseableThread_ctor \<lparr>m_isInit = True, m_owner = None\<rparr>,
     cs_finishes = 0\<rparr>, \<lambda>t. if t = 0 then C_Start else C_Idle)"

text \<open>The effects of one action, as a relation.\<close>

inductive close_move :: "tid \<Rightarrow> close_sys \<Rightarrow> close_pc \<Rightarrow> close_pc \<Rightarrow> close_sys \<Rightarrow> bool"
  for t :: tid and s :: close_sys where
  start: "close_move t s C_Start C_Check (s\<lparr>cs_thread := (cs_thread s)\<lparr>ct_state := Thread_RUNNING\<rparr>\<rparr>)"
| refused: "ct_isRequestClose (cs_thread s) \<Longrightarrow> close_move t s C_Check C_Finish s"
| enter: "\<not> ct_isRequestClose (cs_thread s) \<Longrightarrow> close_move t s C_Check C_Work s"
| exited: "close_move t s C_Work C_Finish s"
| poll: "\<not> ct_isRequestClose (cs_thread s) \<Longrightarrow> close_move t s C_Work C_Work s"
| threw: "close_move t s C_Work C_Threw s"
| finish: "close_move t s C_Finish C_SetFinished (s\<lparr>cs_finishes := Suc (cs_finishes s)\<rparr>)"
| publish: "close_move t s C_SetFinished C_Notify
     (s\<lparr>cs_thread := (cs_thread s)\<lparr>ct_state := Thread_FINISHED\<rparr>\<rparr>)"
| notify_all: "ct_isRequestClose (cs_thread s) \<Longrightarrow> close_move t s C_Notify C_Done
     (s\<lparr>cs_thread := (cs_thread s)\<lparr>ct_stateGuard := CV_NotifyAll (ct_stateGuard (cs_thread s))\<rparr>\<rparr>)"
| notify_none: "\<not> ct_isRequestClose (cs_thread s) \<Longrightarrow> close_move t s C_Notify C_Done s"
| async_set: "close_move t s C_Idle C_Idle (s\<lparr>cs_thread := (cs_thread s)\<lparr>ct_isRequestClose := True\<rparr>\<rparr>)"
| async_same: "close_move t s C_Idle C_Idle s"
| won: "\<not> ct_isRequestClose (cs_thread s) \<Longrightarrow> close_move t s C_Idle C_CloseWait
     (s\<lparr>cs_thread := (cs_thread s)\<lparr>ct_isRequestClose := True\<rparr>\<rparr>)"
| skipped: "close_move t s C_Idle C_Skipped s"
| sleep: "ct_state (cs_thread s) \<noteq> Thread_FINISHED \<Longrightarrow> close_move t s C_CloseWait C_CloseWait
     (s\<lparr>cs_thread := (cs_thread s)\<lparr>ct_stateGuard := (ct_stateGuard (cs_thread s))
        \<lparr>m_cond := m_cond (ct_stateGuard (cs_thread s)) @ [t]\<rparr>\<rparr>\<rparr>)"
| closed: "ct_state (cs_thread s) = Thread_FINISHED \<Longrightarrow> close_move t s C_CloseWait C_Closed s"

lemmas close_op_defs = CheckIsRequestClose_def CloseableThread_SetState_def CloseableThread_IsFinished_def
  CloseableThread_IsRequestClose_def CloseableThread_AsyncClose_def
  CloseableThread_NotifyFinished_notify_def compare_exchange_weak_def

lemma close_act_move:
  assumes "close_act e t k s = Some (k', s')" and "cv_free (ct_stateGuard (cs_thread s))"
  shows "close_move t s k k' s'"
  using assms by (cases e; cases k)
    (auto simp: sync close_op_defs intro: close_move.intros split: if_splits)

text \<open>The invariant: the program counter of thread 0 fixes the state and the number of finishes.\<close>

fun thread_phase :: "close_pc \<Rightarrow> (thread_state \<times> nat) option" where
  "thread_phase C_Start = Some (Thread_INIT, 0)"
| "thread_phase C_Check = Some (Thread_RUNNING, 0)"
| "thread_phase C_Work = Some (Thread_RUNNING, 0)"
| "thread_phase C_Finish = Some (Thread_RUNNING, 0)"
| "thread_phase C_Threw = Some (Thread_RUNNING, 0)"
| "thread_phase C_SetFinished = Some (Thread_RUNNING, 1)"
| "thread_phase C_Notify = Some (Thread_FINISHED, 1)"
| "thread_phase C_Done = Some (Thread_FINISHED, 1)"
| "thread_phase _ = None"

definition close_phase :: "close_sys \<Rightarrow> thread_state \<times> nat" where
  "close_phase s = (ct_state (cs_thread s), cs_finishes s)"

definition close_ok :: "close_sys \<Rightarrow> close_pc \<Rightarrow> bool" where
  "close_ok s k \<longleftrightarrow>
     (k = C_CloseWait \<or> k = C_Closed \<longrightarrow> ct_isRequestClose (cs_thread s)) \<and>
     (k = C_Closed \<longrightarrow> ct_state (cs_thread s) = Thread_FINISHED)"

definition close_inv :: "close_sys \<Rightarrow> (tid \<Rightarrow> close_pc) \<Rightarrow> bool" where
  "close_inv s pc \<longleftrightarrow> cv_free (ct_stateGuard (cs_thread s)) \<and>
     thread_phase (pc 0) = Some (close_phase s) \<and>
     (\<forall>t. t \<noteq> 0 \<longrightarrow> thread_phase (pc t) = None) \<and> (\<forall>t. close_ok s (pc t))"

lemma close_inv_free: "close_inv s pc \<Longrightarrow> cv_free (ct_stateGuard (cs_thread s))"
  by (simp add: close_inv_def)

lemmas close_simps = close_ok_def close_phase_def sync

lemma close_move_free: "close_move t s k k' s' \<Longrightarrow> cv_free (ct_stateGuard (cs_thread s)) \<Longrightarrow>
    cv_free (ct_stateGuard (cs_thread s'))"
  by (erule close_move.cases) (auto simp: sync)

lemma close_move_worker: "close_move t s k k' s' \<Longrightarrow> thread_phase k = Some (close_phase s) \<Longrightarrow>
    thread_phase k' = Some (close_phase s')"
  by (erule close_move.cases) (auto simp: close_simps)

lemma close_move_closer: "close_move t s k k' s' \<Longrightarrow> thread_phase k = None \<Longrightarrow>
    thread_phase k' = None \<and> close_phase s' = close_phase s"
  by (erule close_move.cases) (auto simp: close_simps)

lemma close_move_own: "close_move t s k k' s' \<Longrightarrow> close_ok s k \<Longrightarrow> close_ok s' k'"
  by (erule close_move.cases) (auto simp: close_simps)

lemma close_move_other: "close_move t s k k' s' \<Longrightarrow> k \<noteq> C_Start \<or> ct_state (cs_thread s) = Thread_INIT \<Longrightarrow>
    close_ok s ku \<Longrightarrow> close_ok s' ku"
  by (erule close_move.cases) (auto simp: close_simps)

lemma close_act_inv:
  assumes "close_inv s pc" and "close_act e t (pc t) s = Some (k, s')"
  shows "close_inv s' (pc(t := k))"
proof -
  note move = close_act_move [OF assms(2) close_inv_free [OF assms(1)]]
  have s: "close_ok s (pc u)" "thread_phase (pc 0) = Some (close_phase s)"
      "u \<noteq> 0 \<longrightarrow> thread_phase (pc u) = None" for u
    using assms(1) by (auto simp: close_inv_def)
  have "pc t \<noteq> C_Start \<or> ct_state (cs_thread s) = Thread_INIT"
    using s(2) s(3) [of t] by (cases "t = 0") (auto simp: close_phase_def)
  then have "close_ok s' ((pc(t := k)) u)" for u
    using close_move_own [OF move s(1)] close_move_other [OF move] s(1) by (cases "u = t") auto
  moreover have "thread_phase ((pc(t := k)) 0) = Some (close_phase s') \<and>
      (\<forall>u. u \<noteq> 0 \<longrightarrow> thread_phase ((pc(t := k)) u) = None)"
    using close_move_worker [OF move] close_move_closer [OF move] s(2,3) by (cases "t = 0") auto
  ultimately show ?thesis
    using close_move_free [OF move close_inv_free [OF assms(1)]] unfolding close_inv_def by blast
qed

lemma close_unwait_inv:
  "close_inv s pc \<Longrightarrow> close_inv (s\<lparr>cs_thread := (cs_thread s)
     \<lparr>ct_stateGuard := cv_unwait t (ct_stateGuard (cs_thread s))\<rparr>\<rparr>) pc"
  by (simp add: close_inv_def close_simps)

lemma close_inv_start: "close_inv (fst close_start) (snd close_start)"
  by (simp add: close_inv_def close_simps close_start_def CloseableThread_ctor_def)

lemma close_act_disciplined:
  assumes "close_inv s pc" and "close_act e t (pc t) s = Some (k, s')"
  shows "m_cond (ct_stateGuard (cs_thread s')) = []
    \<or> set (m_cond (ct_stateGuard (cs_thread s'))) \<subseteq> set (m_cond (ct_stateGuard (cs_thread s)))
        \<and> (ct_isRequestClose (cs_thread s) \<longrightarrow> ct_isRequestClose (cs_thread s'))
        \<and> (ct_state (cs_thread s') = Thread_FINISHED \<longrightarrow>
             ct_state (cs_thread s) = Thread_FINISHED \<or> k = C_Notify)
        \<and> (pc t = C_Notify \<longrightarrow> k = C_Notify \<or> \<not> ct_isRequestClose (cs_thread s))
    \<or> ct_isRequestClose (cs_thread s') \<and> ct_state (cs_thread s') \<noteq> Thread_FINISHED"
proof -
  have "close_ok s (pc t)" using assms(1) by (simp add: close_inv_def)
  then show ?thesis
    by (cases rule: close_move.cases [OF close_act_move [OF assms(2) close_inv_free [OF assms(1)]]])
       (auto simp: close_simps)
qed

interpretation close: finish_handshake close_machine "\<lambda>c. c = close_start" close_inv
    "\<lambda>s. ct_stateGuard (cs_thread s)" "\<lambda>s. ct_isRequestClose (cs_thread s)"
    "\<lambda>s. ct_state (cs_thread s) = Thread_FINISHED" "\<lambda>k. k = C_Notify"
proof unfold_locales
  fix s pc
  assume "(s, pc) = close_start"
  then show "close_inv s pc" "m_cond (ct_stateGuard (cs_thread s)) = []"
    using close_inv_start
    by (auto simp: close_start_def CloseableThread_ctor_def ConditionVariable_ctor_def)
qed (auto simp: close_machine_def sync close_unwait_inv dest: close_act_inv close_act_disciplined)

text \<open>
  \<open>Close\<close> loses no wake-up although the state is written outside the mutex: once the thread
  has finished and is not about to notify, every thread that waits in \<open>Close\<close> returns with its
  next action.
\<close>

theorem Close_no_lost_wakeup:
  assumes "reachable close_machine (\<lambda>c. c = close_start) (s, pc)"
    and "pc 0 = C_Done" and "pc t = C_CloseWait"
  shows "mstep close_machine (Act t E_Next) (s, pc) = Some (s, pc(t := C_Closed))"
proof -
  have inv: "close_inv s pc" using close.reachable_inv [OF assms(1)] .
  then have fin: "ct_state (cs_thread s) = Thread_FINISHED"
    using assms(2) by (simp add: close_inv_def close_phase_def)
  have closer: "u \<noteq> 0 \<longrightarrow> thread_phase (pc u) = None" for u
    using inv by (simp add: close_inv_def)
  have "pc u \<noteq> C_Notify" for u
    using closer [of u] assms(2) by (cases "u = 0") auto
  then have "m_cond (ct_stateGuard (cs_thread s)) = []"
    using close.no_waiter_left [OF assms(1) fin] by blast
  with inv fin assms(3) show ?thesis
    by (simp add: close_machine_def sync close_op_defs close_inv_def)
qed

text \<open>
  C34: a \<open>Close\<close> that waited returns only after the work is over: the finish action has run
  exactly once and the state is FINISHED.
\<close>

theorem Close_returns_finished:
  assumes "reachable close_machine (\<lambda>c. c = close_start) (s, pc)" and "pc t = C_Closed"
  shows "ct_state (cs_thread s) = Thread_FINISHED \<and> cs_finishes s = 1
     \<and> (pc 0 = C_Notify \<or> pc 0 = C_Done)"
proof -
  have "close_ok s (pc t)" "thread_phase (pc 0) = Some (close_phase s)"
    using close.reachable_inv [OF assms(1)] by (auto simp: close_inv_def)
  with assms(2) show ?thesis by (cases "pc 0") (auto simp: close_simps)
qed

lemmas close_exec = close_machine_def close_start_def run_check_def CloseableThread_ctor_def
  ConditionVariable_ctor_def close_op_defs locker_defs cv_defs

theorem Close_no_lost_wakeup_witness:
  "\<exists>s pc. reachable close_machine (\<lambda>c. c = close_start) (s, pc) \<and> pc 2 = C_CloseWait \<and>
     mstep close_machine (Act 2 E_Next) (s, pc) = Some (s, pc(2 := C_Closed))"
proof -
  have "run_check close_machine
      [Act 0 E_Next, Act 0 E_Next, Act 2 (E_Close False), Act 2 E_Next, Act 0 E_WorkCheck,
       Act 0 E_Next, Act 0 E_Next, Act 0 E_Next] close_start
      (\<lambda>s pc. pc 0 = C_Done \<and> pc 2 = C_CloseWait)"
    by (simp add: close_exec)
  then obtain s pc where "reachable close_machine (\<lambda>c. c = close_start) (s, pc)"
      "pc 0 = C_Done" "pc 2 = C_CloseWait"
    using run_check_reachable [where init = "\<lambda>c. c = close_start"] by blast
  with Close_no_lost_wakeup [of s pc 2] show ?thesis by blast
qed

theorem Close_returns_finished_witness:
  "\<exists>s pc. reachable close_machine (\<lambda>c. c = close_start) (s, pc) \<and> pc 2 = C_Closed \<and> cs_finishes s = 1"
proof -
  have "run_check close_machine
      [Act 2 (E_Close False), Act 0 E_Next, Act 0 E_Next, Act 0 E_Next, Act 0 E_Next, Act 2 E_Next]
      close_start (\<lambda>s pc. pc 2 = C_Closed)"
    by (simp add: close_exec)
  then obtain s pc where "reachable close_machine (\<lambda>c. c = close_start) (s, pc)" "pc 2 = C_Closed"
    using run_check_reachable [where init = "\<lambda>c. c = close_start"] by blast
  with Close_returns_finished [of s pc 2] show ?thesis by blast
qed

text \<open>
  \<open>Close\<close> does not always wait: after an \<open>AsyncClose\<close>, or when the weak exchange fails
  spuriously, it returns while the work function is still running, and in the second case the
  thread has not even been asked to close.
\<close>

theorem Close_may_not_wait:
  "(\<exists>s pc. reachable close_machine (\<lambda>c. c = close_start) (s, pc) \<and> pc 2 = C_Skipped \<and>
      pc 0 = C_Work \<and> ct_isRequestClose (cs_thread s)) \<and>
   (\<exists>s pc. reachable close_machine (\<lambda>c. c = close_start) (s, pc) \<and> pc 2 = C_Skipped \<and>
      pc 0 = C_Work \<and> \<not> ct_isRequestClose (cs_thread s))"
proof
  have "run_check close_machine
      [Act 0 E_Next, Act 0 E_Next, Act 1 (E_AsyncClose False), Act 2 (E_Close False)] close_start
      (\<lambda>s pc. pc 2 = C_Skipped \<and> pc 0 = C_Work \<and> ct_isRequestClose (cs_thread s))"
    by (simp add: close_exec)
  from run_check_reachable [where init = "\<lambda>c. c = close_start", OF this refl]
  show "\<exists>s pc. reachable close_machine (\<lambda>c. c = close_start) (s, pc) \<and> pc 2 = C_Skipped \<and>
      pc 0 = C_Work \<and> ct_isRequestClose (cs_thread s)" .
  have "run_check close_machine
      [Act 0 E_Next, Act 0 E_Next, Act 2 (E_Close True)] close_start
      (\<lambda>s pc. pc 2 = C_Skipped \<and> pc 0 = C_Work \<and> \<not> ct_isRequestClose (cs_thread s))"
    by (simp add: close_exec)
  from run_check_reachable [where init = "\<lambda>c. c = close_start", OF this refl]
  show "\<exists>s pc. reachable close_machine (\<lambda>c. c = close_start) (s, pc) \<and> pc 2 = C_Skipped \<and>
      pc 0 = C_Work \<and> \<not> ct_isRequestClose (cs_thread s)" .
qed

end
