(* ===== verification/CyclicBarrier.thy ===== *)
theory CyclicBarrier
  imports Sync
begin

text \<open>
  The reusable barrier: \<open>src/CyclicBarrier.cpp\<close>, \<open>include/empool/CyclicBarrier.h\<close>.  A waiting
  thread remembers the two generation counters it read on arrival; the wait loop is one attempt
  per wake-up.  The counters are C \<open>int\<close>s that only grow by one per use; they are integers here.
\<close>

datatype barrier_result = BROKEN | TIMEOUT | SUCCESS

record cyclic_barrier =
  cb_max_count :: int
  cb_count :: int
  cb_reset_index :: int
  cb_barrier_cond :: int
  cb_condition_variable :: condition_variable

text \<open>The constructor asserts that the count is positive; \<open>None\<close> is the failed assertion.\<close>

definition CyclicBarrier_ctor :: "int \<Rightarrow> mutex \<Rightarrow> cyclic_barrier option" where
  "CyclicBarrier_ctor n m =
     (if n > 0
      then Some \<lparr>cb_max_count = n, cb_count = n, cb_reset_index = 0, cb_barrier_cond = 0,
                 cb_condition_variable = ConditionVariable_ctor m\<rparr>
      else None)"

definition cb_lock :: "tid \<Rightarrow> cyclic_barrier \<Rightarrow> cyclic_barrier option" where
  "cb_lock t cb = map_option (\<lambda>c. cb\<lparr>cb_condition_variable := c\<rparr>) (CV_Lock t (cb_condition_variable cb))"

definition cb_unlock :: "cyclic_barrier \<Rightarrow> cyclic_barrier" where
  "cb_unlock cb = cb\<lparr>cb_condition_variable := CV_Unlock (cb_condition_variable cb)\<rparr>"

text \<open>
  \<open>Await\<close> up to its first wait.  \<open>Inl r\<close>: it returned \<open>r\<close>; \<open>Inr (r, b)\<close>: it sleeps, with
  \<open>current_reset_index = r\<close> and \<open>current_barrier_cond = b\<close>.
\<close>

definition Await_enter :: "tid \<Rightarrow> cyclic_barrier \<Rightarrow>
    ((barrier_result + int \<times> int) \<times> cyclic_barrier) option" where
  "Await_enter t cb =
     do { cb1 \<leftarrow> cb_lock t cb;
          let cb2 = cb1\<lparr>cb_count := cb_count cb1 - 1\<rparr>;
          Some (if cb_count cb2 = 0
                then (Inl SUCCESS,
                      cb_unlock (cb2\<lparr>cb_condition_variable := CV_NotifyAll (cb_condition_variable cb2),
                                     cb_count := cb_max_count cb2,
                                     cb_barrier_cond := cb_barrier_cond cb2 + 1\<rparr>))
                else (Inr (cb_reset_index cb2, cb_barrier_cond cb2),
                      cb2\<lparr>cb_condition_variable := CV_Wait t (cb_condition_variable cb2)\<rparr>)) }"

text \<open>\<open>Await\<close> after a wake-up: the loop test again, then the result.\<close>

definition Await_resume :: "tid \<Rightarrow> int \<Rightarrow> int \<Rightarrow> cyclic_barrier \<Rightarrow>
    (barrier_result attempt \<times> cyclic_barrier) option" where
  "Await_resume t current_reset_index current_barrier_cond cb =
     do { cb1 \<leftarrow> cb_lock t cb;
          Some (if current_barrier_cond = cb_barrier_cond cb1 \<and> current_reset_index = cb_reset_index cb1
                then (Slept, cb1\<lparr>cb_condition_variable := CV_Wait t (cb_condition_variable cb1)\<rparr>)
                else (Returned (if current_reset_index \<noteq> cb_reset_index cb1 then BROKEN else SUCCESS),
                      cb_unlock cb1)) }"

text \<open>\<open>Await(int)\<close> differs where its timed wait expired: it returns at once.\<close>

definition Await_expired :: "tid \<Rightarrow> cyclic_barrier \<Rightarrow> (barrier_result \<times> cyclic_barrier) option" where
  "Await_expired t cb = do { cb1 \<leftarrow> cb_lock t cb; Some (TIMEOUT, cb_unlock cb1) }"

definition CyclicBarrier_Reset :: "tid \<Rightarrow> cyclic_barrier \<Rightarrow> cyclic_barrier option" where
  "CyclicBarrier_Reset t cb =
     do { cb1 \<leftarrow> cb_lock t cb;
          Some (cb_unlock (cb1\<lparr>cb_condition_variable := CV_NotifyAll (cb_condition_variable cb1),
                               cb_count := cb_max_count cb1,
                               cb_reset_index := cb_reset_index cb1 + 1\<rparr>)) }"

lemma barrier_ops [sync]:
  assumes "cv_free (cb_condition_variable cb)"
  shows "Await_enter t cb = Some
      (if cb_count cb = 1
       then (Inl SUCCESS, cb\<lparr>cb_condition_variable := CV_NotifyAll (cb_condition_variable cb),
               cb_count := cb_max_count cb, cb_barrier_cond := cb_barrier_cond cb + 1\<rparr>)
       else (Inr (cb_reset_index cb, cb_barrier_cond cb),
             cb\<lparr>cb_count := cb_count cb - 1, cb_condition_variable :=
                 (cb_condition_variable cb)\<lparr>m_cond := m_cond (cb_condition_variable cb) @ [t]\<rparr>\<rparr>))"
    and "Await_resume t r b cb = Some
      (if b = cb_barrier_cond cb \<and> r = cb_reset_index cb
       then (Slept, cb\<lparr>cb_condition_variable :=
               (cb_condition_variable cb)\<lparr>m_cond := m_cond (cb_condition_variable cb) @ [t]\<rparr>\<rparr>)
       else (Returned (if r \<noteq> cb_reset_index cb then BROKEN else SUCCESS), cb))"
    and "Await_expired t cb = Some (TIMEOUT, cb)"
    and "CyclicBarrier_Reset t cb = Some (cb\<lparr>cb_condition_variable := CV_NotifyAll (cb_condition_variable cb),
           cb_count := cb_max_count cb, cb_reset_index := cb_reset_index cb + 1\<rparr>)"
  using assms
  by (auto simp: Await_enter_def Await_resume_def Await_expired_def CyclicBarrier_Reset_def
      cb_lock_def cb_unlock_def sync)

section \<open>The barrier and its clients\<close>

datatype barrier_pc = B_Idle | B_Enter bool | B_Wait bool int int | B_Expired | B_Reset
  | B_Done barrier_result

datatype barrier_ev = CallAwait | CallAwaitTimed | CallReset | B_Run

text \<open>The first parameter says whether clients may call the timed form.\<close>

fun barrier_act :: "bool \<Rightarrow> barrier_ev \<Rightarrow> tid \<Rightarrow> barrier_pc \<Rightarrow> cyclic_barrier \<Rightarrow>
    (barrier_pc \<times> cyclic_barrier) option" where
  "barrier_act timed CallAwait t B_Idle cb = Some (B_Enter False, cb)"
| "barrier_act timed CallAwaitTimed t B_Idle cb = (if timed then Some (B_Enter True, cb) else None)"
| "barrier_act timed CallReset t B_Idle cb = Some (B_Reset, cb)"
| "barrier_act timed B_Run t (B_Enter tw) cb =
     do { (res, cb') \<leftarrow> Await_enter t cb;
          Some (case res of Inl x \<Rightarrow> (B_Done x, cb') | Inr (r, b) \<Rightarrow> (B_Wait tw r b, cb')) }"
| "barrier_act timed B_Run t (B_Wait tw r b) cb =
     do { (res, cb') \<leftarrow> Await_resume t r b cb;
          Some (case res of Slept \<Rightarrow> (B_Wait tw r b, cb') | Returned x \<Rightarrow> (B_Done x, cb')) }"
| "barrier_act timed B_Run t B_Expired cb =
     do { (x, cb') \<leftarrow> Await_expired t cb; Some (B_Done x, cb') }"
| "barrier_act timed B_Run t B_Reset cb =
     do { cb' \<leftarrow> CyclicBarrier_Reset t cb; Some (B_Idle, cb') }"
| "barrier_act timed B_Run t (B_Done x) cb = Some (B_Idle, cb)"
| "barrier_act _ _ _ _ _ = None"

fun barrier_expire :: "barrier_pc \<Rightarrow> barrier_pc option" where
  "barrier_expire (B_Wait True r b) = Some B_Expired"
| "barrier_expire _ = None"

definition barrier_machine :: "bool \<Rightarrow> (cyclic_barrier, barrier_pc, barrier_ev) machine" where
  "barrier_machine timed = \<lparr>act = barrier_act timed,
     waiting = (\<lambda>cb. cv_waiting (cb_condition_variable cb)),
     unwait = (\<lambda>t cb. cb\<lparr>cb_condition_variable := cv_unwait t (cb_condition_variable cb)\<rparr>),
     expire = barrier_expire\<rparr>"

definition barrier_init :: "int \<Rightarrow> (cyclic_barrier, barrier_pc) config \<Rightarrow> bool" where
  "barrier_init n c \<longleftrightarrow> CyclicBarrier_ctor n \<lparr>m_isInit = True, m_owner = None\<rparr> = Some (fst c)
     \<and> (\<forall>t. snd c t = B_Idle)"

text \<open>The threads blocked in the current generation, and the invariant of the untimed barrier.\<close>

definition blocked :: "cyclic_barrier \<Rightarrow> (tid \<Rightarrow> barrier_pc) \<Rightarrow> tid set" where
  "blocked cb pc = {t. pc t = B_Wait False (cb_reset_index cb) (cb_barrier_cond cb)}"

fun barrier_pc_ok :: "cyclic_barrier \<Rightarrow> barrier_pc \<Rightarrow> bool" where
  "barrier_pc_ok cb (B_Enter tw) \<longleftrightarrow> \<not> tw"
| "barrier_pc_ok cb (B_Wait tw r b) \<longleftrightarrow> \<not> tw \<and> r \<le> cb_reset_index cb \<and> b \<le> cb_barrier_cond cb"
| "barrier_pc_ok cb B_Expired \<longleftrightarrow> False"
| "barrier_pc_ok cb _ \<longleftrightarrow> True"

lemma barrier_pc_ok_mono:
  "barrier_pc_ok cb k \<Longrightarrow> cb_reset_index cb \<le> cb_reset_index cb' \<Longrightarrow>
    cb_barrier_cond cb \<le> cb_barrier_cond cb' \<Longrightarrow> barrier_pc_ok cb' k"
  by (cases k) auto

lemma barrier_pc_ok_cond [simp]:
  "barrier_pc_ok (cb\<lparr>cb_condition_variable := c\<rparr>) k = barrier_pc_ok cb k"
  by (cases k) auto

lemma barrier_pcs_ok:
  assumes "\<forall>u. barrier_pc_ok cb (pc u)" and "barrier_pc_ok cb' k"
    and "cb_reset_index cb \<le> cb_reset_index cb'" and "cb_barrier_cond cb \<le> cb_barrier_cond cb'"
  shows "\<forall>u. barrier_pc_ok cb' ((pc(t := k)) u)"
  using assms barrier_pc_ok_mono by auto

definition barrier_inv :: "int \<Rightarrow> cyclic_barrier \<Rightarrow> (tid \<Rightarrow> barrier_pc) \<Rightarrow> bool" where
  "barrier_inv n cb pc \<longleftrightarrow> cv_free (cb_condition_variable cb) \<and> cb_max_count cb = n \<and>
     0 < cb_count cb \<and> cb_count cb \<le> n \<and>
     finite (blocked cb pc) \<and> int (card (blocked cb pc)) = n - cb_count cb \<and>
     set (m_cond (cb_condition_variable cb)) \<subseteq> blocked cb pc \<and> (\<forall>t. barrier_pc_ok cb (pc t))"

lemma barrier_init_inv: "barrier_init n (cb, pc) \<Longrightarrow> barrier_inv n cb pc"
  by (auto simp: barrier_init_def barrier_inv_def CyclicBarrier_ctor_def
      blocked_def ConditionVariable_ctor_def cv_free_def split: if_splits)

text \<open>No thread can remember a generation that has not begun, so a new generation starts empty.\<close>

lemma new_generation_empty:
  assumes "\<forall>t. barrier_pc_ok cb (pc t)" and "k \<noteq> B_Wait False r b"
    and "cb_reset_index cb < r \<or> cb_barrier_cond cb < b"
  shows "{u. (pc(t := k)) u = B_Wait False r b} = {}"
proof -
  have "pc u \<noteq> B_Wait False r b" for u
    using assms(1,3) by (metis barrier_pc_ok.simps(2) linorder_not_le)
  with assms(2) show ?thesis by auto
qed

lemma barrier_enter_inv:
  assumes "barrier_inv n cb pc" and "pc t = B_Enter False"
    and "barrier_act timed B_Run t (B_Enter False) cb = Some (k, cb')"
  shows "barrier_inv n cb' (pc(t := k))"
proof (cases "cb_count cb = 1")
  case True
  with assms have k: "k = B_Done SUCCESS" "cb' = cb\<lparr>cb_condition_variable :=
      CV_NotifyAll (cb_condition_variable cb), cb_count := n, cb_barrier_cond := cb_barrier_cond cb + 1\<rparr>"
    by (auto simp: barrier_inv_def sync)
  have "blocked cb' (pc(t := k)) = {}"
    using assms(1) k new_generation_empty [of cb pc k "cb_reset_index cb" "cb_barrier_cond cb + 1" t]
    by (simp add: blocked_def barrier_inv_def)
  moreover have "\<forall>u. barrier_pc_ok cb' ((pc(t := k)) u)"
    using assms(1) k by (intro barrier_pcs_ok [of cb]) (simp_all add: barrier_inv_def)
  ultimately show ?thesis
    using assms(1) k by (auto simp: barrier_inv_def sync simp del: fun_upd_apply)
next
  case False
  with assms have k: "k = B_Wait False (cb_reset_index cb) (cb_barrier_cond cb)"
    "cb' = cb\<lparr>cb_count := cb_count cb - 1, cb_condition_variable :=
       (cb_condition_variable cb)\<lparr>m_cond := m_cond (cb_condition_variable cb) @ [t]\<rparr>\<rparr>"
    by (auto simp: barrier_inv_def sync)
  have "blocked cb' (pc(t := k)) = insert t (blocked cb pc)" "t \<notin> blocked cb pc"
    using assms(2) k by (auto simp: blocked_def)
  moreover have "\<forall>u. barrier_pc_ok cb' ((pc(t := k)) u)"
    using assms(1) k by (intro barrier_pcs_ok [of cb]) (simp_all add: barrier_inv_def)
  ultimately show ?thesis
    using assms(1) k False by (auto simp: barrier_inv_def sync simp del: fun_upd_apply)
qed

text \<open>A step that leaves the barrier as it is, of a thread that is not blocked before or after it.\<close>

lemma barrier_same_inv:
  assumes "barrier_inv n cb pc" and "t \<notin> blocked cb pc" and "barrier_pc_ok cb k"
    and "k \<noteq> B_Wait False (cb_reset_index cb) (cb_barrier_cond cb)"
  shows "barrier_inv n cb (pc(t := k))"
proof -
  have "blocked cb (pc(t := k)) = blocked cb pc"
    using assms(2,4) by (auto simp: blocked_def)
  with assms(1,3) show ?thesis by (simp add: barrier_inv_def)
qed

lemma barrier_resume_inv:
  assumes "barrier_inv n cb pc" and "pc t = B_Wait False r b"
    and "barrier_act timed B_Run t (B_Wait False r b) cb = Some (k, cb')"
  shows "barrier_inv n cb' (pc(t := k))"
proof (cases "b = cb_barrier_cond cb \<and> r = cb_reset_index cb")
  case True
  with assms have k: "k = pc t" "cb' = cb\<lparr>cb_condition_variable :=
      (cb_condition_variable cb)\<lparr>m_cond := m_cond (cb_condition_variable cb) @ [t]\<rparr>\<rparr>"
    by (auto simp: barrier_inv_def sync)
  have "blocked cb' (pc(t := k)) = blocked cb pc" "t \<in> blocked cb pc"
    using assms(2) k True by (auto simp: blocked_def)
  moreover have "\<forall>u. barrier_pc_ok cb' ((pc(t := k)) u)"
    using assms(1) k by (intro barrier_pcs_ok [of cb]) (simp_all add: barrier_inv_def)
  ultimately show ?thesis
    using assms(1) k by (auto simp: barrier_inv_def sync simp del: fun_upd_apply)
next
  case False
  with assms have "\<exists>x. k = B_Done x" "cb' = cb"
    by (auto simp: barrier_inv_def sync split: if_splits)
  with assms(1,2) False show ?thesis
    by (auto intro!: barrier_same_inv simp: blocked_def)
qed

lemma barrier_reset_inv:
  assumes "barrier_inv n cb pc" and "barrier_act timed B_Run t B_Reset cb = Some (k, cb')"
  shows "barrier_inv n cb' (pc(t := k))"
proof -
  have k: "k = B_Idle" "cb' = cb\<lparr>cb_condition_variable :=
      CV_NotifyAll (cb_condition_variable cb), cb_count := n, cb_reset_index := cb_reset_index cb + 1\<rparr>"
    using assms by (auto simp: barrier_inv_def sync)
  have "blocked cb' (pc(t := k)) = {}"
    using assms(1) k new_generation_empty [of cb pc k "cb_reset_index cb + 1" "cb_barrier_cond cb" t]
    by (simp add: blocked_def barrier_inv_def)
  moreover have "\<forall>u. barrier_pc_ok cb' ((pc(t := k)) u)"
    using assms(1) k by (intro barrier_pcs_ok [of cb]) (simp_all add: barrier_inv_def)
  ultimately show ?thesis
    using assms(1) k by (auto simp: barrier_inv_def sync simp del: fun_upd_apply)
qed

lemma barrier_act_inv:
  assumes "barrier_inv n cb pc" and "barrier_act False e t (pc t) cb = Some (k, cb')"
  shows "barrier_inv n cb' (pc(t := k))"
proof -
  have ok: "barrier_pc_ok cb (pc t)" using assms(1) by (simp add: barrier_inv_def)
  have same: ?thesis if "barrier_pc_ok cb k" "cb' = cb"
    "pc t \<noteq> B_Wait False (cb_reset_index cb) (cb_barrier_cond cb)"
    "k \<noteq> B_Wait False (cb_reset_index cb) (cb_barrier_cond cb)"
    using barrier_same_inv [OF assms(1) _ that(1,4), of t] that(2,3) by (simp add: blocked_def)
  show ?thesis
  proof (cases e)
    case B_Run
    show ?thesis
    proof (cases "pc t")
      case (B_Enter tw)
      with ok have pc: "pc t = B_Enter False" by auto
      show ?thesis by (rule barrier_enter_inv [OF assms(1) pc, where timed = False]) (use assms(2) in \<open>simp only: B_Run pc\<close>)
    next
      case (B_Wait tw r b)
      with ok have pc: "pc t = B_Wait False r b" by auto
      show ?thesis by (rule barrier_resume_inv [OF assms(1) pc, where timed = False]) (use assms(2) in \<open>simp only: B_Run pc\<close>)
    next
      case B_Reset
      then show ?thesis using barrier_reset_inv [OF assms(1)] assms(2) B_Run by simp
    next
      case (B_Done x)
      with assms B_Run show ?thesis by (intro same) auto
    qed (use assms B_Run ok in auto)
  next
    case CallAwait
    with assms(2) have "pc t = B_Idle" "cb' = cb" "k = B_Enter False \<or> k = B_Reset"
      by (cases "pc t"; simp)+
    then show ?thesis by (intro same) auto
  next
    case CallAwaitTimed
    with assms(2) show ?thesis by (cases "pc t") simp_all
  next
    case CallReset
    with assms(2) have "pc t = B_Idle" "cb' = cb" "k = B_Enter False \<or> k = B_Reset"
      by (cases "pc t"; simp)+
    then show ?thesis by (intro same) auto
  qed
qed

lemma barrier_unwait_inv:
  "barrier_inv n cb pc \<Longrightarrow> barrier_inv n (cb\<lparr>cb_condition_variable :=
     cv_unwait t (cb_condition_variable cb)\<rparr>) pc"
  by (auto simp: barrier_inv_def blocked_def sync)

lemma barrier_expire_inv:
  "barrier_inv n cb pc \<Longrightarrow> barrier_expire (pc t) = Some k \<Longrightarrow> False"
  by (cases "pc t" rule: barrier_expire.cases) (auto simp: barrier_inv_def dest!: spec [of _ t])

interpretation barrier: machine_invariant "barrier_machine False" "barrier_init n" "barrier_inv n"
  for n
proof (unfold_locales, goal_cases)
  case (1 cb pc)
  then show ?case by (rule barrier_init_inv)
next
  case (2 cb pc t e k cb')
  then have "barrier_act False e t (pc t) cb = Some (k, cb')" by (simp add: barrier_machine_def)
  with 2(1) show ?case by (rule barrier_act_inv)
next
  case (3 cb pc t)
  then show ?case using barrier_unwait_inv [of n cb pc t] by (simp add: barrier_machine_def)
next
  case (4 cb pc t k)
  then have "barrier_expire (pc t) = Some k" by (simp add: barrier_machine_def)
  then show ?case using barrier_expire_inv [OF 4(1)] by blast
qed

text \<open>
  C19: a barrier on which no thread uses the timed \<open>Await\<close> (\<open>barrier_machine False\<close>) keeps count exactly,
  \<open>Reset\<close> included: at every moment \<open>m_max_count - m_count\<close> is the number of threads blocked in the
  current generation, it is less than the size of the barrier, and every sleeping thread is one of
  them, so nobody sleeps through a release.  With the timed \<open>Await\<close> the count goes wrong (lemma
  \<open>timed_Await_breaks_counting\<close>).
\<close>

theorem Await_counts_blocked:
  assumes "reachable (barrier_machine False) (barrier_init n) (cb, pc)"
  shows "finite (blocked cb pc) \<and> int (card (blocked cb pc)) = cb_max_count cb - cb_count cb
     \<and> int (card (blocked cb pc)) < n \<and> set (m_cond (cb_condition_variable cb)) \<subseteq> blocked cb pc"
  using barrier.reachable_inv [OF assms] by (auto simp: barrier_inv_def)

text \<open>
  C13: on a barrier on which no thread uses the timed \<open>Await\<close>, an arriving thread passes exactly when all the
  other \<open>n - 1\<close> threads are blocked in the current generation; it then starts a new generation, and each
  of those threads, if it is the next to act, returns SUCCESS with that action.  Otherwise the arriving
  thread blocks.  A \<open>Reset\<close> that comes before a released thread acts makes it return BROKEN instead (lemma
  \<open>Reset_breaks_released\<close>).
\<close>

theorem Await_trips_when_full:
  assumes "reachable (barrier_machine False) (barrier_init n) (cb, pc)" and "pc t = B_Enter False"
  shows "if int (card (blocked cb pc)) = n - 1
    then \<exists>cb'. mstep (barrier_machine False) (Act t B_Run) (cb, pc) = Some (cb', pc(t := B_Done SUCCESS)) \<and>
      (\<forall>u \<in> blocked cb pc. mstep (barrier_machine False) (Act u B_Run) (cb', pc(t := B_Done SUCCESS))
        = Some (cb', pc(t := B_Done SUCCESS, u := B_Done SUCCESS)))
    else \<exists>cb'. mstep (barrier_machine False) (Act t B_Run) (cb, pc)
        = Some (cb', pc(t := B_Wait False (cb_reset_index cb) (cb_barrier_cond cb)))"
proof -
  have inv: "barrier_inv n cb pc" using barrier.reachable_inv [OF assms(1)] .
  have awake: "\<not> cv_waiting (cb_condition_variable cb) t"
    using inv assms(2) by (auto simp: barrier_inv_def blocked_def sync)
  show ?thesis
  proof (cases "cb_count cb = 1")
    case True
    define cb' where "cb' = cb\<lparr>cb_condition_variable := CV_NotifyAll (cb_condition_variable cb),
      cb_count := cb_max_count cb, cb_barrier_cond := cb_barrier_cond cb + 1\<rparr>"
    have "mstep (barrier_machine False) (Act t B_Run) (cb, pc) = Some (cb', pc(t := B_Done SUCCESS))"
      using inv awake assms(2) True by (simp add: barrier_machine_def barrier_inv_def sync cb'_def)
    moreover have "mstep (barrier_machine False) (Act u B_Run) (cb', pc(t := B_Done SUCCESS))
        = Some (cb', pc(t := B_Done SUCCESS, u := B_Done SUCCESS))" if "u \<in> blocked cb pc" for u
      using inv that assms(2)
      by (cases "u = t") (simp_all add: barrier_machine_def barrier_inv_def blocked_def sync cb'_def)
    moreover have "int (card (blocked cb pc)) = n - 1" using inv True by (simp add: barrier_inv_def)
    ultimately show ?thesis by auto
  next
    case False
    with inv have "int (card (blocked cb pc)) \<noteq> n - 1" by (simp add: barrier_inv_def)
    with inv awake assms(2) False show ?thesis by (simp add: barrier_machine_def barrier_inv_def sync)
  qed
qed

lemmas barrier_exec = barrier_machine_def barrier_init_def run_check_def CyclicBarrier_ctor_def
  ConditionVariable_ctor_def Await_enter_def Await_resume_def Await_expired_def CyclicBarrier_Reset_def
  cb_lock_def cb_unlock_def cv_defs

definition barrier_start :: "int \<Rightarrow> (cyclic_barrier, barrier_pc) config" where
  "barrier_start n = (\<lparr>cb_max_count = n, cb_count = n, cb_reset_index = 0, cb_barrier_cond = 0,
     cb_condition_variable = ConditionVariable_ctor \<lparr>m_isInit = True, m_owner = None\<rparr>\<rparr>, \<lambda>_. B_Idle)"

lemma barrier_init_start: "0 < n \<Longrightarrow> barrier_init n (barrier_start n)"
  by (simp add: barrier_init_def barrier_start_def CyclicBarrier_ctor_def)

theorem Await_counts_blocked_witness:
  "\<exists>cb pc. reachable (barrier_machine False) (barrier_init 2) (cb, pc) \<and> cb_count cb = 1 \<and>
     card (blocked cb pc) = 1"
proof -
  have "run_check (barrier_machine False) [Act 1 CallAwait, Act 1 B_Run] (barrier_start 2)
      (\<lambda>cb pc. cb_count cb = 1 \<and> cb_max_count cb = 2)"
    by (simp add: barrier_exec barrier_start_def)
  from run_check_reachable [where init = "barrier_init 2", OF this barrier_init_start] obtain cb pc
    where c: "reachable (barrier_machine False) (barrier_init 2) (cb, pc)"
      "cb_count cb = 1" "cb_max_count cb = 2" by auto
  with Await_counts_blocked [OF c(1)] show ?thesis by auto
qed

theorem Await_trips_when_full_witness:
  "\<exists>cb pc cb'. reachable (barrier_machine False) (barrier_init 2) (cb, pc) \<and>
     mstep (barrier_machine False) (Act 2 B_Run) (cb, pc) = Some (cb', pc(2 := B_Done SUCCESS))"
proof -
  have "run_check (barrier_machine False) [Act 1 CallAwait, Act 1 B_Run, Act 2 CallAwait] (barrier_start 2)
      (\<lambda>cb pc. pc 2 = B_Enter False \<and> cb_count cb = 1 \<and> cb_max_count cb = 2)"
    by (simp add: barrier_exec barrier_start_def)
  from run_check_reachable [where init = "barrier_init 2", OF this barrier_init_start] obtain cb pc
    where c: "reachable (barrier_machine False) (barrier_init 2) (cb, pc)" "pc 2 = B_Enter False"
      "cb_count cb = 1" "cb_max_count cb = 2" by auto
  then have "int (card (blocked cb pc)) = 2 - 1"
    using barrier.reachable_inv [OF c(1)] by (simp add: barrier_inv_def)
  with Await_trips_when_full [OF c(1,2)] c(1) show ?thesis by (simp del: mstep.simps) blast
qed

text \<open>
  A timed \<open>Await\<close> that expires does not give its place back, so a later thread passes the
  barrier of size 2 although it never met another thread.
\<close>

theorem timed_Await_breaks_counting:
  "\<exists>cb pc. reachable (barrier_machine True) (barrier_init 2) (cb, pc) \<and>
     pc = (\<lambda>_. B_Idle)(1 := B_Done TIMEOUT, 2 := B_Done SUCCESS)"
proof -
  have "run_check (barrier_machine True)
      [Act 1 CallAwaitTimed, Act 1 B_Run, Timeout 1, Act 1 B_Run, Act 2 CallAwait, Act 2 B_Run]
      (fst (barrier_start 2), snd (barrier_start 2)) (\<lambda>cb pc. pc 1 = B_Done TIMEOUT \<and> pc 2 = B_Done SUCCESS)"
    by (simp add: barrier_exec barrier_start_def)
  from run_check_reachable_frame [where init = "barrier_init 2", OF this] barrier_init_start
  obtain cb pc where r: "reachable (barrier_machine True) (barrier_init 2) (cb, pc)"
      "pc 1 = B_Done TIMEOUT" "pc 2 = B_Done SUCCESS" "\<forall>t. t \<noteq> 1 \<and> t \<noteq> 2 \<longrightarrow> pc t = B_Idle"
    by (auto simp: barrier_start_def)
  then have "pc = (\<lambda>_. B_Idle)(1 := B_Done TIMEOUT, 2 := B_Done SUCCESS)" by (auto simp: fun_eq_iff)
  with r(1) show ?thesis by blast
qed

text \<open>
  A \<open>Reset\<close> that follows a complete release breaks it after the fact: a thread that was
  released but has not run yet returns BROKEN, while the thread that released it got SUCCESS.
\<close>

theorem Reset_breaks_released:
  "\<exists>cb pc. reachable (barrier_machine False) (barrier_init 2) (cb, pc) \<and>
     pc 1 = B_Done BROKEN \<and> pc 2 = B_Done SUCCESS"
proof -
  have "run_check (barrier_machine False)
      [Act 1 CallAwait, Act 1 B_Run, Act 2 CallAwait, Act 2 B_Run, Act 3 CallReset, Act 3 B_Run, Act 1 B_Run]
      (barrier_start 2) (\<lambda>cb pc. pc 1 = B_Done BROKEN \<and> pc 2 = B_Done SUCCESS)"
    by (simp add: barrier_exec barrier_start_def)
  from run_check_reachable [where init = "barrier_init 2", OF this barrier_init_start] show ?thesis by simp
qed

end
