(* ===== verification/PriorityQueue.thy ===== *)
theory PriorityQueue
  imports Prelude
begin

text \<open>
  \<open>std::priority_queue\<close> over \<open>std::vector\<close>, which \<open>SingleThreadPool\<close> and \<open>TimerTaskQueue\<close>
  use with comparison functions of their own.  The model is the array heap of the standard
  library: \<open>push\<close> appends and sifts up (\<open>push_heap\<close>), \<open>pop\<close> moves the larger child into the
  hole down to a leaf and sifts the last element up from there (\<open>pop_heap\<close>).

  \<open>cmp\<close> is the comparison function; \<open>le x y\<close> says that \<open>y\<close> may stand above \<open>x\<close>.  The
  contract between them is weaker than the strict weak order the standard asks for, so that it
  also covers the non-strict comparison of the LIFO queue.
\<close>

section \<open>The interface\<close>

locale priority_queue =
  fixes push :: "'a \<Rightarrow> 'q \<Rightarrow> 'q"
    and pop :: "'q \<Rightarrow> 'q"
    and front :: "'q \<Rightarrow> 'a"
    and elems :: "'q \<Rightarrow> 'a multiset"
    and invar :: "'q \<Rightarrow> bool"
    and le :: "'a \<Rightarrow> 'a \<Rightarrow> bool"
  assumes push_elems: "elems (push x q) = add_mset x (elems q)"
    and push_invar: "invar q \<Longrightarrow> invar (push x q)"
    and pop_elems: "elems q \<noteq> {#} \<Longrightarrow> elems q = add_mset (front q) (elems (pop q))"
    and pop_invar: "invar q \<Longrightarrow> elems q \<noteq> {#} \<Longrightarrow> invar (pop q)"
    and top_max: "invar q \<Longrightarrow> x \<in># elems q \<Longrightarrow> le x (front q)"
begin

lemma push_list_elems: "elems (fold push xs q) = elems q + mset xs"
  by (induction xs arbitrary: q) (simp_all add: push_elems)

lemma push_list_invar: "invar q \<Longrightarrow> invar (fold push xs q)"
  by (induction xs arbitrary: q) (simp_all add: push_invar)

lemma size_pop: "elems q \<noteq> {#} \<Longrightarrow> Suc (size (elems (pop q))) = size (elems q)"
  using arg_cong [OF pop_elems, of q size] by simp

end

text \<open>Taking out everything, first to last.\<close>

fun drain :: "('q \<Rightarrow> 'a) \<Rightarrow> ('q \<Rightarrow> 'q) \<Rightarrow> nat \<Rightarrow> 'q \<Rightarrow> 'a list" where
  "drain front pop 0 q = []"
| "drain front pop (Suc n) q = front q # drain front pop n (pop q)"

context priority_queue
begin

lemma drain_mset: "n = size (elems q) \<Longrightarrow> mset (drain front pop n q) = elems q"
proof (induction n arbitrary: q)
  case (Suc n)
  then have ne: "elems q \<noteq> {#}" by auto
  with Suc.prems have "n = size (elems (pop q))" using size_pop [of q] by simp
  from Suc.IH [OF this] pop_elems [OF ne] show ?case by simp
qed simp

lemma drain_sorted:
  "n = size (elems q) \<Longrightarrow> invar q \<Longrightarrow> sorted_wrt (\<lambda>x y. le y x) (drain front pop n q)"
proof (induction n arbitrary: q)
  case (Suc n)
  then have ne: "elems q \<noteq> {#}" by auto
  with Suc.prems have n: "n = size (elems (pop q))" using size_pop [of q] by simp
  have "y \<in># elems q" if "y \<in> set (drain front pop n (pop q))" for y
  proof -
    have "y \<in># elems (pop q)" using that drain_mset [OF n] by (metis set_mset_mset)
    then show ?thesis by (subst pop_elems [OF ne]) simp
  qed
  with Suc.prems top_max have "\<forall>y \<in> set (drain front pop n (pop q)). le y (front q)" by blast
  with Suc.IH [OF n pop_invar [OF Suc.prems(2) ne]] show ?case by simp
qed simp

end

section \<open>The array heap\<close>

function sift_up :: "('a \<Rightarrow> 'a \<Rightarrow> bool) \<Rightarrow> 'a \<Rightarrow> nat \<Rightarrow> 'a list \<Rightarrow> 'a list" where
  "sift_up cmp v hole xs =
     (if 0 < hole \<and> cmp (xs ! ((hole - 1) div 2)) v
      then sift_up cmp v ((hole - 1) div 2) (xs[hole := xs ! ((hole - 1) div 2)])
      else xs[hole := v])"
  by pat_completeness auto
termination by (relation "measure (\<lambda>(cmp, v, hole, xs). hole)") auto

declare sift_up.simps [simp del]

definition bigger_child :: "('a \<Rightarrow> 'a \<Rightarrow> bool) \<Rightarrow> nat \<Rightarrow> 'a list \<Rightarrow> nat" where
  "bigger_child cmp hole xs =
     (let right = 2 * (hole + 1) in if cmp (xs ! right) (xs ! (right - 1)) then right - 1 else right)"

lemma bigger_child_cases: "bigger_child cmp hole xs = 2 * hole + 1 \<or> bigger_child cmp hole xs = 2 * hole + 2"
  by (auto simp: bigger_child_def Let_def)

function sift_down :: "('a \<Rightarrow> 'a \<Rightarrow> bool) \<Rightarrow> nat \<Rightarrow> nat \<Rightarrow> 'a list \<Rightarrow> nat \<times> 'a list" where
  "sift_down cmp len hole xs =
     (if hole < (len - 1) div 2 then
        sift_down cmp len (bigger_child cmp hole xs) (xs[hole := xs ! bigger_child cmp hole xs])
      else if even len \<and> hole = (len - 2) div 2 then (2 * hole + 1, xs[hole := xs ! (2 * hole + 1)])
      else (hole, xs))"
  by pat_completeness auto
termination
  by (relation "measure (\<lambda>(cmp, len, hole, xs). len - hole)")
     (auto simp: bigger_child_def Let_def)

declare sift_down.simps [simp del]

lemma sift_down_inner: "hole < (len - 1) div 2 \<Longrightarrow> sift_down cmp len hole xs =
    sift_down cmp len (bigger_child cmp hole xs) (xs[hole := xs ! bigger_child cmp hole xs])"
  by (subst sift_down.simps) simp

lemma sift_down_last: "\<not> hole < (len - 1) div 2 \<Longrightarrow> even len \<and> hole = (len - 2) div 2 \<Longrightarrow>
    sift_down cmp len hole xs = (2 * hole + 1, xs[hole := xs ! (2 * hole + 1)])"
  by (subst sift_down.simps) simp

lemma sift_down_leaf: "\<not> hole < (len - 1) div 2 \<Longrightarrow> \<not> (even len \<and> hole = (len - 2) div 2) \<Longrightarrow>
    sift_down cmp len hole xs = (hole, xs)"
  by (subst sift_down.simps) auto

definition pq_push :: "('a \<Rightarrow> 'a \<Rightarrow> bool) \<Rightarrow> 'a \<Rightarrow> 'a list \<Rightarrow> 'a list" where
  "pq_push cmp x xs = sift_up cmp x (length xs) (xs @ [x])"

definition pq_pop :: "('a \<Rightarrow> 'a \<Rightarrow> bool) \<Rightarrow> 'a list \<Rightarrow> 'a list" where
  "pq_pop cmp xs =
     (if length xs \<le> 1 then []
      else case sift_down cmp (length xs - 1) 0 (butlast xs) of
             (hole, ys) \<Rightarrow> sift_up cmp (last xs) hole ys)"

definition pq_top :: "'a list \<Rightarrow> 'a" where
  "pq_top xs = hd xs"

subsection \<open>Contents\<close>

lemma mset_move: "i < length xs \<Longrightarrow> j < length xs \<Longrightarrow> i \<noteq> j \<Longrightarrow>
    mset ((xs[i := xs ! j])[j := v]) = mset (xs[i := v])"
  by (simp add: mset_list_swap)

lemma mset_sift_up: "hole < length xs \<Longrightarrow> mset (sift_up cmp v hole xs) = mset (xs[hole := v])"
proof (induction cmp v hole xs rule: sift_up.induct)
  case (1 cmp v hole xs)
  show ?case
  proof (cases "0 < hole \<and> cmp (xs ! ((hole - 1) div 2)) v")
    case True
    then have "(hole - 1) div 2 < hole" by auto
    with "1" True show ?thesis
      by (subst sift_up.simps) (simp add: mset_move)
  next
    case False
    then show ?thesis by (subst sift_up.simps) auto
  qed
qed

lemma length_sift_up [simp]: "hole < length xs \<Longrightarrow> length (sift_up cmp v hole xs) = length xs"
  using arg_cong [OF mset_sift_up, of hole xs size cmp v] by simp

lemma sift_down_range:
  "hole < len \<Longrightarrow> len = length xs \<Longrightarrow> sift_down cmp len hole xs = (h, ys) \<Longrightarrow>
   h < len \<and> length ys = len \<and> mset (ys[h := v]) = mset (xs[hole := v])"
proof (induction cmp len hole xs arbitrary: h ys rule: sift_down.induct)
  case (1 cmp len hole xs)
  define child where "child = bigger_child cmp hole xs"
  consider (inner) "hole < (len - 1) div 2" | (last) "\<not> hole < (len - 1) div 2" "even len \<and> hole = (len - 2) div 2"
    | (leaf) "\<not> hole < (len - 1) div 2" "\<not> (even len \<and> hole = (len - 2) div 2)" by blast
  then show ?case
  proof cases
    case inner
    then have c: "child < len" "child \<noteq> hole"
      using bigger_child_cases [of cmp hole xs] by (auto simp: child_def)
    from inner "1.prems"(3) have eq: "sift_down cmp len child (xs[hole := xs ! child]) = (h, ys)"
      by (simp add: sift_down_inner child_def)
    have "h < len \<and> length ys = len \<and> mset (ys[h := v]) = mset ((xs[hole := xs ! child])[child := v])"
      by (rule "1.IH" [OF inner, folded child_def, OF c(1) _ eq]) (simp add: "1.prems"(2))
    with c "1.prems" show ?thesis by (simp add: mset_move)
  next
    case last
    with "1.prems"(1) have "2 * hole + 1 < len" by presburger
    moreover have "h = 2 * hole + 1" "ys = xs[hole := xs ! (2 * hole + 1)]"
      using sift_down_last [OF last, of cmp xs] "1.prems"(3) by simp_all
    ultimately show ?thesis using "1.prems"(1,2) by (simp add: mset_list_swap)
  next
    case leaf
    then show ?thesis using sift_down_leaf [OF leaf, of cmp xs] "1.prems" by simp
  qed
qed

lemma mset_push: "mset (pq_push cmp x xs) = add_mset x (mset xs)"
  by (simp add: pq_push_def mset_sift_up)

lemma length_push [simp]: "length (pq_push cmp x xs) = Suc (length xs)"
  by (simp add: pq_push_def)

lemma mset_pop: "xs \<noteq> [] \<Longrightarrow> mset xs = add_mset (pq_top xs) (mset (pq_pop cmp xs))"
proof (cases "length xs \<le> 1")
  case True
  assume "xs \<noteq> []"
  with True show ?thesis by (cases xs) (auto simp: pq_pop_def pq_top_def)
next
  case False
  then obtain x ys where xs: "xs = x # ys" "ys \<noteq> []" by (cases xs) auto
  obtain h zs where sd: "sift_down cmp (length xs - 1) 0 (butlast xs) = (h, zs)" by fastforce
  with False have "h < length zs" "mset (zs[h := last xs]) = mset ((butlast xs)[0 := last xs])"
    using sift_down_range [OF _ _ sd, of "last xs"] by auto
  with False sd have "mset (pq_pop cmp xs) = mset ((butlast xs)[0 := last xs])"
    by (simp add: pq_pop_def mset_sift_up)
  also have "\<dots> = mset (last ys # butlast ys)" using xs by simp
  also have "\<dots> = mset (butlast ys @ [last ys])" by simp
  also have "\<dots> = mset ys" by (rule arg_cong [OF append_butlast_last_id [OF xs(2)]])
  finally show ?thesis using xs by (simp add: pq_top_def)
qed

subsection \<open>The heap order\<close>

locale heap_order =
  fixes cmp :: "'a \<Rightarrow> 'a \<Rightarrow> bool"
    and le :: "'a \<Rightarrow> 'a \<Rightarrow> bool"
  assumes cmp_le: "cmp x y \<Longrightarrow> le x y"
    and not_cmp_le: "\<not> cmp x y \<Longrightarrow> le y x"
    and le_trans: "le x y \<Longrightarrow> le y z \<Longrightarrow> le x z"

text \<open>
  \<open>above le xs i\<close>: element \<open>i\<close> is not higher than its parent.  \<open>heap_hole\<close> is the heap order
  of an array with a hole, whose content is stale; \<open>below\<close> bounds the children of the hole.
\<close>

definition above :: "('a \<Rightarrow> 'a \<Rightarrow> bool) \<Rightarrow> 'a list \<Rightarrow> nat \<Rightarrow> bool" where
  "above le xs i \<longleftrightarrow> le (xs ! i) (xs ! ((i - 1) div 2))"

definition is_heap :: "('a \<Rightarrow> 'a \<Rightarrow> bool) \<Rightarrow> 'a list \<Rightarrow> bool" where
  "is_heap le xs \<longleftrightarrow> (\<forall>i < length xs. 0 < i \<longrightarrow> above le xs i)"

definition heap_hole :: "('a \<Rightarrow> 'a \<Rightarrow> bool) \<Rightarrow> nat \<Rightarrow> 'a list \<Rightarrow> bool" where
  "heap_hole le h xs \<longleftrightarrow> h < length xs \<and>
     (\<forall>i < length xs. 0 < i \<and> i \<noteq> h \<and> (i - 1) div 2 \<noteq> h \<longrightarrow> above le xs i) \<and>
     (\<forall>c < length xs. 0 < c \<and> (c - 1) div 2 = h \<and> 0 < h \<longrightarrow> le (xs ! c) (xs ! ((h - 1) div 2)))"

definition below :: "('a \<Rightarrow> 'a \<Rightarrow> bool) \<Rightarrow> 'a \<Rightarrow> nat \<Rightarrow> 'a list \<Rightarrow> bool" where
  "below le v h xs \<longleftrightarrow> (\<forall>c < length xs. 0 < c \<and> (c - 1) div 2 = h \<longrightarrow> le (xs ! c) v)"

context heap_order
begin

lemma fill_hole:
  assumes "heap_hole le h xs" and "below le v h xs" and "h = 0 \<or> le v (xs ! ((h - 1) div 2))"
  shows "is_heap le (xs[h := v])"
  unfolding is_heap_def above_def
proof (intro allI impI)
  fix i assume i: "i < length (xs[h := v])" "0 < i"
  then have "(i - 1) div 2 < i" by auto
  with assms i show "le (xs[h := v] ! i) (xs[h := v] ! ((i - 1) div 2))"
    by (cases "i = h"; cases "(i - 1) div 2 = h")
       (auto simp: heap_hole_def below_def above_def nth_list_update)
qed

lemma move_hole_up:
  assumes "heap_hole le h xs" and "below le v h xs" and "0 < h" and "le (xs ! ((h - 1) div 2)) v"
  defines "p \<equiv> (h - 1) div 2"
  shows "heap_hole le p (xs[h := xs ! p])" and "below le v p (xs[h := xs ! p])"
proof -
  let ?ys = "xs[h := xs ! p]"
  have h: "h < length xs" "p < h" and
    ord: "\<And>i. i < length xs \<Longrightarrow> 0 < i \<Longrightarrow> i \<noteq> h \<Longrightarrow> (i - 1) div 2 \<noteq> h \<Longrightarrow> le (xs ! i) (xs ! ((i - 1) div 2))" and
    ch: "\<And>c. c < length xs \<Longrightarrow> 0 < c \<Longrightarrow> (c - 1) div 2 = h \<Longrightarrow> le (xs ! c) (xs ! p)"
    using assms by (auto simp: heap_hole_def above_def)
  have child: "le (?ys ! c) (xs ! p)" if "c < length xs" "0 < c" "(c - 1) div 2 = p" for c
    using that ord [of c] h not_cmp_le cmp_le le_trans by (cases "c = h") (auto simp: nth_list_update)
  show "below le v p ?ys"
    using child assms(4) le_trans by (auto simp: below_def p_def)
  have up: "0 < p \<Longrightarrow> le (xs ! p) (xs ! ((p - 1) div 2))"
    using ord [of p] h by auto
  have "above le ?ys i" if "i < length xs" "0 < i" "i \<noteq> p" "(i - 1) div 2 \<noteq> p" for i
  proof -
    have "i \<noteq> h" using that by (auto simp: p_def)
    then show ?thesis
      using that ord [of i] ch [of i] by (cases "(i - 1) div 2 = h") (auto simp: above_def nth_list_update)
  qed
  moreover have "le (?ys ! c) (?ys ! ((p - 1) div 2))"
    if "c < length xs" "0 < c" "(c - 1) div 2 = p" "0 < p" for c
  proof -
    have "(p - 1) div 2 \<noteq> h" using h by auto
    then have "?ys ! ((p - 1) div 2) = xs ! ((p - 1) div 2)" by simp
    with le_trans [OF child [OF that(1-3)] up [OF that(4)]] show ?thesis by simp
  qed
  ultimately show "heap_hole le p ?ys" using h by (auto simp: heap_hole_def)
qed

lemma sift_up_heap:
  "heap_hole le hole xs \<Longrightarrow> below le v hole xs \<Longrightarrow> is_heap le (sift_up cmp v hole xs)"
proof (induction hole arbitrary: xs rule: less_induct)
  case (less hole)
  show ?case
  proof (cases "0 < hole \<and> cmp (xs ! ((hole - 1) div 2)) v")
    case True
    then have "(hole - 1) div 2 < hole" by auto
    with True less.IH move_hole_up [OF less.prems] cmp_le show ?thesis
      by (subst sift_up.simps) simp
  next
    case False
    then have "hole = 0 \<or> le v (xs ! ((hole - 1) div 2))" using not_cmp_le by auto
    from fill_hole [OF less.prems this] False show ?thesis
      by (subst sift_up.simps) auto
  qed
qed

text \<open>Moving the hole down: the larger child fills it, and the hole ends at a leaf.\<close>

lemma bigger_child_max:
  assumes "hole < (length xs - 1) div 2" and "c < length xs" "0 < c" "(c - 1) div 2 = hole"
  shows "le (xs ! c) (xs ! bigger_child cmp hole xs)"
proof -
  have "c = 2 * hole + 1 \<or> c = 2 * hole + 2" using assms(3,4) by presburger
  then show ?thesis
    using cmp_le not_cmp_le le_trans by (auto simp: bigger_child_def Let_def)
qed

lemma move_hole_down:
  assumes "heap_hole le h xs" and c: "c < length xs" "0 < c" "(c - 1) div 2 = h"
    and max: "\<And>d. d < length xs \<Longrightarrow> 0 < d \<Longrightarrow> (d - 1) div 2 = h \<Longrightarrow> le (xs ! d) (xs ! c)"
  shows "heap_hole le c (xs[h := xs ! c])"
proof -
  let ?ys = "xs[h := xs ! c]"
  have h: "h < c" "h < length xs" using c by auto
  from assms(1) have
    ord: "\<And>i. i < length xs \<Longrightarrow> 0 < i \<Longrightarrow> i \<noteq> h \<Longrightarrow> (i - 1) div 2 \<noteq> h \<Longrightarrow> le (xs ! i) (xs ! ((i - 1) div 2))" and
    ch: "\<And>c. c < length xs \<Longrightarrow> 0 < c \<Longrightarrow> (c - 1) div 2 = h \<Longrightarrow> 0 < h \<Longrightarrow> le (xs ! c) (xs ! ((h - 1) div 2))"
    by (auto simp: heap_hole_def above_def)
  have "above le ?ys i" if i: "i < length xs" "0 < i" "i \<noteq> c" "(i - 1) div 2 \<noteq> c" for i
  proof (cases "i = h")
    case True
    then have "(i - 1) div 2 \<noteq> h" "h \<noteq> c" using i h by auto
    with True i h ch [OF c] show ?thesis by (auto simp: above_def nth_list_update)
  next
    case False
    then show ?thesis
      using i ord [of i] max [of i] h
      by (cases "(i - 1) div 2 = h") (auto simp: above_def nth_list_update)
  qed
  moreover have "le (?ys ! d) (?ys ! ((c - 1) div 2))"
    if d: "d < length xs" "0 < d" "(d - 1) div 2 = c" for d
  proof -
    have "?ys ! d = xs ! d" "?ys ! ((c - 1) div 2) = xs ! c" using d h c by auto
    moreover have "d \<noteq> h" "(d - 1) div 2 \<noteq> h" using d h by auto
    ultimately show ?thesis using ord [of d] d by simp
  qed
  ultimately show ?thesis
    unfolding heap_hole_def length_list_update using c(1) by blast
qed

lemma sift_down_heap:
  "heap_hole le hole xs \<Longrightarrow> sift_down cmp (length xs) hole xs = (h, ys) \<Longrightarrow>
   heap_hole le h ys \<and> below le v h ys"
proof (induction "length xs - hole" arbitrary: hole xs rule: less_induct)
  case less
  let ?len = "length xs"
  have hole: "hole < ?len" using less.prems(1) by (simp add: heap_hole_def)
  consider (inner) "hole < (?len - 1) div 2"
    | (last) "\<not> hole < (?len - 1) div 2" "even ?len \<and> hole = (?len - 2) div 2"
    | (leaf) "\<not> hole < (?len - 1) div 2" "\<not> (even ?len \<and> hole = (?len - 2) div 2)" by blast
  then show ?case
  proof cases
    case inner
    let ?c = "bigger_child cmp hole xs"
    have c: "?c < ?len" "0 < ?c" "(?c - 1) div 2 = hole" "hole < ?c"
      using inner bigger_child_cases [of cmp hole xs] by auto
    have "heap_hole le ?c (xs[hole := xs ! ?c])"
      using bigger_child_max [OF inner] by (intro move_hole_down less.prems c) blast
    moreover have "sift_down cmp ?len ?c (xs[hole := xs ! ?c]) = (h, ys)"
      using less.prems(2) by (simp add: sift_down_inner [OF inner])
    ultimately show ?thesis
      using less.hyps [of "xs[hole := xs ! ?c]" ?c] c hole by simp
  next
    case last
    with hole have c: "2 * hole + 1 < ?len" "2 * hole + 2 = ?len" by presburger+
    have only: "d = 2 * hole + 1" if "d < ?len" "0 < d" "(d - 1) div 2 = hole" for d
      using that c by presburger
    have "heap_hole le (2 * hole + 1) (xs[hole := xs ! (2 * hole + 1)])"
    proof (rule move_hole_down [OF less.prems(1) c(1)])
      fix d assume "d < ?len" "0 < d" "(d - 1) div 2 = hole"
      then have "d = 2 * hole + 1" by (rule only)
      then show "le (xs ! d) (xs ! (2 * hole + 1))"
        using cmp_le not_cmp_le by blast
    qed auto
    moreover have "h = 2 * hole + 1" "ys = xs[hole := xs ! (2 * hole + 1)]"
      using less.prems(2) sift_down_last [OF last, of cmp xs] by auto
    moreover have "below le v (2 * hole + 1) (xs[hole := xs ! (2 * hole + 1)])"
      using c by (auto simp: below_def)
    ultimately show ?thesis by simp
  next
    case leaf
    then have "h = hole" "ys = xs"
      using less.prems(2) by (simp_all add: sift_down_leaf [OF leaf])
    moreover have "\<not> (d < ?len \<and> 0 < d \<and> (d - 1) div 2 = hole)" for d
      using leaf by presburger
    ultimately show ?thesis using less.prems(1) by (auto simp: below_def)
  qed
qed

subsection \<open>Push and pop keep the order\<close>

text \<open>The order without the root: enough for \<open>pop\<close>, whose comparisons never look at the root.\<close>

lemma pop_heap_root:
  assumes "\<And>i. i < length xs \<Longrightarrow> 0 < i \<Longrightarrow> 0 < (i - 1) div 2 \<Longrightarrow> above le xs i"
  shows "is_heap le (pq_pop cmp xs)"
proof (cases "length xs \<le> 1")
  case True
  then show ?thesis by (simp add: pq_pop_def is_heap_def)
next
  case False
  let ?ys = "butlast xs"
  obtain h zs where sd: "sift_down cmp (length ?ys) 0 ?ys = (h, zs)" by fastforce
  have "heap_hole le 0 ?ys"
    using False assms by (auto simp: heap_hole_def above_def nth_butlast)
  from sift_down_heap [OF this sd] sd False show ?thesis
    by (simp add: pq_pop_def sift_up_heap)
qed

lemma pop_heap: "is_heap le xs \<Longrightarrow> is_heap le (pq_pop cmp xs)"
  by (rule pop_heap_root) (simp add: is_heap_def)

lemma push_heap: "is_heap le xs \<Longrightarrow> is_heap le (pq_push cmp x xs)"
  unfolding pq_push_def
proof (rule sift_up_heap)
  assume h: "is_heap le xs"
  have p: "(i - 1) div 2 < length xs" if "i < length xs" for i using that by auto
  show "heap_hole le (length xs) (xs @ [x])"
    using h p by (auto simp: heap_hole_def is_heap_def above_def nth_append less_Suc_eq)
  show "below le x (length xs) (xs @ [x])"
    by (auto simp: below_def)
qed

lemma heap_root_max: "is_heap le xs \<Longrightarrow> i < length xs \<Longrightarrow> le (xs ! i) (xs ! 0)"
proof (induction i rule: less_induct)
  case (less i)
  show ?case
  proof (cases "i = 0")
    case True
    then show ?thesis using cmp_le not_cmp_le by blast
  next
    case False
    then have "le (xs ! i) (xs ! ((i - 1) div 2))" "(i - 1) div 2 < i"
      using less.prems by (auto simp: is_heap_def above_def)
    with less show ?thesis by (meson le_trans order.strict_trans)
  qed
qed

sublocale pq: priority_queue "pq_push cmp" "pq_pop cmp" pq_top mset "is_heap le" le
proof unfold_locales
  fix x xs
  assume "is_heap le xs" "x \<in># mset xs"
  moreover from this(2) obtain i where "i < length xs" "x = xs ! i"
    by (auto simp: in_set_conv_nth)
  moreover from this have "pq_top xs = xs ! 0"
    by (cases xs) (auto simp: pq_top_def)
  ultimately show "le x (pq_top xs)" using heap_root_max by simp
qed (auto simp: mset_push push_heap mset_pop pop_heap)

end

end
