(* ===== verification/TaskPoolSpec.thy ===== *)
theory TaskPoolSpec
  imports Prelude
begin

text \<open>
  What a thread pool promises, without threads, queues or locks: a transition system whose labels are
  the submissions, takes and ends of tasks, and its traces.  The order in which tasks are taken is a
  parameter: \<open>fifo_take\<close> (the scaling pool) or \<open>least_take\<close> (the pool with a priority queue).  A machine
  refines it (locale \<open>task_pool_refinement\<close>) when each of its steps shows at most one label, and the
  labels are those its own logs of submitted and of ended tasks record, in the same order; both
  \<open>SingleThreadPool\<close> and \<open>ScalingThreadPool\<close> do.
\<close>

datatype 'x pool_label = Submit 'x | Take 'x | Finish 'x

record ('w, 'x) task_pool =
  tk_waiting :: 'w
  tk_running :: "'x multiset"

inductive pool_step :: "('x \<Rightarrow> 'w \<Rightarrow> 'w) \<Rightarrow> ('w \<Rightarrow> 'x \<Rightarrow> 'w \<Rightarrow> bool) \<Rightarrow>
    ('w, 'x) task_pool \<Rightarrow> 'x pool_label \<Rightarrow> ('w, 'x) task_pool \<Rightarrow> bool"
  for put :: "'x \<Rightarrow> 'w \<Rightarrow> 'w" and pick :: "'w \<Rightarrow> 'x \<Rightarrow> 'w \<Rightarrow> bool" where
  submit: "pool_step put pick \<lparr>tk_waiting = W, tk_running = R\<rparr> (Submit x) \<lparr>tk_waiting = put x W, tk_running = R\<rparr>"
| pick: "pick W x W' \<Longrightarrow>
    pool_step put pick \<lparr>tk_waiting = W, tk_running = R\<rparr> (Take x) \<lparr>tk_waiting = W', tk_running = add_mset x R\<rparr>"
| finish: "pool_step put pick \<lparr>tk_waiting = W, tk_running = add_mset x R\<rparr> (Finish x) \<lparr>tk_waiting = W, tk_running = R\<rparr>"

inductive_cases pool_step_SubmitE: "pool_step put pick p (Submit x) q"
inductive_cases pool_step_TakeE: "pool_step put pick p (Take x) q"
inductive_cases pool_step_FinishE: "pool_step put pick p (Finish x) q"

inductive pool_trace :: "('x \<Rightarrow> 'w \<Rightarrow> 'w) \<Rightarrow> ('w \<Rightarrow> 'x \<Rightarrow> 'w \<Rightarrow> bool) \<Rightarrow>
    ('w, 'x) task_pool \<Rightarrow> 'x pool_label list \<Rightarrow> ('w, 'x) task_pool \<Rightarrow> bool"
  for put :: "'x \<Rightarrow> 'w \<Rightarrow> 'w" and pick :: "'w \<Rightarrow> 'x \<Rightarrow> 'w \<Rightarrow> bool" and p :: "('w, 'x) task_pool" where
  trace_nil: "pool_trace put pick p [] p"
| trace_snoc: "pool_trace put pick p tr q \<Longrightarrow> pool_step put pick q l r \<Longrightarrow> pool_trace put pick p (tr @ [l]) r"

text \<open>The two orders: the oldest task, and a task that may come before all the others.\<close>

definition fifo_put :: "'x \<Rightarrow> 'x list \<Rightarrow> 'x list" where
  "fifo_put x W = W @ [x]"

definition fifo_take :: "'x list \<Rightarrow> 'x \<Rightarrow> 'x list \<Rightarrow> bool" where
  "fifo_take W x W' \<longleftrightarrow> W = x # W'"

definition least_take :: "('x \<Rightarrow> 'x \<Rightarrow> bool) \<Rightarrow> 'x multiset \<Rightarrow> 'x \<Rightarrow> 'x multiset \<Rightarrow> bool" where
  "least_take before W x W' \<longleftrightarrow> W = add_mset x W' \<and> (\<forall>y \<in># W'. before x y)"

section \<open>What a trace says\<close>

fun submissions :: "'x pool_label list \<Rightarrow> 'x list" where
  "submissions [] = []"
| "submissions (Submit x # tr) = x # submissions tr"
| "submissions (_ # tr) = submissions tr"

fun takes :: "'x pool_label list \<Rightarrow> 'x list" where
  "takes [] = []"
| "takes (Take x # tr) = x # takes tr"
| "takes (_ # tr) = takes tr"

fun finishes :: "'x pool_label list \<Rightarrow> 'x list" where
  "finishes [] = []"
| "finishes (Finish x # tr) = x # finishes tr"
| "finishes (_ # tr) = finishes tr"

lemma submissions_append [simp]: "submissions (tr @ tr') = submissions tr @ submissions tr'"
  by (induction tr rule: submissions.induct) simp_all

lemma takes_append [simp]: "takes (tr @ tr') = takes tr @ takes tr'"
  by (induction tr rule: takes.induct) simp_all

lemma finishes_append [simp]: "finishes (tr @ tr') = finishes tr @ finishes tr'"
  by (induction tr rule: finishes.induct) simp_all

lemma pool_trace_append:
  "pool_trace put pick p tr q \<Longrightarrow> pool_trace put pick q tr' r \<Longrightarrow> pool_trace put pick p (tr @ tr') r"
  by (rotate_tac, induction rule: pool_trace.induct) (auto intro: pool_trace.intros simp flip: append_assoc)

text \<open>A task ends as often as it is taken, except while it runs.\<close>

lemma pool_trace_running:
  "pool_trace put pick p tr q \<Longrightarrow> tk_running p + mset (takes tr) = tk_running q + mset (finishes tr)"
  by (induction rule: pool_trace.induct) (auto elim!: pool_step.cases)

text \<open>In the first order tasks are taken in the order of their submission, each once.\<close>

lemma fifo_trace:
  "pool_trace fifo_put fifo_take p tr q \<Longrightarrow> tk_waiting p @ submissions tr = takes tr @ tk_waiting q"
  by (induction rule: pool_trace.induct) (auto elim!: pool_step.cases simp: fifo_put_def fifo_take_def)

text \<open>In the second, each is taken once.\<close>

lemma least_trace:
  "pool_trace add_mset (least_take before) p tr q \<Longrightarrow>
     tk_waiting p + mset (submissions tr) = tk_waiting q + mset (takes tr)"
  by (induction rule: pool_trace.induct) (auto elim!: pool_step.cases simp: least_take_def)

text \<open>The form in which the machines show their steps.\<close>

lemma pool_label_cases:
  assumes "W' = W \<and> R' = R \<and> S' = S \<and> F' = F
    \<or> (\<exists>x. W' = put x W \<and> R' = R \<and> S' = S @ [x] \<and> F' = F)
    \<or> (\<exists>x. pick W x W' \<and> R' = add_mset x R \<and> S' = S \<and> F' = F)
    \<or> (\<exists>x. W' = W \<and> R = add_mset x R' \<and> S' = S \<and> F' = F @ [x])"
  shows "\<exists>tr. pool_trace put pick \<lparr>tk_waiting = W, tk_running = R\<rparr> tr \<lparr>tk_waiting = W', tk_running = R'\<rparr> \<and>
    length tr \<le> 1 \<and> S' = S @ submissions tr \<and> F' = F @ finishes tr"
proof -
  have one: "pool_trace put pick p [l] q" if "pool_step put pick p l q" for p l q
    using pool_trace.intros(2) [OF pool_trace.intros(1) that] by simp
  from assms consider "W' = W" "R' = R" "S' = S" "F' = F"
    | x where "W' = put x W" "R' = R" "S' = S @ [x]" "F' = F"
    | x where "pick W x W'" "R' = add_mset x R" "S' = S" "F' = F"
    | x where "W' = W" "R = add_mset x R'" "S' = S" "F' = F @ [x]" by blast
  then show ?thesis
  proof cases
    case 1
    then show ?thesis by (intro exI [of _ "[]"]) (simp add: trace_nil)
  next
    case (2 x)
    then show ?thesis by (intro exI [of _ "[Submit x]"]) (simp add: one pool_step.submit)
  next
    case (3 x)
    then show ?thesis by (intro exI [of _ "[Take x]"]) (simp add: one pool_step.pick)
  next
    case (4 x)
    then show ?thesis by (intro exI [of _ "[Finish x]"]) (simp add: one pool_step.finish)
  qed
qed

section \<open>Refinement\<close>

text \<open>\<open>pool_run\<close>: the labels that lead from one state to another, read off the logs of the machine.\<close>

definition pool_run :: "('x \<Rightarrow> 'w \<Rightarrow> 'w) \<Rightarrow> ('w \<Rightarrow> 'x \<Rightarrow> 'w \<Rightarrow> bool) \<Rightarrow>
    ('w, 'x) task_pool \<Rightarrow> 'x list \<Rightarrow> 'x list \<Rightarrow> ('w, 'x) task_pool \<Rightarrow> 'x list \<Rightarrow> 'x list \<Rightarrow> bool" where
  "pool_run put pick p S F q S' F' \<longleftrightarrow>
     (\<exists>tr. pool_trace put pick p tr q \<and> S' = S @ submissions tr \<and> F' = F @ finishes tr)"

lemma pool_run_refl: "pool_run put pick p S F p S F"
  unfolding pool_run_def by (rule exI [of _ "[]"]) (simp add: trace_nil)

lemma pool_run_trans:
  assumes "pool_run put pick p S F q S' F'" and "pool_run put pick q S' F' r S'' F''"
  shows "pool_run put pick p S F r S'' F''"
proof -
  from assms obtain tr tr' where "pool_trace put pick p tr q" "S' = S @ submissions tr" "F' = F @ finishes tr"
    "pool_trace put pick q tr' r" "S'' = S' @ submissions tr'" "F'' = F' @ finishes tr'"
    unfolding pool_run_def by blast
  then show ?thesis unfolding pool_run_def by (intro exI [of _ "tr @ tr'"]) (auto intro: pool_trace_append)
qed

lemma pool_runs_traces:
  assumes "pool_run put pick p [] [] q S F" and "pool_run put pick q S F r S' F'"
  shows "\<exists>tr tr'. pool_trace put pick p tr q \<and> pool_trace put pick q tr' r \<and>
    submissions tr = S \<and> finishes tr = F \<and> submissions (tr @ tr') = S' \<and> finishes (tr @ tr') = F'"
proof -
  from assms obtain tr tr' where "pool_trace put pick p tr q" "S = submissions tr" "F = finishes tr"
    "pool_trace put pick q tr' r" "S' = S @ submissions tr'" "F' = F @ finishes tr'"
    unfolding pool_run_def by auto
  then show ?thesis by (intro exI [of _ tr] exI [of _ tr']) simp
qed

locale task_pool_refinement = machine_invariant M init Inv
  for M :: "('s, 'k, 'e) machine"
    and init :: "('s, 'k) config \<Rightarrow> bool"
    and Inv :: "'s \<Rightarrow> (tid \<Rightarrow> 'k) \<Rightarrow> bool" +
  fixes put :: "'x \<Rightarrow> 'w \<Rightarrow> 'w"
    and pick :: "'w \<Rightarrow> 'x \<Rightarrow> 'w \<Rightarrow> bool"
    and none :: 'w
    and abs :: "'s \<Rightarrow> (tid \<Rightarrow> 'k) \<Rightarrow> ('w, 'x) task_pool"
    and submitted :: "'s \<Rightarrow> 'x list"
    and ended :: "'s \<Rightarrow> 'x list"
  assumes abs_init: "init (s, pc) \<Longrightarrow> abs s pc = \<lparr>tk_waiting = none, tk_running = {#}\<rparr> \<and> submitted s = [] \<and> ended s = []"
    and abs_act: "Inv s pc \<Longrightarrow> \<not> waiting M s t \<Longrightarrow> act M e t (pc t) s = Some (k, s') \<Longrightarrow>
      \<exists>tr. pool_trace put pick (abs s pc) tr (abs s' (pc(t := k))) \<and> length tr \<le> 1 \<and>
        submitted s' = submitted s @ submissions tr \<and> ended s' = ended s @ finishes tr"
    and abs_unwait: "Inv s pc \<Longrightarrow> waiting M s t \<Longrightarrow>
      abs (unwait M t s) pc = abs s pc \<and> submitted (unwait M t s) = submitted s \<and> ended (unwait M t s) = ended s"
    and abs_timeout: "Inv s pc \<Longrightarrow> waiting M s t \<Longrightarrow> expire M (pc t) = Some k \<Longrightarrow>
      abs (unwait M t s) (pc(t := k)) = abs s pc"
begin

lemma abs_step:
  assumes "step M (s, pc) (s', pc')" and "Inv s pc"
  shows "pool_run put pick (abs s pc) (submitted s) (ended s) (abs s' pc') (submitted s') (ended s')"
  using assms(1)
proof (cases rule: step.cases)
  case (step_act t e k)
  with abs_act [OF assms(2)] show ?thesis unfolding pool_run_def by blast
next
  case (step_wakeup t)
  with abs_unwait [OF assms(2)] show ?thesis by (simp add: pool_run_refl)
next
  case (step_timeout t k)
  with abs_timeout [OF assms(2)] abs_unwait [OF assms(2)] show ?thesis by (simp add: pool_run_refl)
qed

lemma abs_future:
  assumes "reachable M (\<lambda>c. c = (s, pc)) (s', pc')" and "Inv s pc"
  shows "Inv s' pc' \<and> pool_run put pick (abs s pc) (submitted s) (ended s) (abs s' pc') (submitted s') (ended s')"
  using assms
proof (induction "(s', pc')" arbitrary: s' pc' rule: reachable.induct)
  case reach_init
  then show ?case by (simp add: pool_run_refl)
next
  case (reach_step c)
  obtain s1 pc1 where c: "c = (s1, pc1)" by (cases c)
  with reach_step have run: "Inv s1 pc1"
    "pool_run put pick (abs s pc) (submitted s) (ended s) (abs s1 pc1) (submitted s1) (ended s1)" by auto
  moreover have st: "step M (s1, pc1) (s', pc')" using reach_step(3) c by simp
  ultimately show ?case using abs_step [OF st run(1)] step_inv [OF st run(1)] pool_run_trans by blast
qed

lemma abs_reachable:
  assumes "reachable M init (s, pc)"
  shows "pool_run put pick \<lparr>tk_waiting = none, tk_running = {#}\<rparr> [] [] (abs s pc) (submitted s) (ended s)"
  using assms
proof (induction "(s, pc)" arbitrary: s pc rule: reachable.induct)
  case reach_init
  then show ?case using abs_init pool_run_refl [of put pick _ "[]" "[]"] by metis
next
  case (reach_step c)
  obtain s1 pc1 where c: "c = (s1, pc1)" by (cases c)
  with reach_step have run: "Inv s1 pc1"
    "pool_run put pick \<lparr>tk_waiting = none, tk_running = {#}\<rparr> [] [] (abs s1 pc1) (submitted s1) (ended s1)"
    by (auto intro: reachable_inv)
  moreover have st: "step M (s1, pc1) (s, pc)" using reach_step(3) c by simp
  ultimately show ?case using abs_step [OF st run(1)] pool_run_trans by blast
qed

end

end
