(* ===== verification/SingleThreadPool.thy ===== *)
theory SingleThreadPool
  imports CloseableThread PriorityQueue TaskBase TaskPoolSpec
begin

text \<open>
  The pool with one thread: \<open>include/empool/SingleThreadPool.h\<close>, \<open>src/SingleThreadPool.cpp\<close>.
  Its queue is a \<open>std::priority_queue\<close> of tasks with a \<open>long\<close> key; the run mode selects the
  comparison function.  The pool is modelled together with its \<open>CloseableThread\<close>, any number of
  threads that add tasks, and any number that shut it down.
\<close>

section \<open>Tasks and their order\<close>

datatype 'f priority_task =
    EndPriorityTask (m_priority: int)
  | PriorityFunctorTask (m_functor: 'f) (m_priority: int)

fun SetPriorityValue :: "int \<Rightarrow> 'f priority_task \<Rightarrow> 'f priority_task" where
  "SetPriorityValue p (EndPriorityTask _) = EndPriorityTask p"
| "SetPriorityValue p (PriorityFunctorTask f _) = PriorityFunctorTask f p"

definition GetPriorityValue :: "'f priority_task \<Rightarrow> int" where
  "GetPriorityValue x = m_priority x"

text \<open>The constructor of \<open>PriorityTask\<close> sets the priority to 0.\<close>

definition EndPriorityTask_ctor :: "'f priority_task" where
  "EndPriorityTask_ctor = EndPriorityTask 0"

definition MakePriorityFunctorTask :: "'f \<Rightarrow> int \<Rightarrow> 'f priority_task" where
  "MakePriorityFunctorTask f priority = SetPriorityValue priority (PriorityFunctorTask f 0)"

definition CompareFuncGreater :: "'f priority_task \<Rightarrow> 'f priority_task \<Rightarrow> bool" where
  "CompareFuncGreater l r \<longleftrightarrow> GetPriorityValue l > GetPriorityValue r"

definition CompareFuncLesser :: "'f priority_task \<Rightarrow> 'f priority_task \<Rightarrow> bool" where
  "CompareFuncLesser l r \<longleftrightarrow> \<not> CompareFuncGreater l r"

lemma MakePriorityFunctorTask_simp [simp]:
  "MakePriorityFunctorTask f p = PriorityFunctorTask f p"
  by (simp add: MakePriorityFunctorTask_def)

text \<open>
  \<open>lower_greater x y\<close>: \<open>y\<close> may stand above \<open>x\<close> in the FIFO and PRIORITY queue; the LIFO queue has
  the converse order.  Both comparison functions satisfy the contract of the heap, although the
  second one is not the strict order that \<open>std::priority_queue\<close> asks for.
\<close>

definition lower_greater :: "'f priority_task \<Rightarrow> 'f priority_task \<Rightarrow> bool" where
  "lower_greater x y \<longleftrightarrow> GetPriorityValue y \<le> GetPriorityValue x"

definition lower_lesser :: "'f priority_task \<Rightarrow> 'f priority_task \<Rightarrow> bool" where
  "lower_lesser x y \<longleftrightarrow> GetPriorityValue x \<le> GetPriorityValue y"

interpretation greater: heap_order CompareFuncGreater lower_greater
  by unfold_locales (auto simp: CompareFuncGreater_def lower_greater_def)

interpretation lesser: heap_order CompareFuncLesser lower_lesser
  by unfold_locales (auto simp: CompareFuncLesser_def CompareFuncGreater_def lower_lesser_def)

section \<open>The pool\<close>

datatype run_mode = FIFO | LIFO | PRIORITY

datatype pool_state = Pool_INIT | Pool_RUNNING | Pool_STOP | Pool_SHUTDOWN

record 'f single_pool =
  sp_state :: pool_state
  sp_runMode :: run_mode
  sp_isRequestShutDown :: bool
  sp_stateCond :: condition_variable
  sp_mutexCond :: condition_variable
  sp_taskQueueGreater :: "'f priority_task list"
  sp_taskQueueLesser :: "'f priority_task list"
  sp_thread :: closeable_thread

text \<open>The initialisers, the creation of the thread and \<open>SetState(RUNNING)\<close>.\<close>

definition SingleThreadPool_ctor :: "run_mode \<Rightarrow> mutex \<Rightarrow> 'f single_pool" where
  "SingleThreadPool_ctor mode m =
     (let p = \<lparr>sp_state = Pool_INIT, sp_runMode = mode, sp_isRequestShutDown = False,
               sp_stateCond = ConditionVariable_ctor m, sp_mutexCond = ConditionVariable_ctor m,
               sp_taskQueueGreater = [], sp_taskQueueLesser = [],
               sp_thread = CloseableThread_ctor m\<rparr>
      in p\<lparr>sp_state := Pool_RUNNING\<rparr>)"

definition SingleThreadPool_SetState :: "tid \<Rightarrow> pool_state \<Rightarrow> 'f single_pool \<Rightarrow> 'f single_pool option" where
  "SingleThreadPool_SetState t st p =
     do { c \<leftarrow> CV_Scope t (sp_stateCond p); Some (p\<lparr>sp_state := st, sp_stateCond := c\<rparr>) }"

definition SingleThreadPool_DoIsShutDown :: "'f single_pool \<Rightarrow> bool" where
  "SingleThreadPool_DoIsShutDown p \<longleftrightarrow> sp_state p = Pool_SHUTDOWN"

definition SingleThreadPool_IsShutDown :: "tid \<Rightarrow> 'f single_pool \<Rightarrow> (bool \<times> 'f single_pool) option" where
  "SingleThreadPool_IsShutDown t p =
     do { c \<leftarrow> CV_Scope t (sp_stateCond p);
          Some (SingleThreadPool_DoIsShutDown p, p\<lparr>sp_stateCond := c\<rparr>) }"

definition SingleThreadPool_GetThreadNum :: "'f single_pool \<Rightarrow> nat" where
  "SingleThreadPool_GetThreadNum p = 1"

definition SingleThreadPool_CheckIsRequestShutDown :: "'f single_pool \<Rightarrow> bool" where
  "SingleThreadPool_CheckIsRequestShutDown p = sp_isRequestShutDown p"

definition SingleThreadPool_Empty :: "'f single_pool \<Rightarrow> bool" where
  "SingleThreadPool_Empty p \<longleftrightarrow>
     (if sp_runMode p = LIFO then sp_taskQueueLesser p = [] else sp_taskQueueGreater p = [])"

definition push_queue :: "'f priority_task \<Rightarrow> 'f single_pool \<Rightarrow> 'f single_pool" where
  "push_queue x p =
     (if sp_runMode p = LIFO
      then p\<lparr>sp_taskQueueLesser := pq_push CompareFuncLesser x (sp_taskQueueLesser p)\<rparr>
      else p\<lparr>sp_taskQueueGreater := pq_push CompareFuncGreater x (sp_taskQueueGreater p)\<rparr>)"

definition top_queue :: "'f single_pool \<Rightarrow> 'f priority_task" where
  "top_queue p =
     (if sp_runMode p = LIFO then pq_top (sp_taskQueueLesser p) else pq_top (sp_taskQueueGreater p))"

definition pop_queue :: "'f single_pool \<Rightarrow> 'f single_pool" where
  "pop_queue p =
     (if sp_runMode p = LIFO
      then p\<lparr>sp_taskQueueLesser := pq_pop CompareFuncLesser (sp_taskQueueLesser p)\<rparr>
      else p\<lparr>sp_taskQueueGreater := pq_pop CompareFuncGreater (sp_taskQueueGreater p)\<rparr>)"

definition SingleThreadPool_PushTask :: "tid \<Rightarrow> nat \<Rightarrow> 'f priority_task \<Rightarrow> 'f single_pool \<Rightarrow>
    'f single_pool option" where
  "SingleThreadPool_PushTask t n task p =
     do { l \<leftarrow> ConditionNotifyLocker t n (SingleThreadPool_Empty p) (sp_mutexCond p);
          Some ((push_queue task p)\<lparr>sp_mutexCond := ConditionNotifyLocker_dtor l\<rparr>) }"

definition SingleThreadPool_GetTask :: "tid \<Rightarrow> 'f single_pool \<Rightarrow>
    ('f priority_task attempt \<times> 'f single_pool) option" where
  "SingleThreadPool_GetTask t p =
     do { (slept, l) \<leftarrow> ConditionWaitLocker t (SingleThreadPool_Empty p) (sp_mutexCond p);
          Some (if slept then (Slept, p\<lparr>sp_mutexCond := l\<rparr>)
                else (Returned (top_queue p),
                      (pop_queue p)\<lparr>sp_mutexCond := ConditionWaitLocker_dtor l\<rparr>)) }"

definition SingleThreadPool_NotifyWhenThreadStop :: "tid \<Rightarrow> nat \<Rightarrow> 'f single_pool \<Rightarrow>
    'f single_pool option" where
  "SingleThreadPool_NotifyWhenThreadStop t n p =
     do { l \<leftarrow> ConditionNotifyLocker t n (SingleThreadPool_CheckIsRequestShutDown p) (sp_stateCond p);
          Some (p\<lparr>sp_stateCond := ConditionNotifyLocker_dtor l\<rparr>) }"

subsection \<open>The queue of the pool\<close>

definition pool_queue :: "'f single_pool \<Rightarrow> 'f priority_task list" where
  "pool_queue p = (if sp_runMode p = LIFO then sp_taskQueueLesser p else sp_taskQueueGreater p)"

definition pool_lower :: "run_mode \<Rightarrow> 'f priority_task \<Rightarrow> 'f priority_task \<Rightarrow> bool" where
  "pool_lower mode = (if mode = LIFO then lower_lesser else lower_greater)"

definition pool_heap :: "run_mode \<Rightarrow> 'f single_pool \<Rightarrow> bool" where
  "pool_heap mode p \<longleftrightarrow> sp_runMode p = mode \<and> is_heap (pool_lower mode) (pool_queue p)"

lemma queue_fields [sync]:
  "sp_runMode (push_queue x p) = sp_runMode p" "sp_runMode (pop_queue p) = sp_runMode p"
  "sp_mutexCond (push_queue x p) = sp_mutexCond p" "sp_mutexCond (pop_queue p) = sp_mutexCond p"
  "sp_stateCond (push_queue x p) = sp_stateCond p" "sp_stateCond (pop_queue p) = sp_stateCond p"
  "sp_state (push_queue x p) = sp_state p" "sp_state (pop_queue p) = sp_state p"
  "sp_thread (push_queue x p) = sp_thread p" "sp_thread (pop_queue p) = sp_thread p"
  "sp_isRequestShutDown (push_queue x p) = sp_isRequestShutDown p"
  "sp_isRequestShutDown (pop_queue p) = sp_isRequestShutDown p"
  by (simp_all add: push_queue_def pop_queue_def)

lemma pool_queue_upd [sync]:
  "pool_queue (p\<lparr>sp_state := a\<rparr>) = pool_queue p" "pool_queue (p\<lparr>sp_mutexCond := c\<rparr>) = pool_queue p"
  "pool_queue (p\<lparr>sp_stateCond := c\<rparr>) = pool_queue p" "pool_queue (p\<lparr>sp_thread := h\<rparr>) = pool_queue p"
  "pool_queue (p\<lparr>sp_isRequestShutDown := b\<rparr>) = pool_queue p"
  by (simp_all add: pool_queue_def)

lemma empty_pool_queue [sync]: "SingleThreadPool_Empty p \<longleftrightarrow> pool_queue p = []"
  by (simp add: SingleThreadPool_Empty_def pool_queue_def)

text \<open>The queue of the pool, in its run mode, is a priority queue.\<close>

interpretation pool_pq: priority_queue push_queue pop_queue top_queue "\<lambda>p. mset (pool_queue p)"
    "pool_heap mode" "pool_lower mode" for mode
proof (unfold_locales, goal_cases)
  case (1 x q)
  then show ?case
    by (simp add: pool_queue_def push_queue_def lesser.pq.push_elems greater.pq.push_elems)
next
  case (2 q x)
  then show ?case
    by (auto simp: pool_heap_def pool_lower_def pool_queue_def push_queue_def
        intro: lesser.push_heap greater.push_heap)
next
  case (3 q)
  then show ?case
    by (auto simp: pool_queue_def pop_queue_def top_queue_def mset_pop)
next
  case (4 q)
  then show ?case
    by (auto simp: pool_heap_def pool_lower_def pool_queue_def pop_queue_def
        intro: lesser.pop_heap greater.pop_heap)
next
  case (5 q x)
  then show ?case
    using lesser.pq.top_max [of "sp_taskQueueLesser q" x] greater.pq.top_max [of "sp_taskQueueGreater q" x]
    by (auto simp: pool_heap_def pool_lower_def pool_queue_def top_queue_def)
qed

section \<open>The pool with its thread and its clients\<close>

text \<open>
  Thread 0 is the pool's thread: \<open>CloseableThread::ThreadFunction\<close> around
  \<open>SingleThreadPool::ThreadFunction\<close>, whose loop is \<open>SW_Check\<close> (the check function), \<open>SW_Get\<close>,
  \<open>SW_Run\<close>; the finish action is \<open>SW_SetShutDown\<close>, \<open>SW_NotifyPool\<close>.  A task that throws an
  exception other than a cancellation takes the thread out through \<open>Thread::ThreadFunction\<close>
  (\<open>SW_Threw\<close>).  The other threads are clients; \<open>S_Added b\<close> is an \<open>AddTask\<close> that returned a task
  (\<open>b\<close>) or null.  \<open>now\<close> distinguishes \<open>ShutDownNow\<close> from \<open>ShutDown\<close>.  Of an event
  \<open>S_Step n spurious\<close>, \<open>n\<close> is the waiter a signal picks and \<open>spurious\<close> whether a weak exchange fails.
\<close>

datatype 'f worker_pc =
    SW_Start | SW_Check0 | SW_Check | SW_Get | SW_Run "'f priority_task"
  | SW_SetShutDown | SW_NotifyPool | SW_SetFinished | SW_NotifyClosed | SW_Done | SW_Threw

datatype 'f client_pc =
    S_Idle | S_Load 'f int | S_Push 'f int | S_Added bool
  | S_ShutDown bool | S_SetStop bool | S_AsyncClose bool | S_PushEnd bool
  | S_WaitShut | S_ShutReturned bool

datatype 'f single_pc = Worker "'f worker_pc" | Client "'f client_pc"

datatype 'f single_ev = CallAdd 'f int | CallAddPriority 'f int | CallShutDown bool
  | S_Step nat bool | TaskThrows

text \<open>The logs of tasks pushed and of tasks run belong to the proof, not to the program.\<close>

record 'f single_sys =
  ss_pool :: "'f single_pool"
  ss_pushed :: "'f priority_task list"
  ss_ran :: "'f priority_task list"

fun SingleThreadPool_ThreadFunction :: "tid \<Rightarrow> 'f worker_pc \<Rightarrow> 'f single_sys \<Rightarrow>
    ('f worker_pc \<times> 'f single_sys) option" where
  "SingleThreadPool_ThreadFunction t SW_Check s =
     (case CheckIsRequestClose (sp_thread (ss_pool s)) of
        Inl _ \<Rightarrow> Some (SW_SetShutDown, s) | Inr _ \<Rightarrow> Some (SW_Get, s))"
| "SingleThreadPool_ThreadFunction t SW_Get s =
     do { (res, p) \<leftarrow> SingleThreadPool_GetTask t (ss_pool s);
          Some (case res of
                  Slept \<Rightarrow> (SW_Get, s\<lparr>ss_pool := p\<rparr>)
                | Returned runTask \<Rightarrow>
                    (case runTask of
                       EndPriorityTask _ \<Rightarrow> (SW_SetShutDown, s\<lparr>ss_pool := p\<rparr>)
                     | PriorityFunctorTask _ _ \<Rightarrow> (SW_Run runTask, s\<lparr>ss_pool := p\<rparr>))) }"
| "SingleThreadPool_ThreadFunction t (SW_Run runTask) s =
     Some (SW_Check, s\<lparr>ss_ran := ss_ran s @ [runTask]\<rparr>)"
| "SingleThreadPool_ThreadFunction _ _ _ = None"

fun single_worker :: "nat \<Rightarrow> tid \<Rightarrow> 'f worker_pc \<Rightarrow> 'f single_pool \<Rightarrow>
    ('f worker_pc \<times> 'f single_pool) option" where
  "single_worker n t SW_Start p =
     Some (SW_Check0, p\<lparr>sp_thread := CloseableThread_SetState Thread_RUNNING (sp_thread p)\<rparr>)"
| "single_worker n t SW_Check0 p =
     (case CheckIsRequestClose (sp_thread p) of Inl _ \<Rightarrow> Some (SW_SetShutDown, p) | Inr _ \<Rightarrow> Some (SW_Check, p))"
| "single_worker n t SW_SetShutDown p =
     do { p' \<leftarrow> SingleThreadPool_SetState t Pool_SHUTDOWN p; Some (SW_NotifyPool, p') }"
| "single_worker n t SW_NotifyPool p =
     do { p' \<leftarrow> SingleThreadPool_NotifyWhenThreadStop t n p; Some (SW_SetFinished, p') }"
| "single_worker n t SW_SetFinished p =
     Some (SW_NotifyClosed, p\<lparr>sp_thread := CloseableThread_SetState Thread_FINISHED (sp_thread p)\<rparr>)"
| "single_worker n t SW_NotifyClosed p =
     do { ct \<leftarrow> CloseableThread_NotifyFinished_notify t (sp_thread p); Some (SW_Done, p\<lparr>sp_thread := ct\<rparr>) }"
| "single_worker _ _ _ _ = None"

text \<open>\<open>ShutDown\<close> and, for \<open>now\<close>, \<open>ShutDownNow\<close>; \<open>S_WaitShut\<close> is the wait of the latter.\<close>

fun SingleThreadPool_ShutDown :: "nat \<Rightarrow> bool \<Rightarrow> tid \<Rightarrow> 'f client_pc \<Rightarrow> 'f single_sys \<Rightarrow>
    ('f client_pc \<times> 'f single_sys) option" where
  "SingleThreadPool_ShutDown n sp t (S_ShutDown now) s =
     (case compare_exchange_weak sp False True (sp_isRequestShutDown (ss_pool s)) of
        (won, v) \<Rightarrow> Some (if won then S_SetStop now else if now then S_WaitShut else S_ShutReturned False,
                         s\<lparr>ss_pool := (ss_pool s)\<lparr>sp_isRequestShutDown := v\<rparr>\<rparr>))"
| "SingleThreadPool_ShutDown n sp t (S_SetStop now) s =
     do { p \<leftarrow> SingleThreadPool_SetState t Pool_STOP (ss_pool s); Some (S_AsyncClose now, s\<lparr>ss_pool := p\<rparr>) }"
| "SingleThreadPool_ShutDown n sp t (S_AsyncClose now) s =
     Some (S_PushEnd now, s\<lparr>ss_pool := (ss_pool s)
       \<lparr>sp_thread := CloseableThread_AsyncClose sp (sp_thread (ss_pool s))\<rparr>\<rparr>)"
| "SingleThreadPool_ShutDown n sp t (S_PushEnd now) s =
     do { p \<leftarrow> SingleThreadPool_PushTask t n EndPriorityTask_ctor (ss_pool s);
          Some (if now then S_WaitShut else S_ShutReturned False,
                s\<lparr>ss_pool := p, ss_pushed := ss_pushed s @ [EndPriorityTask_ctor]\<rparr>) }"
| "SingleThreadPool_ShutDown n sp t S_WaitShut s =
     do { (slept, l) \<leftarrow> ConditionWaitLocker t (\<not> SingleThreadPool_DoIsShutDown (ss_pool s))
                        (sp_stateCond (ss_pool s));
          Some (if slept then (S_WaitShut, s\<lparr>ss_pool := (ss_pool s)\<lparr>sp_stateCond := l\<rparr>\<rparr>)
                else (S_ShutReturned True,
                      s\<lparr>ss_pool := (ss_pool s)\<lparr>sp_stateCond := ConditionWaitLocker_dtor l\<rparr>\<rparr>)) }"
| "SingleThreadPool_ShutDown _ _ _ _ _ = None"

fun SingleThreadPool_DoAddTask :: "nat \<Rightarrow> tid \<Rightarrow> 'f client_pc \<Rightarrow> 'f single_sys \<Rightarrow>
    ('f client_pc \<times> 'f single_sys) option" where
  "SingleThreadPool_DoAddTask n t (S_Load f priority) s =
     Some (if sp_isRequestShutDown (ss_pool s) then S_Added False else S_Push f priority, s)"
| "SingleThreadPool_DoAddTask n t (S_Push f priority) s =
     do { p \<leftarrow> SingleThreadPool_PushTask t n (MakePriorityFunctorTask f priority) (ss_pool s);
          Some (S_Added True,
                s\<lparr>ss_pool := p, ss_pushed := ss_pushed s @ [MakePriorityFunctorTask f priority]\<rparr>) }"
| "SingleThreadPool_DoAddTask _ _ _ _ = None"

text \<open>\<open>AddTask(f)\<close> takes the current second for the priority, here an argument of the event.\<close>

definition client_ready :: "'f client_pc \<Rightarrow> bool" where
  "client_ready c \<longleftrightarrow> (case c of S_Idle \<Rightarrow> True | S_Added _ \<Rightarrow> True | S_ShutReturned _ \<Rightarrow> True | _ \<Rightarrow> False)"

definition single_act :: "'f single_ev \<Rightarrow> tid \<Rightarrow> 'f single_pc \<Rightarrow> 'f single_sys \<Rightarrow>
    ('f single_pc \<times> 'f single_sys) option" where
  "single_act e t k s =
     (case k of
        Client c \<Rightarrow>
          (case e of
             CallAdd f now_seconds \<Rightarrow> if client_ready c then Some (Client (S_Load f now_seconds), s) else None
           | CallAddPriority f priority \<Rightarrow> if client_ready c then Some (Client (S_Load f priority), s) else None
           | CallShutDown now \<Rightarrow> if client_ready c then Some (Client (S_ShutDown now), s) else None
           | S_Step n sp \<Rightarrow>
               (case SingleThreadPool_DoAddTask n t c s of Some (c', s') \<Rightarrow> Some (Client c', s') | None \<Rightarrow>
               (case SingleThreadPool_ShutDown n sp t c s of Some (c', s') \<Rightarrow> Some (Client c', s') | None \<Rightarrow> None))
           | TaskThrows \<Rightarrow> None)
      | Worker w \<Rightarrow>
          (case e of
             TaskThrows \<Rightarrow>
               (case w of SW_Run runTask \<Rightarrow> Some (Worker SW_Threw, s\<lparr>ss_ran := ss_ran s @ [runTask]\<rparr>) | _ \<Rightarrow> None)
           | S_Step n sp \<Rightarrow>
               (case SingleThreadPool_ThreadFunction t w s of Some (w', s') \<Rightarrow> Some (Worker w', s') | None \<Rightarrow>
               (case single_worker n t w (ss_pool s) of
                  Some (w', p) \<Rightarrow> Some (Worker w', s\<lparr>ss_pool := p\<rparr>) | None \<Rightarrow> None))
           | _ \<Rightarrow> None))"

definition single_unwait :: "tid \<Rightarrow> 'f single_sys \<Rightarrow> 'f single_sys" where
  "single_unwait t s = s\<lparr>ss_pool := (ss_pool s)
     \<lparr>sp_stateCond := cv_unwait t (sp_stateCond (ss_pool s)),
      sp_mutexCond := cv_unwait t (sp_mutexCond (ss_pool s))\<rparr>\<rparr>"

definition single_machine :: "('f single_sys, 'f single_pc, 'f single_ev) machine" where
  "single_machine = \<lparr>act = single_act,
     waiting = (\<lambda>s t. cv_waiting (sp_stateCond (ss_pool s)) t \<or> cv_waiting (sp_mutexCond (ss_pool s)) t),
     unwait = single_unwait, expire = (\<lambda>_. None)\<rparr>"

definition single_start :: "run_mode \<Rightarrow> ('f single_sys, 'f single_pc) config" where
  "single_start mode = (\<lparr>ss_pool = SingleThreadPool_ctor mode \<lparr>m_isInit = True, m_owner = None\<rparr>,
     ss_pushed = [], ss_ran = []\<rparr>, \<lambda>t. if t = 0 then Worker SW_Start else Client S_Idle)"

section \<open>The effects of one action\<close>

abbreviation pool_thread :: "('f single_sys) \<Rightarrow> closeable_thread" where
  "pool_thread s \<equiv> sp_thread (ss_pool s)"

abbreviation upd_pool :: "('f single_pool \<Rightarrow> 'f single_pool) \<Rightarrow> 'f single_sys \<Rightarrow> 'f single_sys" where
  "upd_pool f s \<equiv> s\<lparr>ss_pool := f (ss_pool s)\<rparr>"

inductive worker_move :: "nat \<Rightarrow> tid \<Rightarrow> 'f single_sys \<Rightarrow> 'f worker_pc \<Rightarrow> 'f worker_pc \<Rightarrow> 'f single_sys \<Rightarrow> bool"
  for n :: nat and t :: tid and s :: "'f single_sys" where
  start: "worker_move n t s SW_Start SW_Check0
     (upd_pool (\<lambda>p. p\<lparr>sp_thread := (sp_thread p)\<lparr>ct_state := Thread_RUNNING\<rparr>\<rparr>) s)"
| check0_close: "ct_isRequestClose (pool_thread s) \<Longrightarrow> worker_move n t s SW_Check0 SW_SetShutDown s"
| check0_go: "\<not> ct_isRequestClose (pool_thread s) \<Longrightarrow> worker_move n t s SW_Check0 SW_Check s"
| check_close: "ct_isRequestClose (pool_thread s) \<Longrightarrow> worker_move n t s SW_Check SW_SetShutDown s"
| check_go: "\<not> ct_isRequestClose (pool_thread s) \<Longrightarrow> worker_move n t s SW_Check SW_Get s"
| sleep: "pool_queue (ss_pool s) = [] \<Longrightarrow> worker_move n t s SW_Get SW_Get
     (upd_pool (\<lambda>p. p\<lparr>sp_mutexCond := (sp_mutexCond p)\<lparr>m_cond := m_cond (sp_mutexCond p) @ [t]\<rparr>\<rparr>) s)"
| get_end: "pool_queue (ss_pool s) \<noteq> [] \<Longrightarrow> top_queue (ss_pool s) = EndPriorityTask x \<Longrightarrow>
     worker_move n t s SW_Get SW_SetShutDown (upd_pool pop_queue s)"
| get_run: "pool_queue (ss_pool s) \<noteq> [] \<Longrightarrow> top_queue (ss_pool s) = PriorityFunctorTask f x \<Longrightarrow>
     worker_move n t s SW_Get (SW_Run (PriorityFunctorTask f x)) (upd_pool pop_queue s)"
| ran: "worker_move n t s (SW_Run x) SW_Check (s\<lparr>ss_ran := ss_ran s @ [x]\<rparr>)"
| threw: "worker_move n t s (SW_Run x) SW_Threw (s\<lparr>ss_ran := ss_ran s @ [x]\<rparr>)"
| set_shutdown: "worker_move n t s SW_SetShutDown SW_NotifyPool (upd_pool (\<lambda>p. p\<lparr>sp_state := Pool_SHUTDOWN\<rparr>) s)"
| notify: "sp_isRequestShutDown (ss_pool s) \<Longrightarrow> worker_move n t s SW_NotifyPool SW_SetFinished
     (upd_pool (\<lambda>p. p\<lparr>sp_stateCond := CV_Notify n (sp_stateCond p)\<rparr>) s)"
| notify_none: "\<not> sp_isRequestShutDown (ss_pool s) \<Longrightarrow> worker_move n t s SW_NotifyPool SW_SetFinished s"
| set_finished: "worker_move n t s SW_SetFinished SW_NotifyClosed
     (upd_pool (\<lambda>p. p\<lparr>sp_thread := (sp_thread p)\<lparr>ct_state := Thread_FINISHED\<rparr>\<rparr>) s)"
| notify_closed: "ct_isRequestClose (pool_thread s) \<Longrightarrow> worker_move n t s SW_NotifyClosed SW_Done
     (upd_pool (\<lambda>p. p\<lparr>sp_thread := (sp_thread p)\<lparr>ct_stateGuard := CV_NotifyAll (ct_stateGuard (sp_thread p))\<rparr>\<rparr>) s)"
| notify_closed_none: "\<not> ct_isRequestClose (pool_thread s) \<Longrightarrow> worker_move n t s SW_NotifyClosed SW_Done s"

text \<open>Pushing: the effect on the pool and on the log.\<close>

definition pushed :: "nat \<Rightarrow> 'f priority_task \<Rightarrow> 'f single_sys \<Rightarrow> 'f single_sys" where
  "pushed n x s = s\<lparr>ss_pool := (push_queue x (ss_pool s))\<lparr>sp_mutexCond :=
       (if pool_queue (ss_pool s) = [] then CV_Notify n (sp_mutexCond (ss_pool s))
        else sp_mutexCond (ss_pool s))\<rparr>, ss_pushed := ss_pushed s @ [x]\<rparr>"

inductive client_move :: "nat \<Rightarrow> tid \<Rightarrow> 'f single_sys \<Rightarrow> 'f client_pc \<Rightarrow> 'f client_pc \<Rightarrow> 'f single_sys \<Rightarrow> bool"
  for n :: nat and t :: tid and s :: "'f single_sys" where
  call_add: "client_ready c \<Longrightarrow> client_move n t s c (S_Load f x) s"
| call_shut: "client_ready c \<Longrightarrow> client_move n t s c (S_ShutDown now) s"
| refused: "sp_isRequestShutDown (ss_pool s) \<Longrightarrow> client_move n t s (S_Load f x) (S_Added False) s"
| accepted: "\<not> sp_isRequestShutDown (ss_pool s) \<Longrightarrow> client_move n t s (S_Load f x) (S_Push f x) s"
| push: "client_move n t s (S_Push f x) (S_Added True) (pushed n (PriorityFunctorTask f x) s)"
| won: "\<not> sp_isRequestShutDown (ss_pool s) \<Longrightarrow> client_move n t s (S_ShutDown now) (S_SetStop now)
     (upd_pool (\<lambda>p. p\<lparr>sp_isRequestShutDown := True\<rparr>) s)"
| lost_now: "client_move n t s (S_ShutDown True) S_WaitShut s"
| lost: "client_move n t s (S_ShutDown False) (S_ShutReturned False) s"
| stop: "client_move n t s (S_SetStop now) (S_AsyncClose now) (upd_pool (\<lambda>p. p\<lparr>sp_state := Pool_STOP\<rparr>) s)"
| async: "client_move n t s (S_AsyncClose now) (S_PushEnd now)
     (upd_pool (\<lambda>p. p\<lparr>sp_thread := (sp_thread p)\<lparr>ct_isRequestClose := True\<rparr>\<rparr>) s)"
| async_same: "client_move n t s (S_AsyncClose now) (S_PushEnd now) s"
| push_end_now: "client_move n t s (S_PushEnd True) S_WaitShut (pushed n (EndPriorityTask 0) s)"
| push_end: "client_move n t s (S_PushEnd False) (S_ShutReturned False) (pushed n (EndPriorityTask 0) s)"
| wait: "sp_state (ss_pool s) \<noteq> Pool_SHUTDOWN \<Longrightarrow> client_move n t s S_WaitShut S_WaitShut
     (upd_pool (\<lambda>p. p\<lparr>sp_stateCond := (sp_stateCond p)\<lparr>m_cond := m_cond (sp_stateCond p) @ [t]\<rparr>\<rparr>) s)"
| returned: "sp_state (ss_pool s) = Pool_SHUTDOWN \<Longrightarrow> client_move n t s S_WaitShut (S_ShutReturned True) s"

definition pool_free :: "'f single_pool \<Rightarrow> bool" where
  "pool_free p \<longleftrightarrow> cv_free (sp_stateCond p) \<and> cv_free (sp_mutexCond p) \<and> cv_free (ct_stateGuard (sp_thread p))"

lemmas single_op_defs = SingleThreadPool_SetState_def SingleThreadPool_NotifyWhenThreadStop_def
  SingleThreadPool_CheckIsRequestShutDown_def SingleThreadPool_DoIsShutDown_def EndPriorityTask_ctor_def

lemma push_section [sync]:
  "cv_free (sp_mutexCond (ss_pool s)) \<Longrightarrow>
     SingleThreadPool_PushTask t n x (ss_pool s) = Some (ss_pool (pushed n x s))"
  by (auto simp: SingleThreadPool_PushTask_def pushed_def sync)

lemma pushed_fold [sync]: "s\<lparr>ss_pool := ss_pool (pushed n x s), ss_pushed := ss_pushed s @ [x]\<rparr> = pushed n x s"
  by (simp add: pushed_def)

lemma pop_queue_same [sync]: "(pop_queue p)\<lparr>sp_mutexCond := sp_mutexCond p\<rparr> = pop_queue p"
  by (simp add: pop_queue_def)

lemma worker_act_move:
  assumes "SingleThreadPool_ThreadFunction t w s = Some (w', s')" and "pool_free (ss_pool s)"
  shows "worker_move n t s w w' s'"
  using assms by (cases w)
    (auto simp: sync pool_free_def close_op_defs single_op_defs SingleThreadPool_GetTask_def
      intro: worker_move.intros split: if_splits priority_task.splits)

lemma single_worker_move:
  assumes "single_worker n t w (ss_pool s) = Some (w', p)" and "pool_free (ss_pool s)"
  shows "worker_move n t s w w' (s\<lparr>ss_pool := p\<rparr>)"
  using assms by (cases w)
    (auto simp: sync pool_free_def close_op_defs single_op_defs
      intro: worker_move.intros split: if_splits)

lemma add_client_move:
  assumes "SingleThreadPool_DoAddTask n t c s = Some (c', s')" and "pool_free (ss_pool s)"
  shows "client_move n t s c c' s'"
  using assms by (cases c)
    (auto simp: sync pool_free_def intro: client_move.intros split: if_splits)

lemma shut_client_move:
  assumes "SingleThreadPool_ShutDown n sp t c s = Some (c', s')" and "pool_free (ss_pool s)"
  shows "client_move n t s c c' s'"
  using assms by (cases c)
    (auto simp: sync pool_free_def close_op_defs single_op_defs
      intro: client_move.intros split: if_splits)

lemma single_act_move:
  assumes "single_act e t k s = Some (k', s')" and "pool_free (ss_pool s)"
  shows "(\<exists>n w w'. k = Worker w \<and> k' = Worker w' \<and> worker_move n t s w w' s')
    \<or> (\<exists>n c c'. k = Client c \<and> k' = Client c' \<and> client_move n t s c c' s')"
  using assms
  by (auto simp: single_act_def intro: worker_move.threw client_move.call_add client_move.call_shut
      dest: worker_act_move single_worker_move add_client_move shut_client_move
      split: single_pc.splits single_ev.splits if_splits option.splits worker_pc.splits)

section \<open>The invariant\<close>

definition is_functor :: "'f priority_task \<Rightarrow> bool" where
  "is_functor x \<longleftrightarrow> (case x of PriorityFunctorTask _ _ \<Rightarrow> True | EndPriorityTask _ \<Rightarrow> False)"

lemma is_functor_simps [simp]: "is_functor (PriorityFunctorTask f x)" "\<not> is_functor (EndPriorityTask x)"
  by (simp_all add: is_functor_def)

fun stopping :: "'f worker_pc \<Rightarrow> bool" where
  "stopping SW_SetShutDown = True" | "stopping SW_NotifyPool = True" | "stopping SW_SetFinished = True"
| "stopping SW_NotifyClosed = True" | "stopping SW_Done = True" | "stopping _ = False"

definition worker_ok :: "'f single_pool \<Rightarrow> 'f worker_pc \<Rightarrow> bool" where
  "worker_ok p w \<longleftrightarrow> (sp_state p = Pool_SHUTDOWN \<longleftrightarrow> stopping w \<and> w \<noteq> SW_SetShutDown)"

fun shutting :: "'f client_pc \<Rightarrow> bool" where
  "shutting (S_SetStop _) = True" | "shutting (S_AsyncClose _) = True" | "shutting (S_PushEnd _) = True"
| "shutting _ = False"

fun early :: "'f client_pc \<Rightarrow> bool" where
  "early (S_SetStop _) = True" | "early (S_AsyncClose _) = True" | "early _ = False"

text \<open>
  \<open>quiet\<close>: nothing has told the thread to stop yet.  \<open>ended\<close>: something that stops it is on its
  way for good.
\<close>

definition quiet :: "'f single_sys \<Rightarrow> 'f worker_pc \<Rightarrow> bool" where
  "quiet s w \<longleftrightarrow> \<not> ct_isRequestClose (pool_thread s) \<and> \<not> stopping w \<and>
     (\<forall>x \<in># mset (pool_queue (ss_pool s)). is_functor x)"

definition ended :: "'f single_sys \<Rightarrow> 'f worker_pc \<Rightarrow> bool" where
  "ended s w \<longleftrightarrow> stopping w \<or> w = SW_Threw \<or> (\<exists>x \<in># mset (pool_queue (ss_pool s)). \<not> is_functor x)"

fun in_hand :: "'f worker_pc \<Rightarrow> 'f priority_task multiset" where
  "in_hand (SW_Run x) = {#x#}" | "in_hand _ = {#}"

definition conserved :: "'f single_sys \<Rightarrow> 'f worker_pc \<Rightarrow> bool" where
  "conserved s w \<longleftrightarrow> filter_mset is_functor (mset (ss_pushed s)) =
     mset (ss_ran s) + in_hand w + filter_mset is_functor (mset (pool_queue (ss_pool s)))"

definition single_ok :: "run_mode \<Rightarrow> 'f single_sys \<Rightarrow> 'f worker_pc \<Rightarrow> bool" where
  "single_ok mode s w \<longleftrightarrow> pool_free (ss_pool s) \<and> pool_heap mode (ss_pool s) \<and>
     worker_ok (ss_pool s) w \<and> conserved s w"

lemma push_pool_queue [simp]: "mset (pool_queue (push_queue x p)) = add_mset x (mset (pool_queue p))"
  by (rule pool_pq.push_elems)

lemma pop_pool_queue: "pool_queue p \<noteq> [] \<Longrightarrow>
    mset (pool_queue p) = add_mset (top_queue p) (mset (pool_queue (pop_queue p)))"
  using pool_pq.pop_elems [of p] by simp

lemma set_pop_queue: "pool_queue p \<noteq> [] \<Longrightarrow>
    set (pool_queue p) = insert (top_queue p) (set (pool_queue (pop_queue p)))"
  using arg_cong [OF pop_pool_queue, of p set_mset] by simp

lemma set_push_queue [simp]: "set (pool_queue (push_queue x p)) = insert x (set (pool_queue p))"
  by (metis push_pool_queue set_mset_add_mset_insert set_mset_mset)

lemma pushed_fields [simp]:
  "pool_queue (ss_pool (pushed n x s)) = pool_queue (push_queue x (ss_pool s))"
  "sp_state (ss_pool (pushed n x s)) = sp_state (ss_pool s)"
  "sp_thread (ss_pool (pushed n x s)) = sp_thread (ss_pool s)"
  "sp_stateCond (ss_pool (pushed n x s)) = sp_stateCond (ss_pool s)"
  "sp_isRequestShutDown (ss_pool (pushed n x s)) = sp_isRequestShutDown (ss_pool s)"
  "ss_ran (pushed n x s) = ss_ran s" "ss_pushed (pushed n x s) = ss_pushed s @ [x]"
  by (simp_all add: pushed_def sync)

lemma pushed_cond: "sp_mutexCond (ss_pool (pushed n x s)) =
    (if pool_queue (ss_pool s) = [] then CV_Notify n (sp_mutexCond (ss_pool s)) else sp_mutexCond (ss_pool s))"
  by (simp add: pushed_def)

lemma pool_heap_upd [sync]:
  "pool_heap mode (p\<lparr>sp_state := a\<rparr>) = pool_heap mode p"
  "pool_heap mode (p\<lparr>sp_mutexCond := c\<rparr>) = pool_heap mode p"
  "pool_heap mode (p\<lparr>sp_stateCond := c\<rparr>) = pool_heap mode p"
  "pool_heap mode (p\<lparr>sp_thread := h\<rparr>) = pool_heap mode p"
  "pool_heap mode (p\<lparr>sp_isRequestShutDown := b\<rparr>) = pool_heap mode p"
  by (simp_all add: pool_heap_def sync)

lemma pool_heap_pushed: "pool_heap mode (ss_pool s) \<Longrightarrow> pool_heap mode (ss_pool (pushed n x s))"
  by (simp add: pushed_def sync pool_pq.push_invar)

lemma pool_heap_popped: "pool_heap mode p \<Longrightarrow> pool_queue p \<noteq> [] \<Longrightarrow> pool_heap mode (pop_queue p)"
  by (rule pool_pq.pop_invar) auto

lemma worker_move_ok:
  assumes "worker_move n t s w w' s'" and "single_ok mode s w"
  shows "single_ok mode s' w'"
  using assms
  by (cases rule: worker_move.cases)
     (auto simp: single_ok_def pool_free_def worker_ok_def conserved_def sync pool_heap_popped pop_pool_queue)

lemma client_move_ok:
  assumes "client_move n t s c c' s'" and "single_ok mode s w"
    and "\<And>now. c = S_SetStop now \<Longrightarrow> \<not> stopping w"
  shows "single_ok mode s' w"
  using assms
  by (cases rule: client_move.cases)
     (auto simp: single_ok_def pool_free_def worker_ok_def conserved_def sync pool_heap_pushed pushed_cond)

lemma worker_move_shut:
  assumes "worker_move n t s w w' s'"
  shows "sp_isRequestShutDown (ss_pool s') = sp_isRequestShutDown (ss_pool s)"
    and "quiet s w \<Longrightarrow> quiet s' w'" and "ended s w \<Longrightarrow> ended s' w'"
  using assms
  by (auto simp: quiet_def ended_def sync set_pop_queue elim!: worker_move.cases)

text \<open>What a client's action does to the shutdown: nothing, begin it, close the thread, or end it.\<close>

lemma client_move_shut:
  assumes "client_move n t s c c' s'"
  obtains (other) "shutting c' = shutting c" "early c' = early c"
      "sp_isRequestShutDown (ss_pool s') = sp_isRequestShutDown (ss_pool s)"
      "quiet s w \<longrightarrow> quiet s' w" "ended s w \<longrightarrow> ended s' w"
  | (begins) "\<not> shutting c" "early c'" "shutting c'" "\<not> sp_isRequestShutDown (ss_pool s)"
      "sp_isRequestShutDown (ss_pool s')" "quiet s w \<longrightarrow> quiet s' w"
  | (closes) "early c" "\<not> early c'" "shutting c'"
      "sp_isRequestShutDown (ss_pool s') = sp_isRequestShutDown (ss_pool s)"
  | (ends) "shutting c" "\<not> shutting c'" "\<not> early c'"
      "sp_isRequestShutDown (ss_pool s') = sp_isRequestShutDown (ss_pool s)" "ended s' w"
  using assms
  by (cases rule: client_move.cases)
     (auto simp: quiet_def ended_def sync client_ready_def split: client_pc.splits)

definition is_shutting :: "'f single_pc \<Rightarrow> bool" where
  "is_shutting k \<longleftrightarrow> (case k of Client c \<Rightarrow> shutting c | Worker _ \<Rightarrow> False)"

definition is_early :: "'f single_pc \<Rightarrow> bool" where
  "is_early k \<longleftrightarrow> (case k of Client c \<Rightarrow> early c | Worker _ \<Rightarrow> False)"

lemma is_shutting_simps [simp]:
  "is_shutting (Client c) = shutting c" "\<not> is_shutting (Worker w)"
  "is_early (Client c) = early c" "\<not> is_early (Worker w)"
  by (simp_all add: is_shutting_def is_early_def)

lemma early_shutting: "is_early k \<Longrightarrow> is_shutting k"
  by (cases k; simp; rename_tac c; case_tac c; simp)

definition shut_ok :: "'f single_sys \<Rightarrow> 'f worker_pc \<Rightarrow> (tid \<Rightarrow> 'f single_pc) \<Rightarrow> bool" where
  "shut_ok s w pc \<longleftrightarrow>
     (\<forall>t u. is_shutting (pc t) \<and> is_shutting (pc u) \<longrightarrow> t = u) \<and>
     ((\<exists>t. is_shutting (pc t)) \<longrightarrow> sp_isRequestShutDown (ss_pool s)) \<and>
     (\<not> sp_isRequestShutDown (ss_pool s) \<or> (\<exists>t. is_early (pc t)) \<longrightarrow> quiet s w) \<and>
     (sp_isRequestShutDown (ss_pool s) \<and> (\<forall>t. \<not> is_shutting (pc t)) \<longrightarrow> ended s w)"

definition returned_ok :: "'f single_sys \<Rightarrow> (tid \<Rightarrow> 'f single_pc) \<Rightarrow> bool" where
  "returned_ok s pc \<longleftrightarrow>
     (\<forall>t. pc t = Client (S_ShutReturned True) \<longrightarrow> sp_state (ss_pool s) = Pool_SHUTDOWN)"

definition single_inv :: "run_mode \<Rightarrow> 'f single_sys \<Rightarrow> (tid \<Rightarrow> 'f single_pc) \<Rightarrow> bool" where
  "single_inv mode s pc \<longleftrightarrow> (\<exists>w. pc 0 = Worker w \<and> single_ok mode s w \<and> shut_ok s w pc) \<and>
     (\<forall>t. t \<noteq> 0 \<longrightarrow> (\<exists>c. pc t = Client c)) \<and> returned_ok s pc \<and>
     0 \<notin> set (m_cond (sp_stateCond (ss_pool s))) \<and> m_cond (sp_mutexCond (ss_pool s)) \<in> {[], [0]} \<and>
     (m_cond (sp_mutexCond (ss_pool s)) \<noteq> [] \<longrightarrow> pc 0 = Worker SW_Get)"

lemma worker_shut_ok:
  assumes "worker_move n 0 s w w' s'" and "shut_ok s w pc" and "pc 0 = Worker w"
  shows "shut_ok s' w' (pc(0 := Worker w'))"
  (is "shut_ok _ _ ?pc")
proof -
  have "is_shutting (?pc u) = is_shutting (pc u)" "is_early (?pc u) = is_early (pc u)" for u
    using assms(3) by auto
  with assms(2) worker_move_shut [OF assms(1)] show ?thesis unfolding shut_ok_def by simp
qed

lemma client_shut_ok:
  assumes "client_move n t s c c' s'" and ok: "shut_ok s w pc" and pc: "pc t = Client c"
  shows "shut_ok s' w (pc(t := Client c'))"
proof -
  let ?pc = "pc(t := Client c')"
  from assms(1) show ?thesis
  proof (cases rule: client_move_shut [where w = w])
    case other
    have "is_shutting (?pc u) = is_shutting (pc u)" "is_early (?pc u) = is_early (pc u)" for u
      using other(1,2) pc by auto
    with other(3-5) ok show ?thesis by (simp add: shut_ok_def)
  next
    case begins
    then have only: "\<not> is_shutting (pc u)" for u using ok by (auto simp: shut_ok_def)
    have "is_shutting (?pc u) = (u = t)" for u using begins only by simp
    moreover have "quiet s' w" using begins ok by (simp add: shut_ok_def)
    ultimately show ?thesis using begins(5) by (auto simp: shut_ok_def)
  next
    case closes
    then have only: "is_shutting (pc u) = (u = t)" for u
      using ok pc early_shutting [of "pc t"] by (auto simp: shut_ok_def)
    have "is_shutting (?pc u) = (u = t)" "\<not> is_early (?pc u)" for u
      using closes only [of u] early_shutting [of "pc u"] by auto
    moreover have "sp_isRequestShutDown (ss_pool s')" using closes only ok by (auto simp: shut_ok_def)
    ultimately show ?thesis by (auto simp: shut_ok_def)
  next
    case ends
    then have only: "is_shutting (pc u) = (u = t)" for u
      using ok pc by (auto simp: shut_ok_def)
    have "\<not> is_shutting (?pc u)" "\<not> is_early (?pc u)" for u
      using ends only [of u] early_shutting [of "pc u"] by auto
    moreover have "sp_isRequestShutDown (ss_pool s')" using ends(4) only ok by (auto simp: shut_ok_def)
    ultimately show ?thesis using ends(5) by (auto simp: shut_ok_def)
  qed
qed

lemma worker_returned_ok:
  "worker_move n t s w w' s' \<Longrightarrow> returned_ok s pc \<Longrightarrow> returned_ok s' (pc(u := Worker w'))"
  by (erule worker_move.cases) (auto simp: returned_ok_def sync)

lemma client_returned_ok:
  assumes "client_move n t s c c' s'" and "returned_ok s pc"
    and "\<And>now. c = S_SetStop now \<Longrightarrow> sp_state (ss_pool s) \<noteq> Pool_SHUTDOWN"
  shows "returned_ok s' (pc(t := Client c'))"
  using assms by (cases rule: client_move.cases) (auto simp: returned_ok_def)

text \<open>Only the pool's thread ever sleeps on the queue, and only while the queue is empty.\<close>

lemma worker_move_cond:
  assumes "worker_move n 0 s w w' s'" and "m_cond (sp_mutexCond (ss_pool s)) = []"
  shows "m_cond (sp_mutexCond (ss_pool s')) = [] \<or> m_cond (sp_mutexCond (ss_pool s')) = [0]
     \<and> w' = SW_Get \<and> pool_queue (ss_pool s) = [] \<and> pool_queue (ss_pool s') = []"
  using assms by (cases rule: worker_move.cases) (auto simp: sync)

lemma client_move_cond:
  assumes "client_move n t s c c' s'" and "m_cond (sp_mutexCond (ss_pool s)) \<in> {[], [0]}"
  shows "m_cond (sp_mutexCond (ss_pool s')) = []
     \<or> m_cond (sp_mutexCond (ss_pool s')) = m_cond (sp_mutexCond (ss_pool s))
       \<and> (pool_queue (ss_pool s) = [] \<longrightarrow> pool_queue (ss_pool s') = [])"
  using assms by (cases rule: client_move.cases) (auto simp: sync pushed_cond CV_Notify_def)

lemma worker_move_state_cond:
  "worker_move n t s w w' s' \<Longrightarrow>
    set (m_cond (sp_stateCond (ss_pool s'))) \<subseteq> set (m_cond (sp_stateCond (ss_pool s)))"
  by (erule worker_move.cases) (auto simp: sync dest: subsetD [OF m_cond_notify_subset])

lemma client_move_state_cond:
  "client_move n t s c c' s' \<Longrightarrow>
    set (m_cond (sp_stateCond (ss_pool s'))) \<subseteq> insert t (set (m_cond (sp_stateCond (ss_pool s))))"
  by (erule client_move.cases) (auto simp: sync)

text \<open>Who acts, and what it does to the wait queue of the task queue.\<close>

lemma single_act_who:
  assumes "single_inv mode s pc" and "single_act e t (pc t) s = Some (k', s')"
  obtains (worker) n w w' where "t = 0" "pc 0 = Worker w" "k' = Worker w'" "worker_move n 0 s w w' s'"
  | (client) n c c' w where "t \<noteq> 0" "pc 0 = Worker w" "pc t = Client c" "k' = Client c'" "client_move n t s c c' s'"
proof -
  obtain w where w: "pc 0 = Worker w" "single_ok mode s w"
    and role: "\<And>u. u \<noteq> 0 \<Longrightarrow> \<exists>c. pc u = Client c"
    using assms(1) by (auto simp: single_inv_def)
  have "pool_free (ss_pool s)" using w(2) by (simp add: single_ok_def)
  from single_act_move [OF assms(2) this] show ?thesis
  proof (elim disjE exE conjE)
    fix n w1 w'
    assume m: "pc t = Worker w1" "k' = Worker w'" "worker_move n t s w1 w' s'"
    with role [of t] have "t = 0" by (cases "t = 0") auto
    with m show ?thesis by (intro worker) auto
  next
    fix n c c'
    assume m: "pc t = Client c" "k' = Client c'" "client_move n t s c c' s'"
    with w(1) have "t \<noteq> 0" by (cases "t = 0") auto
    with m w(1) show ?thesis by (intro client) auto
  qed
qed

lemma single_act_inv:
  assumes "single_inv mode s pc" and "single_act e t (pc t) s = Some (k', s')"
    and "\<not> cv_waiting (sp_mutexCond (ss_pool s)) t"
  shows "single_inv mode s' (pc(t := k'))"
  using assms(1,2)
proof (cases rule: single_act_who)
  case (worker n w w')
  then have "m_cond (sp_mutexCond (ss_pool s)) = []"
    using assms(1,3) by (auto simp: single_inv_def sync)
  with worker assms(1) worker_returned_ok [OF worker(4)] worker_move_ok [OF worker(4)] worker_shut_ok [OF worker(4)]
    worker_move_cond [OF worker(4)] worker_move_state_cond [OF worker(4)]
  show ?thesis by (auto simp: single_inv_def)
next
  case (client n c c' w)
  have ok: "single_ok mode s w" "shut_ok s w pc" using assms(1) client(2) by (auto simp: single_inv_def)
  have "\<not> stopping w" if "c = S_SetStop now" for now
  proof -
    have "is_early (pc t)" using that client(3) by simp
    then show ?thesis using ok(2) unfolding shut_ok_def quiet_def by blast
  qed
  note calm = this
  then have "single_ok mode s' w" by (rule client_move_ok [OF client(5) ok(1)])
  moreover have "returned_ok s' (pc(t := Client c'))"
    using calm assms(1) ok(1)
    by (intro client_returned_ok [OF client(5)]) (auto simp: single_inv_def single_ok_def worker_ok_def)
  moreover have "m_cond (sp_mutexCond (ss_pool s')) \<in> {[], [0]}
      \<and> (m_cond (sp_mutexCond (ss_pool s')) \<noteq> [] \<longrightarrow> pc 0 = Worker SW_Get)"
    using client_move_cond [OF client(5)] assms(1) by (auto simp: single_inv_def)
  moreover have "0 \<notin> set (m_cond (sp_stateCond (ss_pool s')))"
    using client_move_state_cond [OF client(5)] client(1) assms(1) by (auto simp: single_inv_def)
  ultimately show ?thesis
    using client_shut_ok [OF client(5) ok(2) client(3)] client(1,2,4) assms(1)
    by (auto simp: single_inv_def)
qed

lemma single_unwait_parts:
  "single_ok mode (single_unwait t s) w = single_ok mode s w"
  "shut_ok (single_unwait t s) w pc = shut_ok s w pc"
  "returned_ok (single_unwait t s) pc = returned_ok s pc"
  by (simp_all add: returned_ok_def single_ok_def shut_ok_def single_unwait_def pool_free_def quiet_def
      ended_def worker_ok_def conserved_def sync)

lemma single_unwait_inv:
  assumes "single_inv mode s pc"
  shows "single_inv mode (single_unwait t s) pc"
proof -
  have "m_cond (sp_mutexCond (ss_pool (single_unwait t s))) \<in> {[], [0]}
      \<and> (m_cond (sp_mutexCond (ss_pool (single_unwait t s))) \<noteq> [] \<longrightarrow> pc 0 = Worker SW_Get)"
    using assms by (cases "t = 0") (auto simp: single_inv_def single_unwait_def sync removeAll.simps)
  moreover have "set (m_cond (sp_stateCond (ss_pool (single_unwait t s)))) \<subseteq> set (m_cond (sp_stateCond (ss_pool s)))"
    by (auto simp: single_unwait_def sync)
  ultimately show ?thesis using assms unfolding single_inv_def single_unwait_parts by blast
qed

lemma single_start_inv: "single_inv mode (fst (single_start mode)) (snd (single_start mode))"
  by (auto simp: single_inv_def single_start_def single_ok_def shut_ok_def SingleThreadPool_ctor_def
      returned_ok_def CloseableThread_ctor_def pool_free_def pool_heap_def pool_queue_def is_heap_def quiet_def worker_ok_def
      conserved_def cv_free_def ConditionVariable_ctor_def)

lemma single_act_disciplined:
  assumes "single_inv mode s pc" and "single_act e t (pc t) s = Some (k', s')"
    and "\<not> cv_waiting (sp_mutexCond (ss_pool s)) t"
  shows "m_cond (sp_mutexCond (ss_pool s')) = []
    \<or> set (m_cond (sp_mutexCond (ss_pool s'))) \<subseteq> set (m_cond (sp_mutexCond (ss_pool s)))
       \<and> (pool_queue (ss_pool s) = [] \<longrightarrow> pool_queue (ss_pool s') = [])
    \<or> pool_queue (ss_pool s) = [] \<and> pool_queue (ss_pool s') = []"
  using assms(1,2)
proof (cases rule: single_act_who)
  case (worker n w w')
  then have "m_cond (sp_mutexCond (ss_pool s)) = []"
    using assms(1,3) by (auto simp: single_inv_def sync)
  with worker_move_cond [OF worker(4)] show ?thesis by auto
next
  case (client n c c' w)
  with client_move_cond [OF client(5)] assms(1) show ?thesis by (auto simp: single_inv_def)
qed

interpretation single: guarded_wait single_machine "\<lambda>c. c = single_start mode" "single_inv mode"
    "\<lambda>s. sp_mutexCond (ss_pool s)" "\<lambda>s. pool_queue (ss_pool s) = []" for mode
proof (unfold_locales, goal_cases)
  case (1 s pc)
  then show ?case using single_start_inv [of mode] by (metis fst_conv snd_conv)
next
  case (2 s pc t e k s')
  then show ?case using single_act_inv [of mode s pc e t k s'] by (auto simp: single_machine_def)
next
  case (3 s pc t)
  then show ?case by (simp add: single_machine_def single_unwait_inv)
next
  case (4 s pc t k)
  then show ?case by (simp add: single_machine_def)
next
  case (5 s pc)
  then show ?case by (auto simp: single_start_def SingleThreadPool_ctor_def ConditionVariable_ctor_def)
next
  case (6 s pc t e k s')
  then show ?case using single_act_disciplined [of mode s pc e t k s'] by (auto simp: single_machine_def)
next
  case (7 s pc t)
  then show ?case by (simp add: single_machine_def single_unwait_def sync)
qed

text \<open>
  The pool as a task pool: what waits are the functor tasks of the queue, what is submitted and what
  ends is what the logs record.  A task that leaves the queue has the smallest key of all that wait
  (the largest in LIFO mode).
\<close>

definition key_order :: "run_mode \<Rightarrow> 'f priority_task \<Rightarrow> 'f priority_task \<Rightarrow> bool" where
  "key_order mode x y \<longleftrightarrow>
     (if mode = LIFO then GetPriorityValue y \<le> GetPriorityValue x else GetPriorityValue x \<le> GetPriorityValue y)"

definition single_waiting :: "'f single_sys \<Rightarrow> 'f priority_task multiset" where
  "single_waiting s = filter_mset is_functor (mset (pool_queue (ss_pool s)))"

definition single_abs :: "'f single_sys \<Rightarrow> (tid \<Rightarrow> 'f single_pc) \<Rightarrow> ('f priority_task multiset, 'f priority_task) task_pool" where
  "single_abs s pc = \<lparr>tk_waiting = single_waiting s,
     tk_running = (case pc 0 of Worker w \<Rightarrow> in_hand w | Client _ \<Rightarrow> {#})\<rparr>"

definition single_submitted :: "'f single_sys \<Rightarrow> 'f priority_task list" where
  "single_submitted s = filter is_functor (ss_pushed s)"

lemma top_is_least:
  assumes "pool_heap mode p" and "pool_queue p \<noteq> []" and "x \<in># mset (pool_queue (pop_queue p))"
  shows "key_order mode (top_queue p) x"
proof -
  have "x \<in># mset (pool_queue p)" using set_pop_queue [OF assms(2)] assms(3) by simp
  from pool_pq.top_max [OF assms(1) this] show ?thesis
    by (simp add: pool_lower_def key_order_def lower_lesser_def lower_greater_def split: if_splits)
qed

lemma single_worker_effect:
  assumes "worker_move n t s w w' s'" and "pool_heap mode (ss_pool s)"
  shows "\<exists>tr. pool_trace add_mset (least_take (key_order mode))
      \<lparr>tk_waiting = single_waiting s, tk_running = in_hand w\<rparr> tr \<lparr>tk_waiting = single_waiting s', tk_running = in_hand w'\<rparr> \<and>
    length tr \<le> 1 \<and> single_submitted s' = single_submitted s @ submissions tr \<and> ss_ran s' = ss_ran s @ finishes tr"
  using assms(1)
proof (cases rule: worker_move.cases)
  case (get_run f x)
  then have "pool_queue (ss_pool s) \<noteq> []" by simp
  from top_is_least [OF assms(2) this] pop_pool_queue [OF this] get_run
  have "least_take (key_order mode) (single_waiting s) (PriorityFunctorTask f x) (single_waiting s')"
    by (auto simp: least_take_def single_waiting_def)
  with get_run show ?thesis by (intro pool_label_cases) (auto simp: single_submitted_def)
qed (rule pool_label_cases, (auto simp: sync pop_pool_queue single_waiting_def single_submitted_def)[1])+

lemma single_client_effect:
  assumes "client_move n t s c c' s'"
  shows "\<exists>tr. pool_trace add_mset (least_take (key_order mode))
      \<lparr>tk_waiting = single_waiting s, tk_running = R\<rparr> tr \<lparr>tk_waiting = single_waiting s', tk_running = R\<rparr> \<and>
    length tr \<le> 1 \<and> single_submitted s' = single_submitted s @ submissions tr \<and> ss_ran s' = ss_ran s @ finishes tr"
  using assms
  by (intro pool_label_cases, cases rule: client_move.cases) (auto simp: sync single_waiting_def single_submitted_def)

interpretation single_spec: task_pool_refinement single_machine "\<lambda>c. c = single_start mode" "single_inv mode"
    add_mset "least_take (key_order mode)" "{#}" single_abs single_submitted ss_ran for mode
proof (unfold_locales, goal_cases)
  case (1 s pc)
  then show ?case
    by (auto simp: single_start_def single_abs_def single_waiting_def single_submitted_def SingleThreadPool_ctor_def pool_queue_def)
next
  case (2 s pc t e k s')
  then have inv: "single_inv mode s pc" and act: "single_act e t (pc t) s = Some (k, s')" by (auto simp: single_machine_def)
  have heap: "pool_heap mode (ss_pool s)" using inv by (auto simp: single_inv_def single_ok_def)
  from inv act show ?case
  proof (cases rule: single_act_who)
    case (worker n w w')
    with single_worker_effect [OF worker(4) heap] show ?thesis by (simp add: single_abs_def)
  next
    case (client n c c' w)
    with single_client_effect [OF client(5), of mode "in_hand w"] show ?thesis by (simp add: single_abs_def)
  qed
next
  case (3 s pc t)
  then show ?case
    by (simp add: single_machine_def single_abs_def single_unwait_def single_waiting_def single_submitted_def sync)
next
  case (4 s pc t k)
  then show ?case by (simp add: single_machine_def)
qed

section \<open>The properties of the pool\<close>

text \<open>The configuration a schedule of the pool reaches.\<close>

abbreviation single_reachable :: "run_mode \<Rightarrow> 'f single_sys \<Rightarrow> (tid \<Rightarrow> 'f single_pc) \<Rightarrow> bool" where
  "single_reachable mode s pc \<equiv> reachable single_machine (\<lambda>c. c = single_start mode) (s, pc)"

lemmas single_exec = single_machine_def single_start_def single_act_def single_unwait_def run_check_def
  SingleThreadPool_ctor_def CloseableThread_ctor_def ConditionVariable_ctor_def client_ready_def
  SingleThreadPool_PushTask_def SingleThreadPool_GetTask_def single_op_defs close_op_defs
  SingleThreadPool_Empty_def push_queue_def pop_queue_def top_queue_def locker_defs cv_defs
  pq_push_def pq_pop_def pq_top_def sift_up.simps sift_down.simps CompareFuncGreater_def
  CompareFuncLesser_def GetPriorityValue_def

lemmas single_run = run_check_reachable [where init = "\<lambda>c. c = single_start mode" for mode, OF _ refl]

text \<open>
  C22: whatever the clients did, the tasks that are in the queue come out in the order of their keys: all of
  them, with keys ascending in FIFO and PRIORITY mode and descending in LIFO mode.  The key is the second
  of the submission, or the given priority; tasks of equal keys, for instance submitted in the same
  second, may come out in any order (lemma \<open>FIFO_reorders_equal_seconds\<close>), so FIFO mode is first in first
  out between different seconds only.
\<close>

theorem SingleThreadPool_queue_order:
  assumes "single_reachable mode s pc"
  shows "mset (drain top_queue pop_queue (length (pool_queue (ss_pool s))) (ss_pool s)) = mset (pool_queue (ss_pool s))
     \<and> (let keys = map GetPriorityValue (drain top_queue pop_queue (length (pool_queue (ss_pool s))) (ss_pool s))
        in sorted (if mode = LIFO then rev keys else keys))"
proof -
  have heap: "pool_heap mode (ss_pool s)"
    using single.reachable_inv [OF assms] by (auto simp: single_inv_def single_ok_def)
  have n: "length (pool_queue (ss_pool s)) = size (mset (pool_queue (ss_pool s)))" by simp
  from pool_pq.drain_mset [OF n] pool_pq.drain_sorted [OF n heap] show ?thesis
    by (auto simp: pool_lower_def lower_lesser_def lower_greater_def Let_def sorted_map
        sorted_wrt_rev rev_map split: if_splits)
qed

text \<open>
  C9: every task that was pushed runs at most once, nothing else runs, and a task that has not
  run is in the queue or in the hands of the pool's thread.
\<close>

theorem SingleThreadPool_tasks_conserved:
  assumes "single_reachable mode s pc"
  shows "\<exists>w. pc 0 = Worker w \<and>
     filter_mset is_functor (mset (ss_pushed s)) =
       mset (ss_ran s) + in_hand w + filter_mset is_functor (mset (pool_queue (ss_pool s)))"
  using single.reachable_inv [OF assms] by (auto simp: single_inv_def single_ok_def conserved_def)

text \<open>
  C11: the pool refines the task pool: every run shows a sequence of submissions, takes and ends of
  tasks that the abstract pool has too, from the empty pool on and from any state on.  The
  submissions of the sequence are the functor tasks the clients pushed and its ends the tasks that
  ran, each list in its order, so that no task runs that was not submitted and none is run again; a
  task that is taken has the smallest key of all that wait, the largest in LIFO mode.
\<close>

theorem SingleThreadPool_refines_task_pool:
  assumes "single_reachable mode s pc" and "reachable single_machine (\<lambda>c. c = (s, pc)) (s', pc')"
  shows "\<exists>tr tr'. pool_trace add_mset (least_take (key_order mode)) \<lparr>tk_waiting = {#}, tk_running = {#}\<rparr> tr (single_abs s pc) \<and>
    pool_trace add_mset (least_take (key_order mode)) (single_abs s pc) tr' (single_abs s' pc') \<and>
    submissions tr = filter is_functor (ss_pushed s) \<and> finishes tr = ss_ran s \<and>
    submissions (tr @ tr') = filter is_functor (ss_pushed s') \<and> finishes (tr @ tr') = ss_ran s'"
proof -
  have "pool_run add_mset (least_take (key_order mode)) (single_abs s pc) (single_submitted s) (ss_ran s)
      (single_abs s' pc') (single_submitted s') (ss_ran s')"
    using single_spec.abs_future [OF assms(2) single.reachable_inv [OF assms(1)]] by simp
  from pool_runs_traces [OF single_spec.abs_reachable [OF assms(1)] this]
  show ?thesis unfolding single_submitted_def .
qed

text \<open>
  No wake-up of the pool's thread is lost: when the queue is not empty, a thread inside
  \<open>GetTask\<close> is awake and takes the top of the queue with its next action.
\<close>

theorem SingleThreadPool_GetTask_progress:
  assumes "single_reachable mode s pc" and "pc 0 = Worker SW_Get" and "pool_queue (ss_pool s) \<noteq> []"
  shows "mstep single_machine (Act 0 (S_Step n sp)) (s, pc) = Some (upd_pool pop_queue s,
     pc(0 := Worker (if is_functor (top_queue (ss_pool s)) then SW_Run (top_queue (ss_pool s)) else SW_SetShutDown)))"
proof -
  have inv: "single_inv mode s pc" using single.reachable_inv [OF assms(1)] .
  have "m_cond (sp_mutexCond (ss_pool s)) = []"
    using single.no_lost_wakeup [OF assms(1)] assms(3) by blast
  with inv assms(2,3) show ?thesis
    by (auto simp: single_machine_def single_inv_def single_ok_def pool_free_def single_act_def
        SingleThreadPool_GetTask_def is_functor_def sync split: priority_task.split)
qed


text \<open>
  The end of the thread.  \<open>worker_rank\<close> bounds the actions that are left to it once it has been
  told to close.
\<close>

fun worker_rank :: "'f worker_pc \<Rightarrow> nat" where
  "worker_rank SW_Start = 9" | "worker_rank SW_Check0 = 8" | "worker_rank SW_Get = 8"
| "worker_rank (SW_Run _) = 7" | "worker_rank SW_Check = 6" | "worker_rank SW_SetShutDown = 5"
| "worker_rank SW_NotifyPool = 4" | "worker_rank SW_SetFinished = 3" | "worker_rank SW_NotifyClosed = 2"
| "worker_rank SW_Done = 0" | "worker_rank SW_Threw = 0"

lemma worker_move_rank:
  "worker_move n t s w w' s' \<Longrightarrow> ct_isRequestClose (pool_thread s) \<Longrightarrow> pool_queue (ss_pool s) \<noteq> [] \<or> w \<noteq> SW_Get \<Longrightarrow>
    w = SW_Start \<or> worker_rank w' < worker_rank w"
  by (erule worker_move.cases) auto

lemma worker_enabled:
  assumes "pool_free (ss_pool s)" and "worker_rank w > 0"
  shows "\<exists>w' s'. single_act (S_Step n sp) t (Worker w) s = Some (Worker w', s')"
  using assms
  by (cases w) (auto simp: single_act_def pool_free_def close_op_defs single_op_defs
      SingleThreadPool_GetTask_def sync split: priority_task.splits)

text \<open>
  A completed \<open>ShutDown\<close> ends the thread: once a shutdown has been requested, no client is
  still inside it, and the thread has been told to close, every action of the thread is enabled
  and brings it nearer to its end, so it runs at most the one task it already has.
\<close>

theorem SingleThreadPool_ShutDown_ends:
  assumes "single_reachable mode s pc" and "sp_isRequestShutDown (ss_pool s)"
    and "\<And>t. \<not> is_shutting (pc t)" and "ct_isRequestClose (pool_thread s)"
    and "pc 0 = Worker w" and "w \<noteq> SW_Done" and "w \<noteq> SW_Threw"
  shows "\<exists>w' s'. mstep single_machine (Act 0 (S_Step n sp)) (s, pc) = Some (s', pc(0 := Worker w'))
     \<and> worker_rank w' < worker_rank w"
proof -
  have inv: "single_inv mode s pc" using single.reachable_inv [OF assms(1)] .
  then have free: "pool_free (ss_pool s)" and ended: "ended s w"
    using assms(2,3,5) by (auto simp: single_inv_def single_ok_def shut_ok_def)
  have q: "pool_queue (ss_pool s) \<noteq> [] \<or> w \<noteq> SW_Get" using ended by (auto simp: ended_def)
  have "0 < worker_rank w" using assms(6,7) by (cases w) auto
  from worker_enabled [OF free this, of n sp 0] obtain w' s'
    where act: "single_act (S_Step n sp) 0 (Worker w) s = Some (Worker w', s')" by blast
  have "worker_move n 0 s w w' s'"
    using act worker_act_move [OF _ free] single_worker_move [OF _ free]
    by (auto simp: single_act_def split: option.splits)
  then have "worker_rank w' < worker_rank w"
    using worker_move_rank [OF _ assms(4) q] by (cases "w = SW_Start") (auto elim: worker_move.cases)
  moreover have "m_cond (sp_mutexCond (ss_pool s)) = []"
    using single.no_lost_wakeup [OF assms(1)] q inv assms(5) by (auto simp: single_inv_def)
  ultimately show ?thesis
    using act inv assms(5) by (auto simp: single_machine_def single_inv_def sync)
qed

text \<open>
  C24: \<open>ShutDownNow\<close> that waited, and every \<open>IsShutDown\<close> that answers true, are right: the pool's
  thread has left its loop for good and will run no task any more.
\<close>

theorem SingleThreadPool_shutdown_is_final:
  assumes "single_reachable mode s pc"
    and "SingleThreadPool_IsShutDown u (ss_pool s) = Some (True, p) \<or> pc t = Client (S_ShutReturned True)"
  shows "sp_state (ss_pool s) = Pool_SHUTDOWN \<and>
     (\<exists>w. pc 0 = Worker w \<and> w \<in> {SW_NotifyPool, SW_SetFinished, SW_NotifyClosed, SW_Done})"
proof -
  have inv: "single_inv mode s pc" using single.reachable_inv [OF assms(1)] .
  then have "sp_state (ss_pool s) = Pool_SHUTDOWN"
    using assms(2) by (auto simp: single_inv_def single_ok_def pool_free_def returned_ok_def
        SingleThreadPool_IsShutDown_def SingleThreadPool_DoIsShutDown_def sync)
  moreover from this inv obtain w where "pc 0 = Worker w" "stopping w" "w \<noteq> SW_SetShutDown"
    by (auto simp: single_inv_def single_ok_def worker_ok_def)
  ultimately show ?thesis by (cases w) auto
qed

text \<open>
  In FIFO and PRIORITY mode the end task overtakes the tasks that wait: if it is in the
  queue and every waiting task has a positive key, then the thread takes it next and stops, and
  the tasks stay in the queue.
\<close>

theorem SingleThreadPool_end_overtakes:
  assumes "single_reachable mode s pc" and "mode \<noteq> LIFO" and "pc 0 = Worker SW_Get"
    and "EndPriorityTask_ctor \<in> set (pool_queue (ss_pool s))"
    and "\<forall>x \<in> set (pool_queue (ss_pool s)). is_functor x \<longrightarrow> 0 < GetPriorityValue x"
  shows "\<exists>s'. mstep single_machine (Act 0 (S_Step n sp)) (s, pc) = Some (s', pc(0 := Worker SW_SetShutDown))
     \<and> filter_mset is_functor (mset (pool_queue (ss_pool s'))) = filter_mset is_functor (mset (pool_queue (ss_pool s)))"
proof -
  have inv: "single_inv mode s pc" using single.reachable_inv [OF assms(1)] .
  have ne: "pool_queue (ss_pool s) \<noteq> []" using assms(4) by auto
  have "pool_heap mode (ss_pool s)" using inv by (auto simp: single_inv_def single_ok_def)
  from pool_pq.top_max [OF this, of EndPriorityTask_ctor] assms(2,4)
  have "GetPriorityValue (top_queue (ss_pool s)) \<le> 0"
    by (simp add: pool_lower_def lower_greater_def EndPriorityTask_ctor_def GetPriorityValue_def)
  moreover have "top_queue (ss_pool s) \<in> set (pool_queue (ss_pool s))"
    using set_pop_queue [OF ne] by simp
  ultimately have top: "\<not> is_functor (top_queue (ss_pool s))" using assms(5) by force
  have "m_cond (sp_mutexCond (ss_pool s)) = []"
    using single.no_lost_wakeup [OF assms(1)] ne by blast
  with inv assms(3) ne top show ?thesis
    by (auto simp: single_machine_def single_inv_def single_ok_def pool_free_def single_act_def
        SingleThreadPool_GetTask_def is_functor_def pop_pool_queue sync split: priority_task.splits)
qed

text \<open>
  FIFO mode is not first in, first out for tasks added within one second: of four tasks with
  equal keys the third one comes out before the second.
\<close>

theorem FIFO_reorders_equal_seconds:
  "map m_functor (drain top_queue pop_queue 4
     (fold push_queue (map (\<lambda>f. MakePriorityFunctorTask f 7) [1, 2, 3, 4 :: nat])
       (SingleThreadPool_ctor FIFO \<lparr>m_isInit = True, m_owner = None\<rparr>))) = [1, 3, 2, 4]"
  by code_simp

text \<open>
  \<open>NotifyWhenThreadStop\<close> wakes one waiter only: of two threads that call \<open>ShutDownNow\<close>, one may
  sleep although the pool is SHUTDOWN and its thread is gone.
\<close>

theorem second_ShutDownNow_sleeps:
  "\<exists>(s :: nat single_sys) pc. single_reachable PRIORITY s pc \<and> sp_state (ss_pool s) = Pool_SHUTDOWN \<and>
     pc 0 = Worker SW_Done \<and> pc 2 = Client S_WaitShut \<and> cv_waiting (sp_stateCond (ss_pool s)) 2"
proof -
  have "run_check single_machine
      (Act 1 (CallShutDown True) # Act 2 (CallShutDown True) #
       map (\<lambda>t. Act t (S_Step 0 False)) [1, 1, 1, 1, 1, 2, 2, 0, 0, 0, 0, 0, 0])
      (single_start PRIORITY :: (nat single_sys, nat single_pc) config)
      (\<lambda>s pc. sp_state (ss_pool s) = Pool_SHUTDOWN \<and> pc 0 = Worker SW_Done \<and> pc 2 = Client S_WaitShut
        \<and> cv_waiting (sp_stateCond (ss_pool s)) 2)"
    by code_simp
  from single_run [OF this] show ?thesis by blast
qed

text \<open>
  Two ways in which \<open>ShutDownNow\<close> waits for ever: the thread was taken out by a task that
  threw, so that it never reaches its finish action; or the weak exchange failed, so that nobody
  was told to stop.
\<close>

theorem ShutDownNow_may_hang:
  "(\<exists>(s :: nat single_sys) pc. single_reachable FIFO s pc \<and> sp_state (ss_pool s) = Pool_STOP \<and>
     pc 0 = Worker SW_Threw \<and> cv_waiting (sp_stateCond (ss_pool s)) 1) \<and>
   (\<exists>(s :: nat single_sys) pc. single_reachable FIFO s pc \<and> \<not> sp_isRequestShutDown (ss_pool s) \<and>
     sp_state (ss_pool s) = Pool_RUNNING \<and> cv_waiting (sp_stateCond (ss_pool s)) 1)"
proof
  have "run_check single_machine
      ([Act 2 (CallAdd 8 100), Act 2 (S_Step 0 False), Act 2 (S_Step 0 False)] @
       map (\<lambda>t. Act t (S_Step 0 False)) [0, 0, 0, 0] @ [Act 0 TaskThrows, Act 1 (CallShutDown True)] @
       map (\<lambda>t. Act t (S_Step 0 False)) [1, 1, 1, 1, 1])
      (single_start FIFO :: (nat single_sys, nat single_pc) config)
      (\<lambda>s pc. sp_state (ss_pool s) = Pool_STOP \<and> pc 0 = Worker SW_Threw
        \<and> cv_waiting (sp_stateCond (ss_pool s)) 1)"
    by code_simp
  from single_run [OF this]
  show "\<exists>(s :: nat single_sys) pc. single_reachable FIFO s pc \<and> sp_state (ss_pool s) = Pool_STOP \<and>
     pc 0 = Worker SW_Threw \<and> cv_waiting (sp_stateCond (ss_pool s)) 1" by blast
  have "run_check single_machine
      [Act 1 (CallShutDown True), Act 1 (S_Step 0 True), Act 1 (S_Step 0 False)]
      (single_start FIFO :: (nat single_sys, nat single_pc) config)
      (\<lambda>s pc. \<not> sp_isRequestShutDown (ss_pool s) \<and> sp_state (ss_pool s) = Pool_RUNNING
        \<and> cv_waiting (sp_stateCond (ss_pool s)) 1)"
    by code_simp
  from single_run [OF this]
  show "\<exists>(s :: nat single_sys) pc. single_reachable FIFO s pc \<and> \<not> sp_isRequestShutDown (ss_pool s) \<and>
     sp_state (ss_pool s) = Pool_RUNNING \<and> cv_waiting (sp_stateCond (ss_pool s)) 1" by blast
qed

section \<open>Witnesses\<close>

definition adds :: "tid \<Rightarrow> nat \<Rightarrow> int \<Rightarrow> nat single_ev label list" where
  "adds t f p = [Act t (CallAddPriority f p), Act t (S_Step 0 False), Act t (S_Step 0 False)]"

definition steps_of :: "tid list \<Rightarrow> nat single_ev label list" where
  "steps_of ts = map (\<lambda>t. Act t (S_Step 0 False)) ts"

theorem SingleThreadPool_queue_order_witness:
  "\<exists>(s :: nat single_sys) pc. single_reachable PRIORITY s pc \<and> length (pool_queue (ss_pool s)) = 3 \<and>
     sorted (map GetPriorityValue (drain top_queue pop_queue 3 (ss_pool s)))"
proof -
  have "run_check single_machine (adds 1 10 5 @ adds 2 11 3 @ adds 1 12 4) (single_start PRIORITY)
      (\<lambda>s pc. length (pool_queue (ss_pool s)) = 3)"
    by code_simp
  from single_run [OF this] obtain s :: "nat single_sys" and pc
    where r: "single_reachable PRIORITY s pc" "length (pool_queue (ss_pool s)) = 3" by blast
  with SingleThreadPool_queue_order [OF r(1)] show ?thesis by auto
qed

theorem SingleThreadPool_tasks_conserved_witness:
  "\<exists>(s :: nat single_sys) pc w. single_reachable LIFO s pc \<and> ss_ran s = [PriorityFunctorTask 11 7] \<and> pc 0 = Worker w \<and>
     filter_mset is_functor (mset (ss_pushed s)) =
       mset (ss_ran s) + in_hand w + filter_mset is_functor (mset (pool_queue (ss_pool s)))"
proof -
  have "run_check single_machine (adds 1 10 5 @ adds 2 11 7 @ steps_of [0, 0, 0, 0, 0]) (single_start LIFO)
      (\<lambda>s pc. ss_ran s = [PriorityFunctorTask 11 7])"
    by code_simp
  from single_run [OF this] obtain s :: "nat single_sys" and pc
    where r: "single_reachable LIFO s pc" "ss_ran s = [PriorityFunctorTask 11 7]" by blast
  with SingleThreadPool_tasks_conserved [OF r(1)] show ?thesis by blast
qed

theorem SingleThreadPool_refines_task_pool_witness:
  "\<exists>(s :: nat single_sys) pc tr. single_abs s pc = \<lparr>tk_waiting = {#PriorityFunctorTask 10 5#}, tk_running = {#}\<rparr> \<and>
     pool_trace add_mset (least_take (key_order LIFO)) \<lparr>tk_waiting = {#}, tk_running = {#}\<rparr> tr (single_abs s pc) \<and>
     submissions tr = [PriorityFunctorTask 10 5, PriorityFunctorTask 11 7] \<and> finishes tr = [PriorityFunctorTask 11 7]"
proof -
  have "run_check single_machine (adds 1 10 5 @ adds 2 11 7 @ steps_of [0, 0, 0, 0, 0]) (single_start LIFO)
      (\<lambda>s pc. ss_ran s = [PriorityFunctorTask 11 7] \<and> pool_queue (ss_pool s) = [PriorityFunctorTask 10 5] \<and>
        ss_pushed s = [PriorityFunctorTask 10 5, PriorityFunctorTask 11 7] \<and>
        (case pc 0 of Worker w \<Rightarrow> in_hand w = {#} | _ \<Rightarrow> False))"
    by code_simp
  from single_run [OF this] obtain s :: "nat single_sys" and pc
    where r: "single_reachable LIFO s pc" "ss_ran s = [PriorityFunctorTask 11 7]"
      "pool_queue (ss_pool s) = [PriorityFunctorTask 10 5]"
      "ss_pushed s = [PriorityFunctorTask 10 5, PriorityFunctorTask 11 7]"
      "case pc 0 of Worker w \<Rightarrow> in_hand w = {#} | _ \<Rightarrow> False" by blast
  from r(3,5) have "single_abs s pc = \<lparr>tk_waiting = {#PriorityFunctorTask 10 5#}, tk_running = {#}\<rparr>"
    by (simp add: single_abs_def single_waiting_def split: single_pc.splits)
  moreover obtain tr where "pool_trace add_mset (least_take (key_order LIFO)) \<lparr>tk_waiting = {#}, tk_running = {#}\<rparr> tr (single_abs s pc)"
    "submissions tr = filter is_functor (ss_pushed s)" "finishes tr = ss_ran s"
    using SingleThreadPool_refines_task_pool [OF r(1) reachable.reach_init] by blast
  ultimately show ?thesis using r(2,4) by (intro exI [of _ s] exI [of _ pc] exI [of _ tr]) simp
qed

theorem SingleThreadPool_GetTask_progress_witness:
  "\<exists>(s :: nat single_sys) pc s' x. single_reachable LIFO s pc \<and>
     mstep single_machine (Act 0 (S_Step 0 False)) (s, pc) = Some (s', pc(0 := Worker (SW_Run x)))"
proof -
  have "run_check single_machine (steps_of [0, 0, 0, 0] @ adds 1 10 5) (single_start LIFO)
      (\<lambda>s pc. pc 0 = Worker SW_Get \<and> pool_queue (ss_pool s) \<noteq> [] \<and> is_functor (top_queue (ss_pool s)))"
    by code_simp
  from single_run [OF this] obtain s :: "nat single_sys" and pc
    where r: "single_reachable LIFO s pc" "pc 0 = Worker SW_Get" "pool_queue (ss_pool s) \<noteq> []"
      "is_functor (top_queue (ss_pool s))" by blast
  from SingleThreadPool_GetTask_progress [OF r(1-3), of 0 False] r(1,4) show ?thesis
    by (simp del: mstep.simps) blast
qed

theorem SingleThreadPool_ShutDown_ends_witness:
  "\<exists>(s :: nat single_sys) pc s' w'. single_reachable FIFO s pc \<and> worker_rank w' < 8 \<and>
     mstep single_machine (Act 0 (S_Step 0 False)) (s, pc) = Some (s', pc(0 := Worker w'))"
proof -
  have "run_check single_machine
      (steps_of [0, 0, 0, 0] @ [Act 1 (CallShutDown False)] @ steps_of [1, 1, 1, 1])
      (fst (single_start FIFO), snd (single_start FIFO))
      (\<lambda>s pc. sp_isRequestShutDown (ss_pool s) \<and> ct_isRequestClose (pool_thread s) \<and> pc 0 = Worker SW_Get
        \<and> pc 1 = Client (S_ShutReturned False))"
    by code_simp
  from run_check_reachable_frame [where init = "\<lambda>c. c = single_start FIFO", OF this]
  obtain s :: "nat single_sys" and pc
    where r: "single_reachable FIFO s pc" "sp_isRequestShutDown (ss_pool s)" "ct_isRequestClose (pool_thread s)"
      "pc 0 = Worker SW_Get" "pc 1 = Client (S_ShutReturned False)"
      "\<forall>t. t \<noteq> 0 \<and> t \<noteq> 1 \<longrightarrow> pc t = Client S_Idle"
    by (auto simp: steps_of_def single_start_def)
  have "\<not> is_shutting (pc t)" for t using r(4-6) by (cases "t = 0"; cases "t = 1") auto
  from SingleThreadPool_ShutDown_ends [OF r(1,2) this r(3,4), of 0 False] r(1) show ?thesis
    by (simp del: mstep.simps) blast
qed

theorem SingleThreadPool_shutdown_is_final_witness:
  "\<exists>(s :: nat single_sys) pc. single_reachable FIFO s pc \<and> pc 1 = Client (S_ShutReturned True) \<and>
     sp_state (ss_pool s) = Pool_SHUTDOWN"
proof -
  have "run_check single_machine
      ([Act 1 (CallShutDown True)] @ steps_of [1, 1, 1, 1, 0, 0, 0, 0, 1]) (single_start FIFO)
      (\<lambda>s pc. pc 1 = Client (S_ShutReturned True))"
    by code_simp
  from single_run [OF this] obtain s :: "nat single_sys" and pc
    where r: "single_reachable FIFO s pc" "pc 1 = Client (S_ShutReturned True)" by blast
  with SingleThreadPool_shutdown_is_final [OF r(1), of 0 _ 1] show ?thesis by blast
qed

theorem SingleThreadPool_end_overtakes_witness:
  "\<exists>(s :: nat single_sys) pc s'. single_reachable FIFO s pc \<and> PriorityFunctorTask 10 100 \<in> set (pool_queue (ss_pool s)) \<and>
     mstep single_machine (Act 0 (S_Step 0 False)) (s, pc) = Some (s', pc(0 := Worker SW_SetShutDown))"
proof -
  have "run_check single_machine
      (steps_of [0, 0, 0] @ adds 2 10 100 @ [Act 1 (CallShutDown False)] @ steps_of [1, 1, 1, 1]) (single_start FIFO)
      (\<lambda>s pc. pc 0 = Worker SW_Get \<and> EndPriorityTask_ctor \<in> set (pool_queue (ss_pool s)) \<and>
         PriorityFunctorTask 10 100 \<in> set (pool_queue (ss_pool s)) \<and>
         (\<forall>x \<in> set (pool_queue (ss_pool s)). is_functor x \<longrightarrow> 0 < GetPriorityValue x))"
    by code_simp
  from single_run [OF this] obtain s :: "nat single_sys" and pc
    where r: "single_reachable FIFO s pc" "pc 0 = Worker SW_Get" "EndPriorityTask_ctor \<in> set (pool_queue (ss_pool s))"
      "\<forall>x \<in> set (pool_queue (ss_pool s)). is_functor x \<longrightarrow> 0 < GetPriorityValue x"
      "PriorityFunctorTask 10 100 \<in> set (pool_queue (ss_pool s))" by blast
  from SingleThreadPool_end_overtakes [OF r(1) _ r(2-4), of 0 False] r(1,5) show ?thesis by blast
qed

end
