(* ===== verification/TimerTask.thy ===== *)
theory TimerTask
  imports TaskBase PriorityQueue
begin

text \<open>
  Timer tasks and their queue: \<open>include/empool/TimerTask.h\<close>, \<open>src/TimerTask.cpp\<close>,
  \<open>include/empool/TimerTaskQueue.h\<close>, \<open>src/TimerTaskQueue.cpp\<close>.  The queue holds shared pointers
  to tasks whose deadlines change while they are queued, so tasks live in a store, indexed by
  identifiers, and the queue is a heap of identifiers.
\<close>

section \<open>Timer tasks\<close>

text \<open>
  The members that \<open>TimerTask\<close> adds to \<open>TaskBase\<close>; \<open>tt_isEnd\<close> is the dynamic type
  \<open>EndTimerTask\<close>, whose \<open>DoRun\<close> does nothing.
\<close>

record timer_task = task_base +
  tt_deadline :: TimeValue
  tt_interval :: TimeValue
  tt_time_guard :: mutex
  tt_isEnd :: bool

definition TimerTask_ctor :: "mutex \<Rightarrow> timer_task" where
  "TimerTask_ctor m = task_base.extend (TaskBase_ctor m)
     \<lparr>tt_deadline = 0, tt_interval = 0, tt_time_guard = m, tt_isEnd = False\<rparr>"

definition EndTimerTask_ctor :: "mutex \<Rightarrow> timer_task" where
  "EndTimerTask_ctor m = (TimerTask_ctor m)\<lparr>tt_isEnd := True\<rparr>"

definition with_time_guard :: "tid \<Rightarrow> (timer_task \<Rightarrow> 'r \<times> timer_task) \<Rightarrow> timer_task \<Rightarrow>
    ('r \<times> timer_task) option" where
  "with_time_guard t f tt =
     do { m \<leftarrow> MutexLocker t (tt_time_guard tt);
          let (r, tt') = f tt;
          Some (r, tt'\<lparr>tt_time_guard := MutexLocker_dtor m\<rparr>) }"

definition GetDeadline :: "tid \<Rightarrow> timer_task \<Rightarrow> (TimeValue \<times> timer_task) option" where
  "GetDeadline t = with_time_guard t (\<lambda>tt. (tt_deadline tt, tt))"

definition SetDeadline :: "tid \<Rightarrow> TimeValue \<Rightarrow> timer_task \<Rightarrow> (unit \<times> timer_task) option" where
  "SetDeadline t deadline = with_time_guard t (\<lambda>tt. ((), tt\<lparr>tt_deadline := deadline\<rparr>))"

definition IsIntervalTask :: "tid \<Rightarrow> timer_task \<Rightarrow> (bool \<times> timer_task) option" where
  "IsIntervalTask t = with_time_guard t (\<lambda>tt. (tt_interval tt > 0, tt))"

definition GetInterval :: "tid \<Rightarrow> timer_task \<Rightarrow> (TimeValue \<times> timer_task) option" where
  "GetInterval t = with_time_guard t (\<lambda>tt. (tt_interval tt, tt))"

definition SetInterval :: "tid \<Rightarrow> TimeValue \<Rightarrow> timer_task \<Rightarrow> (unit \<times> timer_task) option" where
  "SetInterval t interval = with_time_guard t (\<lambda>tt. ((), tt\<lparr>tt_interval := interval\<rparr>))"

text \<open>Both mutexes of a task are free.\<close>

definition task_free :: "timer_task \<Rightarrow> bool" where
  "task_free tt \<longleftrightarrow> cv_free (tb_cancelCondition tt) \<and> m_isInit (tt_time_guard tt) \<and>
     m_owner (tt_time_guard tt) = None"

lemma time_guard_ops [sync]:
  assumes "task_free tt"
  shows "GetDeadline t tt = Some (tt_deadline tt, tt)"
    and "SetDeadline t d tt = Some ((), tt\<lparr>tt_deadline := d\<rparr>)"
    and "IsIntervalTask t tt = Some (tt_interval tt > 0, tt)"
    and "GetInterval t tt = Some (tt_interval tt, tt)"
    and "SetInterval t i tt = Some ((), tt\<lparr>tt_interval := i\<rparr>)"
  using assms
  by (cases tt; simp add: GetDeadline_def SetDeadline_def IsIntervalTask_def GetInterval_def
      SetInterval_def with_time_guard_def task_free_def MutexLocker_def MutexLocker_dtor_def
      Mutex_Lock_def Mutex_Unlock_def; metis mutex.surjective mutex.update_convs(2) old.unit.exhaust)+

lemma task_free_upd [sync]:
  "task_free (tt\<lparr>tt_deadline := d\<rparr>) = task_free tt" "task_free (tt\<lparr>tt_interval := i\<rparr>) = task_free tt"
  "task_free (tt\<lparr>tb_state := st\<rparr>) = task_free tt" "task_free (tt\<lparr>tb_isRequestCancel := b\<rparr>) = task_free tt"
  by (simp_all add: task_free_def)

lemma task_free_cond [sync]:
  "task_free (tt\<lparr>tb_cancelCondition := (tb_cancelCondition tt)\<lparr>m_cond := ts\<rparr>\<rparr>) = task_free tt"
  "task_free (tt\<lparr>tb_cancelCondition := CV_NotifyAll (tb_cancelCondition tt)\<rparr>) = task_free tt"
  "task_free (tt\<lparr>tb_cancelCondition := cv_unwait t (tb_cancelCondition tt)\<rparr>) = task_free tt"
  by (simp_all add: task_free_def sync)

lemma task_free_ctor [sync]:
  "task_free (TimerTask_ctor \<lparr>m_isInit = True, m_owner = None\<rparr>)"
  "task_free (EndTimerTask_ctor \<lparr>m_isInit = True, m_owner = None\<rparr>)"
  by (simp_all add: task_free_def TimerTask_ctor_def EndTimerTask_ctor_def TaskBase_ctor_def
      task_base.extend_def sync)

section \<open>The queue of timer tasks\<close>

type_synonym task_id = nat
type_synonym store = "task_id \<Rightarrow> timer_task"

record timer_queue =
  tq_cond :: condition_variable
  tq_queue :: "task_id list"

definition TimerTaskQueue_ctor :: "mutex \<Rightarrow> timer_queue" where
  "TimerTaskQueue_ctor m = \<lparr>tq_cond = ConditionVariable_ctor m, tq_queue = []\<rparr>"

text \<open>
  The comparison reads both deadlines; each read is a scope of that task's \<open>m_time_guard\<close>, which
  nobody holds across another operation.
\<close>

definition CompareTimerTask :: "store \<Rightarrow> task_id \<Rightarrow> task_id \<Rightarrow> bool" where
  "CompareTimerTask st a b \<longleftrightarrow> tt_deadline (st a) > tt_deadline (st b)"

definition TimerTaskQueue_IsEmpty :: "timer_queue \<Rightarrow> bool" where
  "TimerTaskQueue_IsEmpty q \<longleftrightarrow> tq_queue q = []"

definition TimerTaskQueue_GetSize :: "timer_queue \<Rightarrow> 32 word" where
  "TimerTaskQueue_GetSize q = word_of_nat (length (tq_queue q))"

text \<open>\<open>None\<close>: the assertion that the queue is not empty fails.\<close>

definition TimerTaskQueue_GetMin :: "timer_queue \<Rightarrow> task_id option" where
  "TimerTaskQueue_GetMin q = (if tq_queue q = [] then None else Some (pq_top (tq_queue q)))"

definition TimerTaskQueue_PopMin :: "store \<Rightarrow> timer_queue \<Rightarrow> (task_id \<times> timer_queue) option" where
  "TimerTaskQueue_PopMin st q =
     (if tq_queue q = [] then None
      else Some (pq_top (tq_queue q), q\<lparr>tq_queue := pq_pop (CompareTimerTask st) (tq_queue q)\<rparr>))"

definition TimerTaskQueue_PopMinAndPush :: "store \<Rightarrow> timer_queue \<Rightarrow> timer_queue option" where
  "TimerTaskQueue_PopMinAndPush st q =
     (if tq_queue q = [] then None
      else (let min_task = pq_top (tq_queue q);
                popped = pq_pop (CompareTimerTask st) (tq_queue q)
            in Some (q\<lparr>tq_queue := pq_push (CompareTimerTask st) min_task popped\<rparr>)))"

definition TimerTaskQueue_PushTask :: "store \<Rightarrow> nat \<Rightarrow> task_id \<Rightarrow> timer_queue \<Rightarrow> timer_queue" where
  "TimerTaskQueue_PushTask st n task q =
     q\<lparr>tq_queue := pq_push (CompareTimerTask st) task (tq_queue q), tq_cond := CV_Notify n (tq_cond q)\<rparr>"

definition TimerTaskQueue_Wait :: "tid \<Rightarrow> timer_queue \<Rightarrow> timer_queue" where
  "TimerTaskQueue_Wait t q = q\<lparr>tq_cond := CV_Wait t (tq_cond q)\<rparr>"

definition TimerTaskQueue_Notify :: "nat \<Rightarrow> timer_queue \<Rightarrow> timer_queue" where
  "TimerTaskQueue_Notify n q = q\<lparr>tq_cond := CV_Notify n (tq_cond q)\<rparr>"

text \<open>A timed wait blocks like the other one; the program counter remembers when it expires.\<close>

definition TimerTaskQueue_TimedWait :: "tid \<Rightarrow> TimeValue \<Rightarrow> timer_queue \<Rightarrow> timer_queue" where
  "TimerTaskQueue_TimedWait t delay q = q\<lparr>tq_cond := CV_Wait t (tq_cond q)\<rparr>"

lemma length_pop_less: "xs \<noteq> [] \<Longrightarrow> length (pq_pop cmp xs) < length xs"
  using arg_cong [OF mset_pop, of xs size cmp] by simp

function TimerTaskQueue_Clear :: "store \<Rightarrow> timer_queue \<Rightarrow> timer_queue" where
  "TimerTaskQueue_Clear st q =
     (if \<not> TimerTaskQueue_IsEmpty q
      then TimerTaskQueue_Clear st (q\<lparr>tq_queue := pq_pop (CompareTimerTask st) (tq_queue q)\<rparr>)
      else q)"
  by pat_completeness auto
termination
  by (relation "measure (\<lambda>(st, q). length (tq_queue q))")
     (auto simp: TimerTaskQueue_IsEmpty_def length_pop_less)

declare TimerTaskQueue_Clear.simps [simp del]

lemma TimerTaskQueue_Clear_empties: "TimerTaskQueue_Clear st q = q\<lparr>tq_queue := []\<rparr>"
proof (induction st q rule: TimerTaskQueue_Clear.induct)
  case (1 st q)
  then show ?case
    by (subst TimerTaskQueue_Clear.simps) (cases q; auto simp: TimerTaskQueue_IsEmpty_def)
qed

section \<open>The order of the queue\<close>

text \<open>\<open>later st x y\<close>: \<open>y\<close> is due no later than \<open>x\<close>.\<close>

definition later :: "store \<Rightarrow> task_id \<Rightarrow> task_id \<Rightarrow> bool" where
  "later st x y \<longleftrightarrow> tt_deadline (st y) \<le> tt_deadline (st x)"

interpretation deadline: heap_order "CompareTimerTask st" "later st" for st
  by unfold_locales (auto simp: CompareTimerTask_def later_def)

text \<open>A store that agrees on the deadlines of the queued tasks has the same heaps.\<close>

lemma is_heap_store:
  assumes "is_heap (later st) xs" and "\<And>x. x \<in> set xs \<Longrightarrow> tt_deadline (st' x) = tt_deadline (st x)"
  shows "is_heap (later st') xs"
proof -
  have "(i - 1) div 2 < length xs" if "i < length xs" for i using that by auto
  with assms show ?thesis by (auto simp: is_heap_def above_def later_def)
qed

text \<open>
  \<open>PopMinAndPush\<close> is called after the deadline of the task at the root has been changed, when the
  array is no heap any more.  The comparisons of \<open>pop\<close> never look at the root, so the order is
  restored.
\<close>

lemma reschedule_heap:
  assumes heap: "is_heap (later st) xs" and once: "distinct xs" and ne: "xs \<noteq> []"
    and st': "\<And>x. x \<noteq> pq_top xs \<Longrightarrow> tt_deadline (st' x) = tt_deadline (st x)"
  shows "is_heap (later st') (pq_push (CompareTimerTask st') (pq_top xs) (pq_pop (CompareTimerTask st') xs))"
proof (rule deadline.push_heap, rule deadline.pop_heap_root)
  fix i assume i: "i < length xs" "0 < i" "0 < (i - 1) div 2"
  then have "(i - 1) div 2 < length xs" by auto
  moreover have top: "pq_top xs = xs ! 0" using ne by (cases xs) (auto simp: pq_top_def)
  ultimately have "xs ! i \<noteq> pq_top xs" "xs ! ((i - 1) div 2) \<noteq> pq_top xs"
    using i ne once by (auto simp: nth_eq_iff_index_eq)
  with st' heap i show "above (later st') xs i"
    by (auto simp: is_heap_def above_def later_def)
qed

lemma reschedule_mset:
  "xs \<noteq> [] \<Longrightarrow> mset (pq_push cmp (pq_top xs) (pq_pop cmp xs)) = mset xs"
  using mset_pop [of xs cmp] by (simp add: mset_push)

lemma top_is_min:
  assumes "is_heap (later st) xs" and "x \<in> set xs"
  shows "tt_deadline (st (pq_top xs)) \<le> tt_deadline (st x)"
  using deadline.pq.top_max [OF assms(1)] assms(2) by (simp add: later_def)

lemma pq_top_in: "xs \<noteq> [] \<Longrightarrow> pq_top xs \<in> set xs"
  by (simp add: pq_top_def)

end
