(* ===== verification/TimerTaskHandler.thy ===== *)
theory TimerTaskHandler
  imports CloseableThread TimerTask
begin

text \<open>
  The timer: \<open>include/empool/TimerTaskHandler.h\<close>, \<open>src/TimerTaskHandler.cpp\<close>.  One thread fires the
  tasks of a \<open>TimerTaskQueue\<close>; any number of threads add, cancel and shut down.  A critical
  section of \<open>m_queue_guard\<close> is one action, and so is every access to a task outside of it.
  The readings of the clock are choices of the environment: nothing is assumed about them.
\<close>

section \<open>State\<close>

text \<open>
  The members of the handler (\<open>m_queue_guard\<close> is the mutex of the queue's condition variable),
  the tasks it points to, and the log of fired tasks with the clock readings that fired them.
\<close>

record handler_sys =
  hs_isRequestShutDown :: bool
  hs_task_queue :: timer_queue
  hs_thread :: closeable_thread
  hs_store :: store
  hs_next :: task_id
  hs_fired :: "(task_id \<times> TimeValue) list"

abbreviation free_mutex :: mutex where
  "free_mutex \<equiv> \<lparr>m_isInit = True, m_owner = None\<rparr>"

definition TimerTaskHandler_ctor :: handler_sys where
  "TimerTaskHandler_ctor = \<lparr>hs_isRequestShutDown = False, hs_task_queue = TimerTaskQueue_ctor free_mutex,
     hs_thread = CloseableThread_ctor free_mutex, hs_store = (\<lambda>_. TimerTask_ctor free_mutex),
     hs_next = 0, hs_fired = []\<rparr>"

abbreviation hs_queue :: "handler_sys \<Rightarrow> task_id list" where
  "hs_queue s \<equiv> tq_queue (hs_task_queue s)"

abbreviation hs_cond :: "handler_sys \<Rightarrow> condition_variable" where
  "hs_cond s \<equiv> tq_cond (hs_task_queue s)"

abbreviation due :: "handler_sys \<Rightarrow> task_id \<Rightarrow> TimeValue" where
  "due s task \<equiv> tt_deadline (hs_store s task)"

definition unlock_queue :: "timer_queue \<Rightarrow> timer_queue" where
  "unlock_queue q = q\<lparr>tq_cond := CV_Unlock (tq_cond q)\<rparr>"

definition TimerTaskHandler_CheckIsRequestShutDown :: "handler_sys \<Rightarrow> bool" where
  "TimerTaskHandler_CheckIsRequestShutDown s = hs_isRequestShutDown s"

section \<open>The thread\<close>

text \<open>
  Program counters: \<open>H_Loop\<close> is the top of the loop, \<open>H_Wait\<close> and \<open>H_TimedWait D\<close> are the two
  waits (\<open>D\<close> is the deadline the second one waits for), \<open>H_Woken\<close> a timed wait that expired,
  \<open>H_Fire\<close> is after the critical section, before the first check of \<open>Run\<close>; \<open>H_SetRunning\<close>,
  \<open>H_Body\<close>, \<open>H_SetStopped\<close> and \<open>H_NotifyTask\<close> are the rest of \<open>Run\<close>: \<open>SetState(RUNNING)\<close>, inside
  \<open>DoRun\<close>, \<open>SetState(FINISHED)\<close> or \<open>SetState(CANCELLED)\<close>, and the notification of the threads that
  cancel the task.
\<close>

datatype timer_pc = H_Start | H_Check0 | H_Loop | H_Wait | H_TimedWait TimeValue | H_Woken
  | H_Fire task_id | H_SetRunning task_id | H_Body task_id | H_SetStopped task_id task_state | H_NotifyTask task_id
  | H_SetFinished | H_NotifyClosed | H_Done | H_Threw

text \<open>One critical section of the loop, from the lock to the unlock or to a wait.\<close>

definition TimerTaskHandler_iteration :: "tid \<Rightarrow> TimeValue \<Rightarrow> handler_sys \<Rightarrow> (timer_pc \<times> handler_sys) option" where
  "TimerTaskHandler_iteration t now s =
     do { c \<leftarrow> CV_Lock t (hs_cond s);
          let q = (hs_task_queue s)\<lparr>tq_cond := c\<rparr>;
          if TimerTaskQueue_IsEmpty q
          then (case CheckIsRequestClose (hs_thread s) of
                  Inl _ \<Rightarrow> Some (H_SetFinished, s\<lparr>hs_task_queue := unlock_queue q\<rparr>)
                | Inr _ \<Rightarrow> Some (H_Wait, s\<lparr>hs_task_queue := TimerTaskQueue_Wait t q\<rparr>))
          else (case CheckIsRequestClose (hs_thread s) of
                  Inl _ \<Rightarrow> Some (H_SetFinished, s\<lparr>hs_task_queue := unlock_queue q\<rparr>)
                | Inr _ \<Rightarrow>
                    do { task \<leftarrow> TimerTaskQueue_GetMin q;
                         (deadline, tt) \<leftarrow> GetDeadline t (hs_store s task);
                         (cancelled, tt) \<leftarrow> TaskBase_IsCancelled t tt;
                         let st = (hs_store s)(task := tt);
                         if cancelled then
                           do { (_, q') \<leftarrow> TimerTaskQueue_PopMin st q;
                                Some (H_Loop, s\<lparr>hs_store := st, hs_task_queue := unlock_queue q'\<rparr>) }
                         else if TaskBase_IsRequestCancel tt then
                           do { (_, q') \<leftarrow> TimerTaskQueue_PopMin st q;
                                Some (H_Fire task, s\<lparr>hs_store := st, hs_task_queue := unlock_queue q',
                                                     hs_fired := hs_fired s @ [(task, now)]\<rparr>) }
                         else if deadline \<le> now then
                           do { (is_interval, tt) \<leftarrow> IsIntervalTask t tt;
                                if is_interval then
                                  do { (interval, tt) \<leftarrow> GetInterval t tt;
                                       (_, tt) \<leftarrow> SetDeadline t (now + interval) tt;
                                       let st = (hs_store s)(task := tt);
                                       q' \<leftarrow> TimerTaskQueue_PopMinAndPush st q;
                                       Some (H_Fire task, s\<lparr>hs_store := st, hs_task_queue := unlock_queue q',
                                                            hs_fired := hs_fired s @ [(task, now)]\<rparr>) }
                                else
                                  do { (_, q') \<leftarrow> TimerTaskQueue_PopMin st q;
                                       Some (H_Fire task, s\<lparr>hs_store := st, hs_task_queue := unlock_queue q',
                                                            hs_fired := hs_fired s @ [(task, now)]\<rparr>) } }
                         else Some (H_TimedWait deadline,
                                s\<lparr>hs_store := st, hs_task_queue := TimerTaskQueue_TimedWait t (deadline - now) q\<rparr>) }) }"

text \<open>
  The fired task: an end task ends the loop, any other is run, \<open>TaskBase::Run\<close> with the actions it has
  in theory \<open>TaskBase\<close>.  The body returns, calls \<open>CheckCancellation\<close> when the flag is set, or throws.
\<close>

datatype body_outcome = BodyReturns | BodyCancelled | BodyThrows

fun timer_run_task :: "tid \<Rightarrow> timer_pc \<Rightarrow> handler_sys \<Rightarrow> (timer_pc \<times> handler_sys) option" where
  "timer_run_task t (H_Fire task) s =
     Some (if tt_isEnd (hs_store s task) then H_SetFinished
           else case TaskBase_CheckCancellation (hs_store s task) of
             Inl _ \<Rightarrow> H_SetStopped task Task_CANCELLED | Inr _ \<Rightarrow> H_SetRunning task, s)"
| "timer_run_task t (H_SetRunning task) s =
     do { (_, tt) \<leftarrow> TaskBase_SetState t Task_RUNNING (hs_store s task);
          Some (H_Body task, s\<lparr>hs_store := (hs_store s)(task := tt)\<rparr>) }"
| "timer_run_task t (H_SetStopped task st) s =
     do { (_, tt) \<leftarrow> TaskBase_SetState t st (hs_store s task);
          Some (H_NotifyTask task, s\<lparr>hs_store := (hs_store s)(task := tt)\<rparr>) }"
| "timer_run_task t (H_NotifyTask task) s =
     (let tt = hs_store s task in
      do { l \<leftarrow> ConditionNotifyAllLocker t (TaskBase_IsRequestCancel tt) (tb_cancelCondition tt);
           Some (H_Loop, s\<lparr>hs_store := (hs_store s)(task := tt\<lparr>tb_cancelCondition := ConditionNotifyAllLocker_dtor l\<rparr>)\<rparr>) })"
| "timer_run_task _ _ _ = None"

definition timer_body :: "body_outcome \<Rightarrow> task_id \<Rightarrow> handler_sys \<Rightarrow> (timer_pc \<times> handler_sys) option" where
  "timer_body outcome task s =
     (case outcome of
        BodyReturns \<Rightarrow> Some (H_SetStopped task Task_FINISHED, s)
      | BodyCancelled \<Rightarrow>
          (case TaskBase_CheckCancellation (hs_store s task) of
             Inl _ \<Rightarrow> Some (H_SetStopped task Task_CANCELLED, s) | Inr _ \<Rightarrow> None)
      | BodyThrows \<Rightarrow> Some (H_Threw, s))"

fun TimerTaskHandler_ThreadFunction :: "TimeValue \<Rightarrow> tid \<Rightarrow> timer_pc \<Rightarrow> handler_sys \<Rightarrow>
    (timer_pc \<times> handler_sys) option" where
  "TimerTaskHandler_ThreadFunction now t H_Loop s = TimerTaskHandler_iteration t now s"
| "TimerTaskHandler_ThreadFunction now t H_Wait s = TimerTaskHandler_iteration t now s"
| "TimerTaskHandler_ThreadFunction now t (H_TimedWait d) s =
     do { c \<leftarrow> CV_Scope t (hs_cond s);
          Some (H_Loop, s\<lparr>hs_task_queue := (hs_task_queue s)\<lparr>tq_cond := c\<rparr>\<rparr>) }"
| "TimerTaskHandler_ThreadFunction now t H_Woken s =
     do { c \<leftarrow> CV_Scope t (hs_cond s);
          Some (H_Loop, s\<lparr>hs_task_queue := (hs_task_queue s)\<lparr>tq_cond := c\<rparr>\<rparr>) }"
| "TimerTaskHandler_ThreadFunction now t H_Start s =
     Some (H_Check0, s\<lparr>hs_thread := CloseableThread_SetState Thread_RUNNING (hs_thread s)\<rparr>)"
| "TimerTaskHandler_ThreadFunction now t H_Check0 s =
     (case CheckIsRequestClose (hs_thread s) of Inl _ \<Rightarrow> Some (H_SetFinished, s) | Inr _ \<Rightarrow> Some (H_Loop, s))"
| "TimerTaskHandler_ThreadFunction now t H_SetFinished s =
     Some (H_NotifyClosed, s\<lparr>hs_thread := CloseableThread_SetState Thread_FINISHED (hs_thread s)\<rparr>)"
| "TimerTaskHandler_ThreadFunction now t H_NotifyClosed s =
     do { ct \<leftarrow> CloseableThread_NotifyFinished_notify t (hs_thread s); Some (H_Done, s\<lparr>hs_thread := ct\<rparr>) }"
| "TimerTaskHandler_ThreadFunction _ t w s = timer_run_task t w s"

section \<open>Adding and shutting down\<close>

text \<open>
  \<open>A_LoadClose\<close>, \<open>A_TestDeadline\<close>, \<open>A_SetDeadline\<close>, \<open>A_SetInterval\<close>, \<open>A_Push\<close> are the steps of
  \<open>DoAddCronTimerTask\<close> (no interval) and \<open>DoAddCycleTimerTask\<close> (with one).
\<close>

datatype user_pc = A_Idle | A_LoadClose task_id TimeValue "TimeValue option"
  | A_TestDeadline task_id TimeValue "TimeValue option" | A_SetDeadline task_id TimeValue "TimeValue option"
  | A_SetInterval task_id TimeValue | A_Push task_id | A_Added bool
  | A_ShutDown bool | A_PushEnd bool | A_Close bool | A_CloseWait | A_ShutReturned
  | A_CancelWait task_id | A_Cancelled

definition DoAddCronTimerTask :: "task_id \<Rightarrow> TimeValue \<Rightarrow> TimeValue \<Rightarrow> user_pc" where
  "DoAddCronTimerTask task now delay_in_ms = A_LoadClose task (now + delay_in_ms) None"

definition DoAddCycleTimerTask :: "task_id \<Rightarrow> TimeValue \<Rightarrow> TimeValue \<Rightarrow> bool \<Rightarrow> user_pc" where
  "DoAddCycleTimerTask task now interval_in_ms is_run_now =
     A_LoadClose task (if is_run_now then now else now + interval_in_ms) (Some interval_in_ms)"

text \<open>The public forms that take a task.\<close>

definition TimerTaskHandler_AddCronTimerTask :: "task_id \<Rightarrow> TimeValue \<Rightarrow> TimeValue \<Rightarrow> user_pc" where
  "TimerTaskHandler_AddCronTimerTask task now delay = DoAddCronTimerTask task now delay"

definition TimerTaskHandler_AddCycleTimerTask :: "task_id \<Rightarrow> TimeValue \<Rightarrow> TimeValue \<Rightarrow> bool \<Rightarrow> user_pc" where
  "TimerTaskHandler_AddCycleTimerTask task now interval is_run_now = DoAddCycleTimerTask task now interval is_run_now"

lemmas timer_add_forms = TimerTaskHandler_AddCronTimerTask_def TimerTaskHandler_AddCycleTimerTask_def

fun TimerTaskHandler_add :: "nat \<Rightarrow> tid \<Rightarrow> user_pc \<Rightarrow> handler_sys \<Rightarrow> (user_pc \<times> handler_sys) option" where
  "TimerTaskHandler_add n t (A_LoadClose task d i) s =
     Some (if CloseableThread_IsRequestClose (hs_thread s) then A_Added False else A_TestDeadline task d i, s)"
| "TimerTaskHandler_add n t (A_TestDeadline task d i) s =
     do { (deadline, tt) \<leftarrow> GetDeadline t (hs_store s task);
          Some (if deadline \<noteq> 0 then A_Added False else A_SetDeadline task d i,
                s\<lparr>hs_store := (hs_store s)(task := tt)\<rparr>) }"
| "TimerTaskHandler_add n t (A_SetDeadline task d i) s =
     do { (_, tt) \<leftarrow> SetDeadline t d (hs_store s task);
          Some (case i of None \<Rightarrow> A_Push task | Some interval \<Rightarrow> A_SetInterval task interval,
                s\<lparr>hs_store := (hs_store s)(task := tt)\<rparr>) }"
| "TimerTaskHandler_add n t (A_SetInterval task interval) s =
     do { (_, tt) \<leftarrow> SetInterval t interval (hs_store s task);
          Some (A_Push task, s\<lparr>hs_store := (hs_store s)(task := tt)\<rparr>) }"
| "TimerTaskHandler_add n t (A_Push task) s =
     do { c \<leftarrow> CV_Lock t (hs_cond s);
          let q = (hs_task_queue s)\<lparr>tq_cond := c\<rparr>;
          Some (A_Added True,
                s\<lparr>hs_task_queue := unlock_queue (TimerTaskQueue_PushTask (hs_store s) n task q)\<rparr>) }"
| "TimerTaskHandler_add _ _ _ _ = None"

text \<open>
  \<open>ShutDownHelper\<close>.  The task \<open>endTask\<close> whose deadline is set is dropped; the one that is pushed is
  a second, fresh one.
\<close>

fun TimerTaskHandler_ShutDownHelper :: "TimeValue \<Rightarrow> nat \<Rightarrow> bool \<Rightarrow> tid \<Rightarrow> user_pc \<Rightarrow> handler_sys \<Rightarrow>
    (user_pc \<times> handler_sys) option" where
  "TimerTaskHandler_ShutDownHelper now n sp t (A_ShutDown close) s =
     (case compare_exchange_weak sp False True (hs_isRequestShutDown s) of
        (won, v) \<Rightarrow> Some (if won then A_PushEnd close else A_ShutReturned, s\<lparr>hs_isRequestShutDown := v\<rparr>))"
| "TimerTaskHandler_ShutDownHelper now n sp t (A_PushEnd close) s =
     do { c \<leftarrow> CV_Lock t (hs_cond s);
          (_, endTask) \<leftarrow> SetDeadline t now (EndTimerTask_ctor free_mutex);
          let st = (hs_store s)(hs_next s := EndTimerTask_ctor free_mutex);
          let q = (hs_task_queue s)\<lparr>tq_cond := c\<rparr>;
          Some (A_Close close,
                s\<lparr>hs_store := st, hs_next := Suc (hs_next s),
                  hs_task_queue := unlock_queue (TimerTaskQueue_PushTask st n (hs_next s) q)\<rparr>) }"
| "TimerTaskHandler_ShutDownHelper now n sp t (A_Close close) s =
     (if close
      then (case compare_exchange_weak sp False True (ct_isRequestClose (hs_thread s)) of
              (won, v) \<Rightarrow> Some (if won then A_CloseWait else A_ShutReturned,
                               s\<lparr>hs_thread := (hs_thread s)\<lparr>ct_isRequestClose := v\<rparr>\<rparr>))
      else Some (A_ShutReturned, s\<lparr>hs_thread := CloseableThread_AsyncClose sp (hs_thread s)\<rparr>))"
| "TimerTaskHandler_ShutDownHelper now n sp t A_CloseWait s =
     do { (slept, l) \<leftarrow> ConditionWaitLocker t (\<not> CloseableThread_IsFinished (hs_thread s)) (ct_stateGuard (hs_thread s));
          Some (if slept then (A_CloseWait, s\<lparr>hs_thread := (hs_thread s)\<lparr>ct_stateGuard := l\<rparr>\<rparr>)
                else (A_ShutReturned,
                      s\<lparr>hs_thread := (hs_thread s)\<lparr>ct_stateGuard := ConditionWaitLocker_dtor l\<rparr>\<rparr>)) }"
| "TimerTaskHandler_ShutDownHelper _ _ _ _ _ _ = None"

text \<open>The wait of \<open>TaskBase::Cancel\<close>, after its store of the flag.\<close>

fun timer_cancel :: "tid \<Rightarrow> user_pc \<Rightarrow> handler_sys \<Rightarrow> (user_pc \<times> handler_sys) option" where
  "timer_cancel t (A_CancelWait task) s =
     (let tt = hs_store s task in
      do { (slept, l) \<leftarrow> ConditionWaitLocker t (\<not> TaskBase_IsStopState tt) (tb_cancelCondition tt);
           Some (if slept then (A_CancelWait task, s\<lparr>hs_store := (hs_store s)(task := tt\<lparr>tb_cancelCondition := l\<rparr>)\<rparr>)
                 else (A_Cancelled, s\<lparr>hs_store := (hs_store s)(task := tt\<lparr>tb_cancelCondition := ConditionWaitLocker_dtor l\<rparr>)\<rparr>)) })"
| "timer_cancel _ _ _ = None"

section \<open>The handler, its thread and its users\<close>

text \<open>
  \<open>CallCron\<close> and \<open>CallCycle\<close> are the functor forms of the add functions, which make a fresh task;
  \<open>CallCronTask\<close> and \<open>CallCycleTask\<close> are the forms that take a task (made by \<open>NewTask\<close>), enabled only
  when the machine's parameter \<open>shared\<close> is set.  \<open>CallCancel\<close> is \<open>TaskBase::Cancel\<close> on a task that an
  add has made or returned.  A caller can name a task only when it exists, which is what the tests of
  \<open>hs_next\<close> say, and end tasks are private to the timer.
\<close>

datatype handler_pc = Timer timer_pc | User user_pc

datatype handler_ev = CallCron TimeValue TimeValue | CallCycle TimeValue TimeValue bool
  | NewTask | CallCronTask task_id TimeValue TimeValue | CallCycleTask task_id TimeValue TimeValue bool
  | CallCancel task_id | CallShutDown bool
  | HStep TimeValue nat bool | BodyEnds body_outcome

definition user_ready :: "user_pc \<Rightarrow> bool" where
  "user_ready c \<longleftrightarrow> (case c of A_Idle \<Rightarrow> True | A_Added _ \<Rightarrow> True | A_ShutReturned \<Rightarrow> True | A_Cancelled \<Rightarrow> True
     | _ \<Rightarrow> False)"

definition new_task :: "handler_sys \<Rightarrow> handler_sys" where
  "new_task s = s\<lparr>hs_store := (hs_store s)(hs_next s := TimerTask_ctor free_mutex), hs_next := Suc (hs_next s)\<rparr>"

definition user_call :: "bool \<Rightarrow> handler_ev \<Rightarrow> handler_sys \<Rightarrow> (user_pc \<times> handler_sys) option" where
  "user_call shared e s =
     (case e of
        CallCron now delay \<Rightarrow> Some (DoAddCronTimerTask (hs_next s) now delay, new_task s)
      | CallCycle now interval is_run_now \<Rightarrow>
          Some (DoAddCycleTimerTask (hs_next s) now interval is_run_now, new_task s)
      | NewTask \<Rightarrow> Some (A_Idle, new_task s)
      | CallCronTask task now delay \<Rightarrow>
          (if shared \<and> task < hs_next s \<and> \<not> tt_isEnd (hs_store s task)
           then Some (TimerTaskHandler_AddCronTimerTask task now delay, s) else None)
      | CallCycleTask task now interval is_run_now \<Rightarrow>
          (if shared \<and> task < hs_next s \<and> \<not> tt_isEnd (hs_store s task)
           then Some (TimerTaskHandler_AddCycleTimerTask task now interval is_run_now, s) else None)
      | CallCancel task \<Rightarrow>
          (if task < hs_next s \<and> \<not> tt_isEnd (hs_store s task)
           then Some (A_CancelWait task, s\<lparr>hs_store := (hs_store s)(task := (hs_store s task)\<lparr>tb_isRequestCancel := True\<rparr>)\<rparr>)
           else None)
      | CallShutDown close \<Rightarrow> Some (A_ShutDown close, s)
      | _ \<Rightarrow> None)"

definition handler_act :: "bool \<Rightarrow> handler_ev \<Rightarrow> tid \<Rightarrow> handler_pc \<Rightarrow> handler_sys \<Rightarrow>
    (handler_pc \<times> handler_sys) option" where
  "handler_act shared e t k s =
     (case k of
        Timer w \<Rightarrow>
          (case e of
             HStep now n sp \<Rightarrow>
               map_option (\<lambda>(w', s'). (Timer w', s')) (TimerTaskHandler_ThreadFunction now t w s)
           | BodyEnds outcome \<Rightarrow>
               (case w of H_Body task \<Rightarrow> map_option (\<lambda>(w', s'). (Timer w', s')) (timer_body outcome task s)
                | _ \<Rightarrow> None)
           | _ \<Rightarrow> None)
      | User c \<Rightarrow>
          (case e of
             HStep now n sp \<Rightarrow>
               (case TimerTaskHandler_add n t c s of Some (c', s') \<Rightarrow> Some (User c', s') | None \<Rightarrow>
                case timer_cancel t c s of Some (c', s') \<Rightarrow> Some (User c', s') | None \<Rightarrow>
                map_option (\<lambda>(c', s'). (User c', s')) (TimerTaskHandler_ShutDownHelper now n sp t c s))
           | BodyEnds outcome \<Rightarrow> None
           | _ \<Rightarrow> (if user_ready c then map_option (\<lambda>(c', s'). (User c', s')) (user_call shared e s) else None)))"

fun handler_expire :: "handler_pc \<Rightarrow> handler_pc option" where
  "handler_expire (Timer (H_TimedWait d)) = Some (Timer H_Woken)"
| "handler_expire _ = None"

text \<open>A thread waits on the queue, on the end of the timer's thread or on the end of a task.\<close>

definition cancel_unwait :: "tid \<Rightarrow> timer_task \<Rightarrow> timer_task" where
  "cancel_unwait t tt = tt\<lparr>tb_cancelCondition := cv_unwait t (tb_cancelCondition tt)\<rparr>"

definition handler_waiting :: "tid \<Rightarrow> handler_sys \<Rightarrow> bool" where
  "handler_waiting t s \<longleftrightarrow> cv_waiting (hs_cond s) t \<or> cv_waiting (ct_stateGuard (hs_thread s)) t \<or>
     list_ex (\<lambda>x. cv_waiting (tb_cancelCondition (hs_store s x)) t) [0..<hs_next s]"

definition handler_unwait :: "tid \<Rightarrow> handler_sys \<Rightarrow> handler_sys" where
  "handler_unwait t s = s\<lparr>hs_task_queue := (hs_task_queue s)\<lparr>tq_cond := cv_unwait t (hs_cond s)\<rparr>,
     hs_thread := (hs_thread s)\<lparr>ct_stateGuard := cv_unwait t (ct_stateGuard (hs_thread s))\<rparr>,
     hs_store := cancel_unwait t \<circ> hs_store s\<rparr>"

definition handler_machine :: "bool \<Rightarrow> (handler_sys, handler_pc, handler_ev) machine" where
  "handler_machine shared = \<lparr>act = handler_act shared,
     waiting = (\<lambda>s t. handler_waiting t s),
     unwait = handler_unwait, expire = handler_expire\<rparr>"

definition handler_start :: "(handler_sys, handler_pc) config" where
  "handler_start = (TimerTaskHandler_ctor, \<lambda>t. if t = 0 then Timer H_Start else User A_Idle)"

section \<open>The effects of one action\<close>

definition with_queue :: "task_id list \<Rightarrow> handler_sys \<Rightarrow> handler_sys" where
  "with_queue xs s = s\<lparr>hs_task_queue := (hs_task_queue s)\<lparr>tq_queue := xs\<rparr>\<rparr>"

definition with_cond :: "condition_variable \<Rightarrow> handler_sys \<Rightarrow> handler_sys" where
  "with_cond c s = s\<lparr>hs_task_queue := (hs_task_queue s)\<lparr>tq_cond := c\<rparr>\<rparr>"

definition with_task :: "task_id \<Rightarrow> timer_task \<Rightarrow> handler_sys \<Rightarrow> handler_sys" where
  "with_task x tt s = s\<lparr>hs_store := (hs_store s)(x := tt)\<rparr>"

definition fired :: "task_id \<Rightarrow> TimeValue \<Rightarrow> handler_sys \<Rightarrow> handler_sys" where
  "fired x now s = s\<lparr>hs_fired := hs_fired s @ [(x, now)]\<rparr>"

abbreviation popped :: "handler_sys \<Rightarrow> handler_sys" where
  "popped s \<equiv> with_queue (pq_pop (CompareTimerTask (hs_store s)) (hs_queue s)) s"

abbreviation sleeps :: "tid \<Rightarrow> handler_sys \<Rightarrow> handler_sys" where
  "sleeps t s \<equiv> with_cond ((hs_cond s)\<lparr>m_cond := m_cond (hs_cond s) @ [t]\<rparr>) s"

definition rescheduled :: "task_id \<Rightarrow> TimeValue \<Rightarrow> handler_sys \<Rightarrow> handler_sys" where
  "rescheduled x now s =
     (let s' = with_task x ((hs_store s x)\<lparr>tt_deadline := now + tt_interval (hs_store s x)\<rparr>) s;
          cmp = CompareTimerTask (hs_store s')
      in with_queue (pq_push cmp x (pq_pop cmp (hs_queue s))) s')"

definition queued :: "nat \<Rightarrow> task_id \<Rightarrow> handler_sys \<Rightarrow> handler_sys" where
  "queued n x s = with_cond (CV_Notify n (hs_cond s))
     (with_queue (pq_push (CompareTimerTask (hs_store s)) x (hs_queue s)) s)"

inductive iteration :: "tid \<Rightarrow> TimeValue \<Rightarrow> handler_sys \<Rightarrow> timer_pc \<Rightarrow> handler_sys \<Rightarrow> bool"
  for t :: tid and now :: TimeValue and s :: handler_sys where
  closes: "ct_isRequestClose (hs_thread s) \<Longrightarrow> iteration t now s H_SetFinished s"
| waits: "\<not> ct_isRequestClose (hs_thread s) \<Longrightarrow> hs_queue s = [] \<Longrightarrow> iteration t now s H_Wait (sleeps t s)"
| dropped: "\<not> ct_isRequestClose (hs_thread s) \<Longrightarrow> hs_queue s \<noteq> [] \<Longrightarrow> x = pq_top (hs_queue s) \<Longrightarrow>
     tb_state (hs_store s x) = Task_CANCELLED \<Longrightarrow> iteration t now s H_Loop (popped s)"
| asked: "\<not> ct_isRequestClose (hs_thread s) \<Longrightarrow> hs_queue s \<noteq> [] \<Longrightarrow> x = pq_top (hs_queue s) \<Longrightarrow>
     tb_isRequestCancel (hs_store s x) \<Longrightarrow> iteration t now s (H_Fire x) (fired x now (popped s))"
| periodic: "\<not> ct_isRequestClose (hs_thread s) \<Longrightarrow> hs_queue s \<noteq> [] \<Longrightarrow> x = pq_top (hs_queue s) \<Longrightarrow>
     due s x \<le> now \<Longrightarrow> 0 < tt_interval (hs_store s x) \<Longrightarrow>
     iteration t now s (H_Fire x) (fired x now (rescheduled x now s))"
| once: "\<not> ct_isRequestClose (hs_thread s) \<Longrightarrow> hs_queue s \<noteq> [] \<Longrightarrow> x = pq_top (hs_queue s) \<Longrightarrow>
     due s x \<le> now \<Longrightarrow> \<not> 0 < tt_interval (hs_store s x) \<Longrightarrow> iteration t now s (H_Fire x) (fired x now (popped s))"
| timed: "\<not> ct_isRequestClose (hs_thread s) \<Longrightarrow> hs_queue s \<noteq> [] \<Longrightarrow> x = pq_top (hs_queue s) \<Longrightarrow>
     now < due s x \<Longrightarrow> iteration t now s (H_TimedWait (due s x)) (sleeps t s)"

lemmas hs_updates = with_queue_def with_cond_def with_task_def fired_def rescheduled_def queued_def

lemma store_same [simp]: "s\<lparr>hs_store := (hs_store s)(x := hs_store s x)\<rparr> = s"
  by simp

lemma queue_pair: "q\<lparr>tq_cond := tq_cond q\<rparr> = q" "q\<lparr>tq_queue := xs, tq_cond := tq_cond q\<rparr> = q\<lparr>tq_queue := xs\<rparr>"
  by (cases q; simp)+

lemmas iteration_intros = iteration.intros [unfolded hs_updates Let_def, simplified]

lemma iteration_act:
  assumes "TimerTaskHandler_iteration t now s = Some (k', s')"
    and "cv_free (hs_cond s)" and "\<And>x. task_free (hs_store s x)"
  shows "iteration t now s k' s'"
proof -
  have "cv_free (tb_cancelCondition (hs_store s x))" for x using assms(3) by (simp add: task_free_def)
  with assms show ?thesis
    by (auto simp: TimerTaskHandler_iteration_def TimerTaskQueue_IsEmpty_def TimerTaskQueue_GetMin_def
        TimerTaskQueue_PopMin_def TimerTaskQueue_PopMinAndPush_def TimerTaskQueue_Wait_def
        TimerTaskQueue_TimedWait_def TaskBase_IsRequestCancel_def CheckIsRequestClose_def unlock_queue_def
        Let_def sync hs_updates queue_pair intro: iteration_intros split: if_splits)
qed

inductive timer_move :: "tid \<Rightarrow> handler_sys \<Rightarrow> timer_pc \<Rightarrow> timer_pc \<Rightarrow> handler_sys \<Rightarrow> bool"
  for t :: tid and s :: handler_sys where
  start: "timer_move t s H_Start H_Check0 (s\<lparr>hs_thread := (hs_thread s)\<lparr>ct_state := Thread_RUNNING\<rparr>\<rparr>)"
| check0_close: "ct_isRequestClose (hs_thread s) \<Longrightarrow> timer_move t s H_Check0 H_SetFinished s"
| check0_go: "timer_move t s H_Check0 H_Loop s"
| loop: "iteration t now s k s' \<Longrightarrow> timer_move t s H_Loop k s'"
| wait: "iteration t now s k s' \<Longrightarrow> timer_move t s H_Wait k s'"
| signalled: "timer_move t s (H_TimedWait d) H_Loop s"
| woken: "timer_move t s H_Woken H_Loop s"
| fire_end: "tt_isEnd (hs_store s x) \<Longrightarrow> timer_move t s (H_Fire x) H_SetFinished s"
| fire_cancelled: "\<not> tt_isEnd (hs_store s x) \<Longrightarrow> tb_isRequestCancel (hs_store s x) \<Longrightarrow>
     timer_move t s (H_Fire x) (H_SetStopped x Task_CANCELLED) s"
| fire_run: "\<not> tt_isEnd (hs_store s x) \<Longrightarrow> \<not> tb_isRequestCancel (hs_store s x) \<Longrightarrow>
     timer_move t s (H_Fire x) (H_SetRunning x) s"
| set_running: "timer_move t s (H_SetRunning x) (H_Body x) (with_task x ((hs_store s x)\<lparr>tb_state := Task_RUNNING\<rparr>) s)"
| body_ended: "timer_move t s (H_Body x) (H_SetStopped x st) s"
| set_stopped: "timer_move t s (H_SetStopped x st) (H_NotifyTask x) (with_task x ((hs_store s x)\<lparr>tb_state := st\<rparr>) s)"
| notify_task: "tb_isRequestCancel (hs_store s x) \<Longrightarrow> timer_move t s (H_NotifyTask x) H_Loop
     (with_task x ((hs_store s x)\<lparr>tb_cancelCondition := CV_NotifyAll (tb_cancelCondition (hs_store s x))\<rparr>) s)"
| notify_task_none: "\<not> tb_isRequestCancel (hs_store s x) \<Longrightarrow> timer_move t s (H_NotifyTask x) H_Loop s"
| body_threw: "timer_move t s (H_Body x) H_Threw s"
| set_finished: "timer_move t s H_SetFinished H_NotifyClosed (s\<lparr>hs_thread := (hs_thread s)\<lparr>ct_state := Thread_FINISHED\<rparr>\<rparr>)"
| notify_closed: "timer_move t s H_NotifyClosed H_Done (s\<lparr>hs_thread := (hs_thread s)
     \<lparr>ct_stateGuard := CV_NotifyAll (ct_stateGuard (hs_thread s))\<rparr>\<rparr>)"
| notify_closed_none: "timer_move t s H_NotifyClosed H_Done s"

definition new_end :: "handler_sys \<Rightarrow> handler_sys" where
  "new_end s = s\<lparr>hs_store := (hs_store s)(hs_next s := EndTimerTask_ctor free_mutex), hs_next := Suc (hs_next s)\<rparr>"

inductive user_move :: "bool \<Rightarrow> nat \<Rightarrow> tid \<Rightarrow> handler_sys \<Rightarrow> user_pc \<Rightarrow> user_pc \<Rightarrow> handler_sys \<Rightarrow> bool"
  for shared :: bool and n :: nat and t :: tid and s :: handler_sys where
  call_add: "user_ready c \<Longrightarrow> user_move shared n t s c (A_LoadClose (hs_next s) d i) (new_task s)"
| call_task: "user_ready c \<Longrightarrow> shared \<Longrightarrow> x < hs_next s \<Longrightarrow> \<not> tt_isEnd (hs_store s x) \<Longrightarrow>
     user_move shared n t s c (A_LoadClose x d i) s"
| call_new: "user_ready c \<Longrightarrow> user_move shared n t s c A_Idle (new_task s)"
| call_cancel: "user_ready c \<Longrightarrow> x < hs_next s \<Longrightarrow> \<not> tt_isEnd (hs_store s x) \<Longrightarrow> user_move shared n t s c (A_CancelWait x)
     (with_task x ((hs_store s x)\<lparr>tb_isRequestCancel := True\<rparr>) s)"
| cancel_sleep: "\<not> TaskBase_IsStopState (hs_store s x) \<Longrightarrow> user_move shared n t s (A_CancelWait x) (A_CancelWait x)
     (with_task x ((hs_store s x)\<lparr>tb_cancelCondition :=
        (tb_cancelCondition (hs_store s x))\<lparr>m_cond := m_cond (tb_cancelCondition (hs_store s x)) @ [t]\<rparr>\<rparr>) s)"
| cancelled: "TaskBase_IsStopState (hs_store s x) \<Longrightarrow> user_move shared n t s (A_CancelWait x) A_Cancelled s"
| call_shut: "user_ready c \<Longrightarrow> user_move shared n t s c (A_ShutDown b) s"
| refused: "ct_isRequestClose (hs_thread s) \<Longrightarrow> user_move shared n t s (A_LoadClose x d i) (A_Added False) s"
| accepted: "\<not> ct_isRequestClose (hs_thread s) \<Longrightarrow> user_move shared n t s (A_LoadClose x d i) (A_TestDeadline x d i) s"
| again: "due s x \<noteq> 0 \<Longrightarrow> user_move shared n t s (A_TestDeadline x d i) (A_Added False) s"
| fresh: "due s x = 0 \<Longrightarrow> user_move shared n t s (A_TestDeadline x d i) (A_SetDeadline x d i) s"
| set_cron: "user_move shared n t s (A_SetDeadline x d None) (A_Push x) (with_task x ((hs_store s x)\<lparr>tt_deadline := d\<rparr>) s)"
| set_cycle: "user_move shared n t s (A_SetDeadline x d (Some i)) (A_SetInterval x i)
     (with_task x ((hs_store s x)\<lparr>tt_deadline := d\<rparr>) s)"
| set_interval: "user_move shared n t s (A_SetInterval x i) (A_Push x) (with_task x ((hs_store s x)\<lparr>tt_interval := i\<rparr>) s)"
| push: "user_move shared n t s (A_Push x) (A_Added True) (queued n x s)"
| won: "\<not> hs_isRequestShutDown s \<Longrightarrow> user_move shared n t s (A_ShutDown b) (A_PushEnd b) (s\<lparr>hs_isRequestShutDown := True\<rparr>)"
| lost: "user_move shared n t s (A_ShutDown b) A_ShutReturned s"
| push_end: "user_move shared n t s (A_PushEnd b) (A_Close b) (queued n (hs_next s) (new_end s))"
| close_wait: "user_move shared n t s (A_Close True) A_CloseWait
     (s\<lparr>hs_thread := (hs_thread s)\<lparr>ct_isRequestClose := True\<rparr>\<rparr>)"
| close: "user_move shared n t s (A_Close b) A_ShutReturned (s\<lparr>hs_thread := (hs_thread s)\<lparr>ct_isRequestClose := True\<rparr>\<rparr>)"
| close_same: "user_move shared n t s (A_Close b) A_ShutReturned s"
| sleep: "user_move shared n t s A_CloseWait A_CloseWait (s\<lparr>hs_thread := (hs_thread s)\<lparr>ct_stateGuard :=
     (ct_stateGuard (hs_thread s))\<lparr>m_cond := m_cond (ct_stateGuard (hs_thread s)) @ [t]\<rparr>\<rparr>\<rparr>)"
| closed: "user_move shared n t s A_CloseWait A_ShutReturned s"

definition handler_free :: "handler_sys \<Rightarrow> bool" where
  "handler_free s \<longleftrightarrow> cv_free (hs_cond s) \<and> cv_free (ct_stateGuard (hs_thread s)) \<and> (\<forall>x. task_free (hs_store s x))"

lemma handler_freeD:
  "handler_free s \<Longrightarrow> cv_free (hs_cond s)" "handler_free s \<Longrightarrow> cv_free (ct_stateGuard (hs_thread s))"
  "handler_free s \<Longrightarrow> task_free (hs_store s x)" "handler_free s \<Longrightarrow> cv_free (tb_cancelCondition (hs_store s x))"
  by (auto simp: handler_free_def task_free_def)

lemma with_cond_same [simp]: "s\<lparr>hs_task_queue := hs_task_queue s\<lparr>tq_cond := hs_cond s\<rparr>\<rparr> = s"
  by (simp add: queue_pair)

lemma with_task_same [simp]: "with_task x (hs_store s x) s = s"
  by (simp add: with_task_def)

lemmas user_pushes = user_move.push [unfolded queued_def with_queue_def with_cond_def, simplified]
  user_move.push_end [unfolded queued_def with_queue_def with_cond_def new_end_def, simplified]

lemma timer_act_move:
  assumes "TimerTaskHandler_ThreadFunction now t w s = Some (w', s')" and free: "handler_free s"
  shows "timer_move t s w w' s'"
  using assms(1) handler_freeD [OF free]
  by (cases w) (auto simp: sync TaskBase_CheckCancellation_def TaskBase_IsRequestCancel_def Let_def close_op_defs
      simp flip: with_task_def intro: timer_move.intros iteration_act split: if_splits)

lemma timer_body_move:
  assumes "timer_body outcome x s = Some (w', s')" and free: "handler_free s"
  shows "timer_move t s (H_Body x) w' s'"
  using assms(1) handler_freeD [OF free]
  by (cases outcome) (auto simp: timer_body_def TaskBase_CheckCancellation_def intro: timer_move.intros split: if_splits)

lemma add_user_move:
  assumes "TimerTaskHandler_add n t c s = Some (c', s')" and free: "handler_free s"
  shows "user_move shared n t s c c' s'"
  using assms(1) handler_freeD [OF free]
  by (cases c)
     (auto simp: sync CloseableThread_IsRequestClose_def Let_def unlock_queue_def TimerTaskQueue_PushTask_def
        with_task_def [symmetric] intro: user_move.intros user_pushes split: if_splits option.splits)

lemma cancel_user_move:
  assumes "timer_cancel t c s = Some (c', s')" and free: "handler_free s"
  shows "user_move shared n t s c c' s'"
  using assms(1) handler_freeD [OF free]
  by (cases c) (auto simp: sync Let_def simp flip: with_task_def intro: user_move.intros split: if_splits)

lemma shut_user_move:
  assumes "TimerTaskHandler_ShutDownHelper now n sp t c s = Some (c', s')" and free: "handler_free s"
  shows "user_move shared n t s c c' s'"
  using assms(1) handler_freeD [OF free]
  by (cases c)
     (auto simp: sync close_op_defs Let_def unlock_queue_def TimerTaskQueue_PushTask_def
        intro: user_move.intros user_pushes split: if_splits)

lemma call_user_move:
  assumes "user_call shared e s = Some (c', s')" and "user_ready c"
  shows "user_move shared n t s c c' s'"
  using assms
  by (cases e)
     (auto simp: user_call_def timer_add_forms DoAddCronTimerTask_def DoAddCycleTimerTask_def with_task_def [symmetric]
        intro: user_move.intros split: if_splits)

lemma handler_act_move:
  assumes "handler_act shared e t k s = Some (k', s')" and "handler_free s"
  shows "(\<exists>w w'. k = Timer w \<and> k' = Timer w' \<and> timer_move t s w w' s')
    \<or> (\<exists>n c c'. k = User c \<and> k' = User c' \<and> user_move shared n t s c c' s')"
  using assms
  by (auto simp: handler_act_def
      dest: timer_act_move timer_body_move add_user_move cancel_user_move shut_user_move call_user_move
      split: handler_pc.splits handler_ev.splits if_splits option.splits timer_pc.splits)

section \<open>The invariant\<close>

fun adding :: "user_pc \<Rightarrow> task_id option" where
  "adding (A_LoadClose x _ _) = Some x" | "adding (A_TestDeadline x _ _) = Some x"
| "adding (A_SetDeadline x _ _) = Some x" | "adding (A_SetInterval x _) = Some x"
| "adding (A_Push x) = Some x" | "adding _ = None"

definition is_adding :: "task_id \<Rightarrow> handler_pc \<Rightarrow> bool" where
  "is_adding x k \<longleftrightarrow> (case k of User c \<Rightarrow> adding c = Some x | Timer _ \<Rightarrow> False)"

lemma is_adding_simps [simp]: "is_adding x (User c) \<longleftrightarrow> adding c = Some x" "\<not> is_adding x (Timer w)"
  by (simp_all add: is_adding_def)

text \<open>A queued end task is as it was made, and nobody is adding or running it.\<close>

definition end_ok :: "timer_task \<Rightarrow> bool" where
  "end_ok tt \<longleftrightarrow> (tt_isEnd tt \<longrightarrow> tt_deadline tt = 0 \<and> tb_state tt = Task_INIT \<and>
     \<not> tb_isRequestCancel tt \<and> tt_interval tt = 0)"

lemma end_ok_cond [simp]: "end_ok (tt\<lparr>tb_cancelCondition := c\<rparr>) = end_ok tt"
  by (simp add: end_ok_def)

definition queue_ok :: "handler_sys \<Rightarrow> bool" where
  "queue_ok s \<longleftrightarrow> is_heap (later (hs_store s)) (hs_queue s) \<and> distinct (hs_queue s) \<and>
     (\<forall>x \<in> set (hs_queue s). x < hs_next s) \<and> (\<forall>x. end_ok (hs_store s x)) \<and>
     (\<forall>x \<ge> hs_next s. \<not> tt_isEnd (hs_store s x))"

text \<open>The task whose \<open>Run\<close> the thread has entered.\<close>

fun in_Run :: "timer_pc \<Rightarrow> task_id option" where
  "in_Run (H_SetRunning x) = Some x" | "in_Run (H_Body x) = Some x" | "in_Run (H_SetStopped x _) = Some x"
| "in_Run (H_NotifyTask x) = Some x" | "in_Run _ = None"

definition timer_ok :: "handler_sys \<Rightarrow> timer_pc \<Rightarrow> bool" where
  "timer_ok s w \<longleftrightarrow> (\<forall>x. in_Run w = Some x \<longrightarrow> \<not> tt_isEnd (hs_store s x) \<and> x < hs_next s) \<and>
     (\<forall>x. w = H_Fire x \<longrightarrow> x < hs_next s)"

definition adders_ok :: "handler_sys \<Rightarrow> (tid \<Rightarrow> handler_pc) \<Rightarrow> bool" where
  "adders_ok s pc \<longleftrightarrow>
     (\<forall>t x. is_adding x (pc t) \<longrightarrow> x < hs_next s \<and> x \<notin> set (hs_queue s) \<and> \<not> tt_isEnd (hs_store s x)) \<and>
     (\<forall>t u x. is_adding x (pc t) \<and> is_adding x (pc u) \<longrightarrow> t = u)"

text \<open>The timer sleeps untimed only on an empty queue, and timed only for the earliest deadline.\<close>

definition sleep_ok :: "handler_sys \<Rightarrow> timer_pc \<Rightarrow> bool" where
  "sleep_ok s w \<longleftrightarrow> m_cond (hs_cond s) = [] \<or> m_cond (hs_cond s) = [0] \<and>
     (w = H_Wait \<and> hs_queue s = [] \<or>
      (\<exists>d. w = H_TimedWait d \<and> hs_queue s \<noteq> [] \<and> due s (pq_top (hs_queue s)) = d \<and> d \<noteq> 0))"

lemma queue_mset [simp]: "set (pq_push cmp x xs) = insert x (set xs)"
  using arg_cong [OF mset_push, of set_mset cmp x xs] by simp

lemma set_pq_pop: "xs \<noteq> [] \<Longrightarrow> set xs = insert (pq_top xs) (set (pq_pop cmp xs))"
  using arg_cong [OF mset_pop, of xs set_mset cmp] by simp

lemma in_pq_pop: "y \<in> set (pq_pop cmp xs) \<Longrightarrow> xs \<noteq> [] \<Longrightarrow> y \<in> set xs"
  using set_pq_pop [of xs cmp] by auto

lemma distinct_pq_push [simp]: "distinct (pq_push cmp x xs) \<longleftrightarrow> x \<notin> set xs \<and> distinct xs"
  using mset_push [of cmp x xs] by (metis distinct.simps(2) mset.simps(2) mset_eq_imp_distinct_iff)

lemma distinct_pq_pop:
  assumes "xs \<noteq> []" and "distinct xs"
  shows "distinct (pq_pop cmp xs)" and "pq_top xs \<notin> set (pq_pop cmp xs)"
proof -
  have "mset xs = mset (pq_top xs # pq_pop cmp xs)" using mset_pop [OF assms(1)] by simp
  with assms(2) have "distinct (pq_top xs # pq_pop cmp xs)" by (metis mset_eq_imp_distinct_iff)
  then show "distinct (pq_pop cmp xs)" "pq_top xs \<notin> set (pq_pop cmp xs)" by simp_all
qed

subsection \<open>Each update keeps the queue in order\<close>

lemma update_fields [simp]:
  "hs_task_queue (with_queue xs s) = (hs_task_queue s)\<lparr>tq_queue := xs\<rparr>" "hs_store (with_queue xs s) = hs_store s"
  "hs_next (with_queue xs s) = hs_next s" "hs_thread (with_queue xs s) = hs_thread s"
  "hs_isRequestShutDown (with_queue xs s) = hs_isRequestShutDown s"
  "hs_task_queue (with_cond c s) = (hs_task_queue s)\<lparr>tq_cond := c\<rparr>" "hs_store (with_cond c s) = hs_store s"
  "hs_next (with_cond c s) = hs_next s" "hs_thread (with_cond c s) = hs_thread s"
  "hs_isRequestShutDown (with_cond c s) = hs_isRequestShutDown s"
  "hs_task_queue (with_task x tt s) = hs_task_queue s" "hs_store (with_task x tt s) = (hs_store s)(x := tt)"
  "hs_next (with_task x tt s) = hs_next s" "hs_thread (with_task x tt s) = hs_thread s"
  "hs_isRequestShutDown (with_task x tt s) = hs_isRequestShutDown s"
  "hs_task_queue (fired x now s) = hs_task_queue s" "hs_store (fired x now s) = hs_store s"
  "hs_next (fired x now s) = hs_next s" "hs_thread (fired x now s) = hs_thread s"
  "hs_isRequestShutDown (fired x now s) = hs_isRequestShutDown s"
  by (simp_all add: hs_updates)

lemma rescheduled_fields [simp]:
  "hs_store (rescheduled x now s) = (hs_store s)(x := (hs_store s x)\<lparr>tt_deadline := now + tt_interval (hs_store s x)\<rparr>)"
  "hs_next (rescheduled x now s) = hs_next s" "hs_thread (rescheduled x now s) = hs_thread s"
  "hs_isRequestShutDown (rescheduled x now s) = hs_isRequestShutDown s"
  "hs_cond (rescheduled x now s) = hs_cond s"
  by (simp_all add: rescheduled_def Let_def)

lemma queued_fields [simp]:
  "hs_store (queued n x s) = hs_store s" "hs_next (queued n x s) = hs_next s"
  "hs_thread (queued n x s) = hs_thread s" "hs_isRequestShutDown (queued n x s) = hs_isRequestShutDown s"
  "hs_cond (queued n x s) = CV_Notify n (hs_cond s)"
  "hs_queue (queued n x s) = pq_push (CompareTimerTask (hs_store s)) x (hs_queue s)"
  by (simp_all add: queued_def)

lemma rescheduled_set: "hs_queue s \<noteq> [] \<Longrightarrow> x = pq_top (hs_queue s) \<Longrightarrow>
    set (hs_queue (rescheduled x now s)) = set (hs_queue s)"
  by (simp add: rescheduled_def Let_def set_pq_pop [of "hs_queue s", symmetric])

lemma queue_ok_popped: "queue_ok s \<Longrightarrow> hs_queue s \<noteq> [] \<Longrightarrow> queue_ok (popped s)"
  using set_pq_pop [of "hs_queue s" "CompareTimerTask (hs_store s)"]
  by (auto simp: queue_ok_def distinct_pq_pop intro: deadline.pop_heap)

lemma queue_ok_rescheduled:
  assumes "queue_ok s" and "hs_queue s \<noteq> []" and x: "x = pq_top (hs_queue s)" and "0 < tt_interval (hs_store s x)"
  shows "queue_ok (rescheduled x now s)"
proof -
  let ?st = "(hs_store s)(x := (hs_store s x)\<lparr>tt_deadline := now + tt_interval (hs_store s x)\<rparr>)"
  have "is_heap (later ?st) (pq_push (CompareTimerTask ?st) (pq_top (hs_queue s)) (pq_pop (CompareTimerTask ?st) (hs_queue s)))"
    using assms by (intro reschedule_heap [of "hs_store s"]) (auto simp: queue_ok_def)
  moreover have "end_ok (?st y)" "y \<ge> hs_next s \<longrightarrow> \<not> tt_isEnd (?st y)" for y
    using assms(1,4) by (auto simp: queue_ok_def end_ok_def)
  moreover have "distinct (hs_queue (rescheduled x now s))" "\<forall>y \<in> set (hs_queue (rescheduled x now s)). y < hs_next s"
    using assms(1,2) distinct_pq_pop [OF assms(2)] rescheduled_set [OF assms(2) x]
    by (auto simp: queue_ok_def rescheduled_def Let_def x)
  ultimately show ?thesis
    unfolding queue_ok_def by (simp add: rescheduled_def Let_def x)
qed

lemma queue_ok_with_task:
  assumes "queue_ok s" and "tt_deadline tt = due s x \<or> x \<notin> set (hs_queue s)" and "end_ok tt"
    and "tt_isEnd tt = tt_isEnd (hs_store s x)"
  shows "queue_ok (with_task x tt s)"
proof -
  have "is_heap (later ((hs_store s)(x := tt))) (hs_queue s)"
    by (rule is_heap_store [of "hs_store s"]) (use assms(1,2) in \<open>auto simp: queue_ok_def\<close>)
  then show ?thesis using assms(1,3,4) by (simp add: queue_ok_def)
qed

lemma queue_ok_queued:
  "queue_ok s \<Longrightarrow> x \<notin> set (hs_queue s) \<Longrightarrow> x < hs_next s \<Longrightarrow> queue_ok (queued n x s)"
  by (auto simp: queue_ok_def intro: deadline.push_heap)

lemma queue_ok_new:
  assumes "queue_ok s" and "end_ok tt"
  shows "queue_ok (s\<lparr>hs_store := (hs_store s)(hs_next s := tt), hs_next := Suc (hs_next s)\<rparr>)"
proof -
  have "is_heap (later ((hs_store s)(hs_next s := tt))) (hs_queue s)"
    by (rule is_heap_store [of "hs_store s"]) (use assms in \<open>auto simp: queue_ok_def\<close>)
  moreover have "x < Suc (hs_next s)" if "x \<in> set (hs_queue s)" for x
    using that assms(1) by (simp add: queue_ok_def less_Suc_eq)
  ultimately show ?thesis using assms by (simp add: queue_ok_def)
qed

lemma queue_ok_cond: "queue_ok (with_cond c s) = queue_ok s" "queue_ok (fired x now s) = queue_ok s"
  "queue_ok (s\<lparr>hs_thread := h\<rparr>) = queue_ok s" "queue_ok (s\<lparr>hs_isRequestShutDown := b\<rparr>) = queue_ok s"
  by (simp_all add: queue_ok_def)

lemma ctor_ends: "\<not> tt_isEnd (TimerTask_ctor m)" "tt_isEnd (EndTimerTask_ctor m)"
  "end_ok (TimerTask_ctor m)" "end_ok (EndTimerTask_ctor m)"
  by (simp_all add: TimerTask_ctor_def EndTimerTask_ctor_def end_ok_def TaskBase_ctor_def task_base.extend_def)

lemma ctor_cond: "m_cond (tb_cancelCondition (TimerTask_ctor m)) = []" "m_cond (tb_cancelCondition (EndTimerTask_ctor m)) = []"
  by (simp_all add: TimerTask_ctor_def EndTimerTask_ctor_def TaskBase_ctor_def ConditionVariable_ctor_def task_base.extend_def)

lemma iteration_ok:
  assumes "iteration t now s w s'" and "queue_ok s"
  shows "queue_ok s'" and "timer_ok s' w"
proof -
  show "queue_ok s'"
    using assms by (cases rule: iteration.cases) (auto simp: queue_ok_cond intro: queue_ok_popped queue_ok_rescheduled)
  have lt: "hs_queue s \<noteq> [] \<Longrightarrow> pq_top (hs_queue s) < hs_next s"
    using assms(2) pq_top_in [of "hs_queue s"] by (simp add: queue_ok_def)
  from assms(1) show "timer_ok s' w"
    by (cases rule: iteration.cases) (simp_all add: timer_ok_def lt)
qed

subsection \<open>Actions of the timer's thread\<close>

lemma iteration_free: "iteration t now s w s' \<Longrightarrow> handler_free s \<Longrightarrow> handler_free s'"
  by (erule iteration.cases) (auto simp: handler_free_def rescheduled_def Let_def sync)

lemma timer_move_free:
  assumes "timer_move t s w w' s'" and free: "handler_free s"
  shows "handler_free s'"
  using assms(1)
proof (cases rule: timer_move.cases)
  case (loop now)
  then show ?thesis using free by (blast intro: iteration_free)
next
  case (wait now)
  then show ?thesis using free by (blast intro: iteration_free)
qed (use free in \<open>auto simp: handler_free_def sync\<close>)

lemma iteration_frame:
  "iteration t now s w s' \<Longrightarrow> hs_next s' = hs_next s \<and> set (hs_queue s') \<subseteq> set (hs_queue s) \<and>
     (\<forall>x. tt_isEnd (hs_store s' x) = tt_isEnd (hs_store s x)) \<and>
     hs_isRequestShutDown s' = hs_isRequestShutDown s \<and> hs_thread s' = hs_thread s"
  by (erule iteration.cases) (auto simp: rescheduled_set dest: in_pq_pop)

lemma timer_move_frame:
  "timer_move t s w w' s' \<Longrightarrow> hs_next s' = hs_next s \<and> set (hs_queue s') \<subseteq> set (hs_queue s) \<and>
     (\<forall>x. tt_isEnd (hs_store s' x) = tt_isEnd (hs_store s x)) \<and>
     hs_isRequestShutDown s' = hs_isRequestShutDown s \<and>
     ct_isRequestClose (hs_thread s') = ct_isRequestClose (hs_thread s) \<and>
     set (m_cond (ct_stateGuard (hs_thread s'))) \<subseteq> set (m_cond (ct_stateGuard (hs_thread s)))"
  by (erule timer_move.cases) (auto simp: sync dest: iteration_frame)

lemma timer_move_ok:
  assumes "timer_move t s w w' s'" and "queue_ok s" and "timer_ok s w"
  shows "queue_ok s' \<and> timer_ok s' w'"
  using assms
proof (cases rule: timer_move.cases)
  case (loop now)
  then show ?thesis using iteration_ok [of t now s w' s'] assms(2) by blast
next
  case (wait now)
  then show ?thesis using iteration_ok [of t now s w' s'] assms(2) by blast
qed (auto simp: queue_ok_cond timer_ok_def end_ok_def intro!: queue_ok_with_task)

lemma iteration_sleep:
  assumes "iteration 0 now s w s'" and "queue_ok s" and "m_cond (hs_cond s) = []"
  shows "sleep_ok s' w"
  using assms(1,3) by (cases rule: iteration.cases) (auto simp: sleep_ok_def)

lemma timer_move_sleep:
  assumes "timer_move 0 s w w' s'" and "queue_ok s" and "m_cond (hs_cond s) = []"
  shows "sleep_ok s' w'"
  using assms(1) by (cases rule: timer_move.cases)
    (auto simp: sleep_ok_def assms(3) dest: iteration_sleep [OF _ assms(2,3), unfolded sleep_ok_def])

text \<open>Once an end task is on its way, it stays on its way or the thread stops.\<close>

definition h_ended :: "handler_sys \<Rightarrow> timer_pc \<Rightarrow> bool" where
  "h_ended s w \<longleftrightarrow> w \<in> {H_SetFinished, H_NotifyClosed, H_Done, H_Threw} \<or>
     (\<exists>x. w = H_Fire x \<and> tt_isEnd (hs_store s x)) \<or> (\<exists>x \<in> set (hs_queue s). tt_isEnd (hs_store s x))"

lemma iteration_ended:
  assumes "iteration t now s w s'" and "queue_ok s" and "x \<in> set (hs_queue s)" and "tt_isEnd (hs_store s x)"
  shows "h_ended s' w"
proof -
  have ne: "hs_queue s \<noteq> []" using assms(3) by auto
  have ends: "end_ok (hs_store s y)" for y using assms(2) by (simp add: queue_ok_def)
  have in_rest: "x \<in> set (pq_pop (CompareTimerTask (hs_store s)) (hs_queue s))" if "x \<noteq> pq_top (hs_queue s)"
    using that assms(3) set_pq_pop [OF ne, of "CompareTimerTask (hs_store s)"] by auto
  from assms(1) show ?thesis
  proof (cases rule: iteration.cases)
    case (dropped y)
    with ends [of y] assms(4) have "x \<noteq> pq_top (hs_queue s)" by (auto simp: end_ok_def)
    with dropped in_rest assms(4) show ?thesis by (auto simp: h_ended_def)
  next
    case (periodic y)
    then show ?thesis using assms(3,4) by (auto simp: h_ended_def rescheduled_set)
  qed (use assms(3,4) ne in_rest in \<open>auto simp: h_ended_def\<close>)
qed

lemma isEnd_upd:
  "tt_isEnd (if y = x then st x\<lparr>tb_state := a\<rparr> else st y) = tt_isEnd (st y)"
  "tt_isEnd (if y = x then st x\<lparr>tb_cancelCondition := c\<rparr> else st y) = tt_isEnd (st y)"
  by simp_all

lemma timer_move_ended:
  assumes "timer_move t s w w' s'" and "queue_ok s" and "h_ended s w"
  shows "h_ended s' w'"
  using assms(1)
proof (cases rule: timer_move.cases)
  case (loop now)
  then show ?thesis using assms(2,3) by (auto simp: h_ended_def [of s] intro: iteration_ended)
next
  case (wait now)
  then show ?thesis using assms(2,3) by (auto simp: h_ended_def [of s] intro: iteration_ended)
qed (use assms(3) in \<open>auto simp: h_ended_def isEnd_upd simp del: if_split\<close>)

subsection \<open>Actions of the users\<close>

lemma user_move_free: "user_move shared n t s c c' s' \<Longrightarrow> handler_free s \<Longrightarrow> handler_free s'"
  by (erule user_move.cases) (auto simp: handler_free_def new_task_def new_end_def sync)

lemma user_move_frame:
  "user_move shared n t s c c' s' \<Longrightarrow> queue_ok s \<Longrightarrow> hs_next s \<le> hs_next s' \<and>
     (\<forall>x < hs_next s. tt_isEnd (hs_store s' x) = tt_isEnd (hs_store s x)) \<and>
     set (hs_queue s) \<subseteq> set (hs_queue s') \<and>
     set (m_cond (ct_stateGuard (hs_thread s'))) \<subseteq> insert t (set (m_cond (ct_stateGuard (hs_thread s))))"
  by (erule user_move.cases) (auto simp: new_task_def new_end_def)

lemma user_move_queue:
  assumes "user_move False n t s c c' s'" and "queue_ok s"
    and "\<And>x. adding c = Some x \<Longrightarrow> x < hs_next s \<and> x \<notin> set (hs_queue s) \<and> \<not> tt_isEnd (hs_store s x)"
  shows "queue_ok s'"
proof -
  have fresh: "hs_next s \<notin> set (hs_queue s)" using assms(2) by (auto simp: queue_ok_def)
  have ends: "end_ok (hs_store s y)" for y using assms(2) by (simp add: queue_ok_def)
  from assms(1) show ?thesis
  proof (cases rule: user_move.cases)
    case (push_end b)
    have "queue_ok (new_end s)"
      using assms(2) unfolding new_end_def by (intro queue_ok_new) (simp_all add: ctor_ends)
    with push_end fresh show ?thesis by (auto simp: new_end_def intro!: queue_ok_queued)
  qed (use assms(2,3) ends in \<open>auto simp: queue_ok_cond new_task_def ctor_ends end_ok_def [of "_\<lparr>tt_deadline := _\<rparr>"]
      end_ok_def [of "_\<lparr>tb_isRequestCancel := _\<rparr>"] end_ok_def [of "_\<lparr>tt_interval := _\<rparr>"]
      intro!: queue_ok_with_task queue_ok_new queue_ok_queued\<close>)
qed

lemma user_move_timer:
  assumes "user_move False n t s c c' s'" and "queue_ok s" and "timer_ok s w"
  shows "timer_ok s' w"
proof -
  have "hs_next s \<le> hs_next s'" "\<And>x. x < hs_next s \<Longrightarrow> tt_isEnd (hs_store s' x) = tt_isEnd (hs_store s x)"
    using user_move_frame [OF assms(1,2)] by auto
  with assms(3) show ?thesis by (fastforce simp: timer_ok_def)
qed

lemma user_move_sleep:
  assumes "user_move False n t s c c' s'" and "queue_ok s" and "sleep_ok s w"
    and "\<And>x. adding c = Some x \<Longrightarrow> x < hs_next s \<and> x \<notin> set (hs_queue s) \<and> \<not> tt_isEnd (hs_store s x)"
  shows "sleep_ok s' w"
proof -
  have top: "pq_top (hs_queue s) \<in> set (hs_queue s)" "pq_top (hs_queue s) \<noteq> hs_next s" if "hs_queue s \<noteq> []"
    using assms(2) pq_top_in [OF that] by (auto simp: queue_ok_def)
  from assms(1,3,4) show ?thesis
    by (cases rule: user_move.cases)
       (auto simp: sleep_ok_def new_task_def new_end_def CV_Notify_def top dest: top)
qed

lemma user_move_adders:
  assumes "user_move False n t s c c' s'"
  obtains (none) "adding c' = None" "hs_next s \<le> hs_next s'"
      "\<And>x. x \<in> set (hs_queue s') \<Longrightarrow> x \<in> set (hs_queue s) \<or> adding c = Some x \<or> x = hs_next s \<and> hs_next s < hs_next s'"
  | (same) "adding c' = adding c" "hs_next s' = hs_next s" "hs_queue s' = hs_queue s"
  | (new) "adding c' = Some (hs_next s)" "hs_next s' = Suc (hs_next s)" "hs_queue s' = hs_queue s"
      "\<not> tt_isEnd (hs_store s' (hs_next s))" "adding c = None"
  using assms
  by (cases rule: user_move.cases)
     (auto simp: new_task_def new_end_def ctor_ends user_ready_def split: user_pc.splits)

lemma user_adders_ok:
  assumes move: "user_move False n t s c c' s'" and "queue_ok s" and ok: "adders_ok s pc" and pc: "pc t = User c"
  shows "adders_ok s' (pc(t := User c'))"
proof -
  let ?pc = "pc(t := User c')"
  have end': "\<And>x. x < hs_next s \<Longrightarrow> tt_isEnd (hs_store s' x) = tt_isEnd (hs_store s x)" and "hs_next s \<le> hs_next s'"
    using user_move_frame [OF move assms(2)] by auto
  have fresh: "hs_next s \<notin> set (hs_queue s)" using assms(2) by (auto simp: queue_ok_def)
  have old: "x < hs_next s" "x \<notin> set (hs_queue s)" "\<not> tt_isEnd (hs_store s x)" if "is_adding x (pc u)" for x u
    using ok that by (auto simp: adders_ok_def)
  have uniq: "u = v" if "is_adding x (pc u)" "is_adding x (pc v)" for x u v
    using ok that unfolding adders_ok_def by blast
  have mine: "is_adding x (pc t) \<longleftrightarrow> adding c = Some x" for x using pc by simp
  from move show ?thesis
  proof (cases rule: user_move_adders)
    case none
    have sub: "u \<noteq> t \<and> is_adding x (pc u)" if "is_adding x (?pc u)" for x u
      using that none(1) by (auto split: if_splits)
    show ?thesis
      unfolding adders_ok_def
    proof (intro conjI allI impI)
      fix u x assume a: "is_adding x (?pc u)"
      from sub [OF a] old end' \<open>hs_next s \<le> hs_next s'\<close>
      show "x < hs_next s'" "\<not> tt_isEnd (hs_store s' x)" by fastforce+
      show "x \<notin> set (hs_queue s')"
        using sub [OF a] old [of x u] none(3) [of x] uniq [of x t u] mine [of x] by auto
    next
      fix u v x assume "is_adding x (?pc u) \<and> is_adding x (?pc v)"
      then show "u = v" using sub uniq by blast
    qed
  next
    case same
    have eq: "is_adding x (?pc u) = is_adding x (pc u)" for x u using same(1) pc by auto
    show ?thesis
      unfolding adders_ok_def eq using old uniq end' same(2,3) by auto
  next
    case new
    have eq: "is_adding x (?pc u) \<longleftrightarrow> u \<noteq> t \<and> is_adding x (pc u) \<or> u = t \<and> x = hs_next s" for x u
      using new(1) by auto
    show ?thesis
      unfolding adders_ok_def eq
    proof (intro conjI allI impI)
      fix u x assume "u \<noteq> t \<and> is_adding x (pc u) \<or> u = t \<and> x = hs_next s"
      then show "x < hs_next s'" "x \<notin> set (hs_queue s')" "\<not> tt_isEnd (hs_store s' x)"
        using old [of x u] end' [of x] new(2-4) fresh by auto
    next
      fix u v x
      assume "(u \<noteq> t \<and> is_adding x (pc u) \<or> u = t \<and> x = hs_next s) \<and>
        (v \<noteq> t \<and> is_adding x (pc v) \<or> v = t \<and> x = hs_next s)"
      then show "u = v" using old(1) [of x u] old(1) [of x v] uniq [of x u v] by auto
    qed
  qed
qed

lemma timer_adders_ok:
  assumes "timer_move t s w w' s'" and ok: "adders_ok s pc" and pc: "pc 0 = Timer w"
  shows "adders_ok s' (pc(0 := Timer w'))"
proof -
  have eq: "is_adding x ((pc(0 := Timer w')) u) = is_adding x (pc u)" for x u using pc by auto
  show ?thesis
    using ok timer_move_frame [OF assms(1)] unfolding adders_ok_def eq by (auto dest: subsetD)
qed

definition ending :: "user_pc \<Rightarrow> bool" where
  "ending c \<longleftrightarrow> (case c of A_PushEnd _ \<Rightarrow> True | _ \<Rightarrow> False)"

lemma user_move_ended:
  assumes "user_move False n t s c c' s'" and "queue_ok s" and "timer_ok s w"
  shows "(h_ended s w \<longrightarrow> h_ended s' w) \<and> (ending c \<and> \<not> ending c' \<longrightarrow> h_ended s' w) \<and>
     (\<not> ending c \<and> \<not> ending c' \<longrightarrow> hs_isRequestShutDown s' = hs_isRequestShutDown s)"
proof (intro conjI)
  have frame: "\<And>x. x < hs_next s \<Longrightarrow> tt_isEnd (hs_store s' x) = tt_isEnd (hs_store s x)"
      "set (hs_queue s) \<subseteq> set (hs_queue s')"
    using user_move_frame [OF assms(1,2)] by auto
  have lt: "x < hs_next s" if "x \<in> set (hs_queue s) \<or> w = H_Fire x" for x
    using that assms(2,3) by (auto simp: queue_ok_def timer_ok_def)
  show "h_ended s w \<longrightarrow> h_ended s' w"
    using frame lt unfolding h_ended_def by blast
  show "ending c \<and> \<not> ending c' \<longrightarrow> h_ended s' w"
    using assms(1) by (cases rule: user_move.cases)
      (auto simp: ending_def user_ready_def h_ended_def new_end_def ctor_ends split: user_pc.splits)
  show "\<not> ending c \<and> \<not> ending c' \<longrightarrow> hs_isRequestShutDown s' = hs_isRequestShutDown s"
    using assms(1) by (cases rule: user_move.cases) (auto simp: ending_def new_task_def new_end_def)
qed

subsection \<open>Cancelling\<close>

abbreviation cancellers :: "handler_sys \<Rightarrow> task_id \<Rightarrow> tid list" where
  "cancellers s x \<equiv> m_cond (tb_cancelCondition (hs_store s x))"

abbreviation stopped :: "handler_sys \<Rightarrow> task_id \<Rightarrow> bool" where
  "stopped s x \<equiv> TaskBase_IsStopState (hs_store s x)"

text \<open>Who sleeps for the end of a task is in \<open>Cancel\<close>, and not past the end unless the thread has still to notify.\<close>

definition cancel_ok :: "handler_sys \<Rightarrow> (tid \<Rightarrow> handler_pc) \<Rightarrow> bool" where
  "cancel_ok s pc \<longleftrightarrow>
     (\<forall>t x. pc t = User (A_CancelWait x) \<longrightarrow> x < hs_next s \<and> tb_isRequestCancel (hs_store s x)) \<and>
     (\<forall>x. \<forall>t \<in> set (cancellers s x). pc t = User (A_CancelWait x)) \<and>
     (\<forall>x. cancellers s x \<noteq> [] \<and> stopped s x \<longrightarrow> pc 0 = Timer (H_NotifyTask x))"

lemma iteration_cancel:
  "iteration t now s w s' \<Longrightarrow> tb_cancelCondition (hs_store s' x) = tb_cancelCondition (hs_store s x) \<and>
     tb_state (hs_store s' x) = tb_state (hs_store s x) \<and>
     tb_isRequestCancel (hs_store s' x) = tb_isRequestCancel (hs_store s x)"
  by (erule iteration.cases) (auto simp: rescheduled_def Let_def)

lemma timer_move_cancel:
  assumes "timer_move t s w w' s'"
  shows "tb_isRequestCancel (hs_store s' x) = tb_isRequestCancel (hs_store s x)"
    and "set (cancellers s' x) \<subseteq> set (cancellers s x)"
    and "cancellers s' x \<noteq> [] \<Longrightarrow> stopped s' x \<Longrightarrow>
      w' = H_NotifyTask x \<or> w \<noteq> H_NotifyTask x \<and> cancellers s x \<noteq> [] \<and> stopped s x \<or>
      cancellers s x \<noteq> [] \<and> \<not> tb_isRequestCancel (hs_store s x)"
proof -
  have "tb_isRequestCancel (hs_store s' x) = tb_isRequestCancel (hs_store s x) \<and>
    set (cancellers s' x) \<subseteq> set (cancellers s x) \<and>
    (cancellers s' x \<noteq> [] \<and> stopped s' x \<longrightarrow>
      w' = H_NotifyTask x \<or> w \<noteq> H_NotifyTask x \<and> cancellers s x \<noteq> [] \<and> stopped s x \<or>
      cancellers s x \<noteq> [] \<and> \<not> tb_isRequestCancel (hs_store s x))"
    using assms
  proof (cases rule: timer_move.cases)
    case (loop now)
    with iteration_cancel [of t now s w' s' x] show ?thesis by (simp add: TaskBase_IsStopState_def)
  next
    case (wait now)
    with iteration_cancel [of t now s w' s' x] show ?thesis by (simp add: TaskBase_IsStopState_def)
  qed (auto simp: TaskBase_IsStopState_def sync)
  then show "tb_isRequestCancel (hs_store s' x) = tb_isRequestCancel (hs_store s x)"
    and "set (cancellers s' x) \<subseteq> set (cancellers s x)"
    and "cancellers s' x \<noteq> [] \<Longrightarrow> stopped s' x \<Longrightarrow>
      w' = H_NotifyTask x \<or> w \<noteq> H_NotifyTask x \<and> cancellers s x \<noteq> [] \<and> stopped s x \<or>
      cancellers s x \<noteq> [] \<and> \<not> tb_isRequestCancel (hs_store s x)"
    by blast+
qed

lemma user_move_cancel:
  assumes "user_move shared n t s c c' s'"
  shows "x < hs_next s \<Longrightarrow> tb_isRequestCancel (hs_store s x) \<Longrightarrow> tb_isRequestCancel (hs_store s' x)"
    and "set (cancellers s' x) \<subseteq> set (cancellers s x) \<union> (if c' = A_CancelWait x then {t} else {})"
    and "c' = A_CancelWait x \<Longrightarrow> c = A_CancelWait x \<or> x < hs_next s \<and> tb_isRequestCancel (hs_store s' x)"
    and "cancellers s' x \<noteq> [] \<Longrightarrow> stopped s' x \<Longrightarrow> cancellers s x \<noteq> [] \<and> stopped s x"
  using assms
  by (cases rule: user_move.cases; auto simp: new_task_def new_end_def TaskBase_IsStopState_def ctor_cond split: if_splits)+

lemma timer_cancel_ok:
  assumes move: "timer_move 0 s w w' s'" and ok: "cancel_ok s pc" and pc: "pc 0 = Timer w"
  shows "cancel_ok s' (pc(0 := Timer w'))"
  unfolding cancel_ok_def
proof (intro conjI allI impI ballI)
  note m = timer_move_cancel [OF move]
  have next_eq: "hs_next s' = hs_next s" using timer_move_frame [OF move] by simp
  fix t x
  assume "(pc(0 := Timer w')) t = User (A_CancelWait x)"
  then have "pc t = User (A_CancelWait x)" by (simp split: if_splits)
  with ok m(1) [of x] next_eq show "x < hs_next s'" "tb_isRequestCancel (hs_store s' x)"
    by (simp_all add: cancel_ok_def)
next
  note m = timer_move_cancel [OF move]
  fix x t
  assume "t \<in> set (cancellers s' x)"
  with m(2) [of x] ok have "pc t = User (A_CancelWait x)" unfolding cancel_ok_def by blast
  with pc show "(pc(0 := Timer w')) t = User (A_CancelWait x)" by (cases "t = 0") simp_all
next
  note m = timer_move_cancel [OF move]
  fix x
  assume a: "cancellers s' x \<noteq> [] \<and> stopped s' x"
  have flag: "tb_isRequestCancel (hs_store s x)" if "cancellers s x \<noteq> []"
  proof -
    from that obtain t where "t \<in> set (cancellers s x)" by (cases "cancellers s x") auto
    with ok show ?thesis unfolding cancel_ok_def by blast
  qed
  have "w = H_NotifyTask x" if "cancellers s x \<noteq> []" "stopped s x"
    using ok that pc by (simp add: cancel_ok_def)
  with m(3) [of x] a flag have "w' = H_NotifyTask x" by blast
  then show "(pc(0 := Timer w')) 0 = Timer (H_NotifyTask x)" by simp
qed

lemma user_cancel_ok:
  assumes move: "user_move shared n t s c c' s'" and "queue_ok s" and ok: "cancel_ok s pc" and pc: "pc t = User c"
    and awake: "\<And>x. x < hs_next s \<Longrightarrow> t \<notin> set (cancellers s x)" and "pc 0 = Timer w"
  shows "cancel_ok s' (pc(t := User c'))"
  unfolding cancel_ok_def
proof (intro conjI allI impI ballI)
  note m = user_move_cancel [OF move]
  have le: "hs_next s \<le> hs_next s'" using user_move_frame [OF move assms(2)] by simp
  fix u x
  assume a: "(pc(t := User c')) u = User (A_CancelWait x)"
  have "pc u = User (A_CancelWait x) \<or> x < hs_next s \<and> tb_isRequestCancel (hs_store s' x)"
    using a m(3) [of x] pc by (cases "u = t") auto
  with ok m(1) [of x] le show "x < hs_next s'" "tb_isRequestCancel (hs_store s' x)"
    unfolding cancel_ok_def by (meson order_less_le_trans)+
next
  note m = user_move_cancel [OF move]
  fix x u
  assume a: "u \<in> set (cancellers s' x)"
  have old: "pc u = User (A_CancelWait x) \<and> x < hs_next s" if "u \<in> set (cancellers s x)"
    using that ok unfolding cancel_ok_def by blast
  with a m(2) [of x] awake [of x] show "(pc(t := User c')) u = User (A_CancelWait x)"
    by (cases "u = t") (auto split: if_splits)
next
  fix x
  assume "cancellers s' x \<noteq> [] \<and> stopped s' x"
  with user_move_cancel(4) [OF move, of x] ok have "pc 0 = Timer (H_NotifyTask x)" by (simp add: cancel_ok_def)
  with pc show "(pc(t := User c')) 0 = Timer (H_NotifyTask x)" by (cases "t = 0") simp_all
qed

subsection \<open>The invariant of the machine\<close>

definition is_ending :: "handler_pc \<Rightarrow> bool" where
  "is_ending k \<longleftrightarrow> (case k of User c \<Rightarrow> ending c | Timer _ \<Rightarrow> False)"

definition handler_inv :: "handler_sys \<Rightarrow> (tid \<Rightarrow> handler_pc) \<Rightarrow> bool" where
  "handler_inv s pc \<longleftrightarrow> handler_free s \<and> queue_ok s \<and> adders_ok s pc \<and> cancel_ok s pc \<and>
     0 \<notin> set (m_cond (ct_stateGuard (hs_thread s))) \<and> (\<forall>t. t \<noteq> 0 \<longrightarrow> (\<exists>c. pc t = User c)) \<and>
     (\<exists>w. pc 0 = Timer w \<and> timer_ok s w \<and> sleep_ok s w \<and>
        (hs_isRequestShutDown s \<and> (\<forall>t. \<not> is_ending (pc t)) \<longrightarrow> h_ended s w))"

lemma handler_who:
  assumes "handler_inv s pc" and "handler_act shared e t (pc t) s = Some (k', s')"
  obtains (timer) w w' where "t = 0" "pc 0 = Timer w" "k' = Timer w'" "timer_move 0 s w w' s'"
  | (user) n c c' w where "t \<noteq> 0" "pc 0 = Timer w" "pc t = User c" "k' = User c'" "user_move shared n t s c c' s'"
proof -
  obtain w where w: "pc 0 = Timer w" and role: "\<And>u. u \<noteq> 0 \<Longrightarrow> \<exists>c. pc u = User c"
    and free: "handler_free s" using assms(1) by (auto simp: handler_inv_def)
  from handler_act_move [OF assms(2) free] show ?thesis
  proof (elim disjE exE conjE)
    fix w1 w'
    assume m: "pc t = Timer w1" "k' = Timer w'" "timer_move t s w1 w' s'"
    with role [of t] have "t = 0" by (cases "t = 0") auto
    with m show ?thesis by (intro timer) auto
  next
    fix n c c'
    assume m: "pc t = User c" "k' = User c'" "user_move shared n t s c c' s'"
    with w have "t \<noteq> 0" by (cases "t = 0") auto
    with m w show ?thesis by (intro user) auto
  qed
qed

lemma handler_act_inv:
  assumes inv: "handler_inv s pc" and act: "handler_act False e t (pc t) s = Some (k', s')"
    and awake: "\<not> handler_waiting t s"
  shows "handler_inv s' (pc(t := k'))"
proof -
  from inv have ok: "handler_free s" "queue_ok s" "adders_ok s pc" "0 \<notin> set (m_cond (ct_stateGuard (hs_thread s)))"
    and cancel: "cancel_ok s pc" and role: "\<And>t. t \<noteq> 0 \<Longrightarrow> \<exists>c. pc t = User c" by (auto simp: handler_inv_def)
  from inv act show ?thesis
  proof (cases rule: handler_who)
    case (timer w w')
    then have w: "timer_ok s w" "sleep_ok s w"
        "hs_isRequestShutDown s \<and> (\<forall>t. \<not> is_ending (pc t)) \<longrightarrow> h_ended s w"
      using inv by (auto simp: handler_inv_def)
    have "m_cond (hs_cond s) = []" using w(2) awake timer(1) by (auto simp: sleep_ok_def handler_waiting_def sync)
    then have "sleep_ok s' w'" by (rule timer_move_sleep [OF timer(4) ok(2)])
    moreover have "is_ending ((pc(0 := Timer w')) u) = is_ending (pc u)" for u
      using timer(2) by (auto simp: is_ending_def)
    ultimately show ?thesis
      using timer role timer_move_free [OF timer(4) ok(1)] timer_move_ok [OF timer(4) ok(2) w(1)]
        timer_adders_ok [OF timer(4) ok(3) timer(2)] timer_move_frame [OF timer(4)]
        timer_move_ended [OF timer(4) ok(2)] w(3) ok(4) timer_cancel_ok [OF timer(4) cancel timer(2)]
      unfolding handler_inv_def by (auto dest: subsetD)
  next
    case (user n c c' w)
    then have w: "timer_ok s w" "sleep_ok s w"
        "hs_isRequestShutDown s \<and> (\<forall>t. \<not> is_ending (pc t)) \<longrightarrow> h_ended s w"
      using inv by (auto simp: handler_inv_def)
    have mine: "x < hs_next s \<and> x \<notin> set (hs_queue s) \<and> \<not> tt_isEnd (hs_store s x)" if "adding c = Some x" for x
    proof -
      have "is_adding x (pc t)" using that user(3) by simp
      then show ?thesis using ok(3) by (auto simp: adders_ok_def)
    qed
    have asleep: "t \<notin> set (cancellers s x)" if "x < hs_next s" for x
      using awake that by (auto simp: handler_waiting_def list_ex_iff sync)
    have "h_ended s' w" if a: "hs_isRequestShutDown s'" "\<forall>u. \<not> is_ending ((pc(t := User c')) u)"
    proof -
      have c': "\<not> ending c'" using a(2) [rule_format, of t] by (simp add: is_ending_def)
      have others: "\<not> is_ending (pc u)" if "u \<noteq> t" for u using a(2) [rule_format, of u] that by simp
      show ?thesis
      proof (cases "ending c")
        case True
        then show ?thesis using user_move_ended [OF user(5) ok(2) w(1)] c' by blast
      next
        case False
        then have "\<not> is_ending (pc u)" for u using others user(3) by (cases "u = t") (auto simp: is_ending_def)
        then show ?thesis using user_move_ended [OF user(5) ok(2) w(1)] c' False a(1) w(3) by blast
      qed
    qed
    then show ?thesis
      using user role user_move_free [OF user(5) ok(1)] user_move_queue [OF user(5) ok(2) mine]
        user_adders_ok [OF user(5) ok(2,3) user(3)] user_move_timer [OF user(5) ok(2) w(1)]
        user_move_sleep [OF user(5) ok(2) w(2) mine] user_move_frame [OF user(5) ok(2)] ok(4)
        user_cancel_ok [OF user(5) ok(2) cancel user(3) asleep user(2)]
      unfolding handler_inv_def by auto
  qed
qed

lemma cancel_unwait_simps [simp]:
  "tt_deadline (cancel_unwait t tt) = tt_deadline tt" "tt_interval (cancel_unwait t tt) = tt_interval tt"
  "tt_isEnd (cancel_unwait t tt) = tt_isEnd tt" "tb_state (cancel_unwait t tt) = tb_state tt"
  "tb_isRequestCancel (cancel_unwait t tt) = tb_isRequestCancel tt" "task_free (cancel_unwait t tt) = task_free tt"
  "end_ok (cancel_unwait t tt) = end_ok tt" "TaskBase_IsStopState (cancel_unwait t tt) = TaskBase_IsStopState tt"
  "set (m_cond (tb_cancelCondition (cancel_unwait t tt))) \<subseteq> set (m_cond (tb_cancelCondition tt))"
  by (auto simp: cancel_unwait_def end_ok_def TaskBase_IsStopState_def sync)

lemma unwait_fields [simp]:
  "hs_store (handler_unwait t s) x = cancel_unwait t (hs_store s x)" "hs_queue (handler_unwait t s) = hs_queue s"
  "hs_next (handler_unwait t s) = hs_next s" "hs_fired (handler_unwait t s) = hs_fired s"
  "hs_isRequestShutDown (handler_unwait t s) = hs_isRequestShutDown s"
  "ct_isRequestClose (hs_thread (handler_unwait t s)) = ct_isRequestClose (hs_thread s)"
  "ct_state (hs_thread (handler_unwait t s)) = ct_state (hs_thread s)"
  "hs_cond (handler_unwait t s) = cv_unwait t (hs_cond s)"
  "ct_stateGuard (hs_thread (handler_unwait t s)) = cv_unwait t (ct_stateGuard (hs_thread s))"
  by (simp_all add: handler_unwait_def)

lemma unwait_heap: "is_heap (later (hs_store (handler_unwait t s))) xs = is_heap (later (hs_store s)) xs"
  using is_heap_store [of "hs_store s" xs "hs_store (handler_unwait t s)"]
    is_heap_store [of "hs_store (handler_unwait t s)" xs "hs_store s"] by auto

lemma cancel_ok_unwait:
  assumes "cancel_ok s pc"
  shows "cancel_ok (handler_unwait t s) pc"
proof -
  have "set (cancellers (handler_unwait t s) x) \<subseteq> set (cancellers s x)" for x by simp
  then have "t' \<in> set (cancellers s x)" if "t' \<in> set (cancellers (handler_unwait t s) x)" for x t' using that by blast
  moreover have "cancellers s x \<noteq> []" if "cancellers (handler_unwait t s) x \<noteq> []" for x
    using that by (auto simp: cancel_unwait_def sync)
  ultimately show ?thesis using assms unfolding cancel_ok_def unwait_fields cancel_unwait_simps by blast
qed

lemma cancel_ok_timer:
  assumes "cancel_ok s pc" and "pc 0 = Timer w" and "\<And>x. w \<noteq> H_NotifyTask x"
  shows "cancel_ok s (pc(0 := Timer w'))"
proof -
  have u: "(pc(0 := Timer w')) t = User (A_CancelWait x) \<longleftrightarrow> pc t = User (A_CancelWait x)" for t x
    using assms(2) by (cases "t = 0") simp_all
  have "\<not> (cancellers s x \<noteq> [] \<and> stopped s x)" for x using assms by (auto simp: cancel_ok_def)
  with assms(1) show ?thesis unfolding cancel_ok_def u by blast
qed

lemma handler_unwait_parts:
  "handler_free (handler_unwait t s) = handler_free s" "queue_ok (handler_unwait t s) = queue_ok s"
  "adders_ok (handler_unwait t s) pc = adders_ok s pc" "timer_ok (handler_unwait t s) w = timer_ok s w"
  "h_ended (handler_unwait t s) w = h_ended s w" "sleep_ok s w \<Longrightarrow> sleep_ok (handler_unwait t s) w"
  "hs_isRequestShutDown (handler_unwait t s) = hs_isRequestShutDown s"
  "set (m_cond (ct_stateGuard (hs_thread (handler_unwait t s)))) \<subseteq> set (m_cond (ct_stateGuard (hs_thread s)))"
proof -
  show "sleep_ok s w \<Longrightarrow> sleep_ok (handler_unwait t s) w"
    by (cases "t = 0") (auto simp: sleep_ok_def sync)
  show "set (m_cond (ct_stateGuard (hs_thread (handler_unwait t s)))) \<subseteq> set (m_cond (ct_stateGuard (hs_thread s)))"
    by (auto simp: sync)
qed (simp_all add: handler_free_def queue_ok_def adders_ok_def timer_ok_def h_ended_def sync unwait_heap)

lemma handler_unwait_inv:
  assumes "handler_inv s pc"
  shows "handler_inv (handler_unwait t s) pc"
  using assms handler_unwait_parts(8) [of t s] cancel_ok_unwait [of s pc t]
  unfolding handler_inv_def handler_unwait_parts(1-5,7) by (auto dest: handler_unwait_parts(6))

lemma handler_timeout_inv:
  assumes inv: "handler_inv s pc" and "handler_expire (pc t) = Some k"
    and wait: "handler_waiting t s"
  shows "handler_inv (handler_unwait t s) (pc(t := k))"
proof -
  obtain d where d: "pc t = Timer (H_TimedWait d)" "k = Timer H_Woken"
    using assms(2) by (cases "pc t" rule: handler_expire.cases) auto
  have role: "\<And>u. u \<noteq> 0 \<Longrightarrow> \<exists>c. pc u = User c" using inv by (auto simp: handler_inv_def)
  with d(1) have t: "t = 0" by (metis handler_pc.distinct(1))
  have sl: "sleep_ok s (H_TimedWait d)" using inv d(1) t by (auto simp: handler_inv_def)
  have cancel: "cancel_ok s pc" using inv by (simp add: handler_inv_def)
  then have "t \<notin> set (cancellers s x)" for x using d(1) unfolding cancel_ok_def by (metis handler_pc.distinct(1))
  with wait inv t have "cv_waiting (hs_cond s) t" by (auto simp: handler_inv_def handler_waiting_def list_ex_iff sync)
  moreover have "cancel_ok (handler_unwait t s) (pc(t := k))"
    using cancel_ok_timer [OF cancel_ok_unwait [OF cancel, of t]] d t by simp
  ultimately have "cv_waiting (hs_cond s) t" "cancel_ok (handler_unwait t s) (pc(t := k))" by blast+
  note cancel' = this(2)
  from this(1) sl t have "m_cond (hs_cond (handler_unwait t s)) = []"
    by (auto simp: sleep_ok_def handler_unwait_def sync)
  then have "sleep_ok (handler_unwait t s) H_Woken" by (simp add: sleep_ok_def)
  moreover have "is_adding x ((pc(t := k)) u) = is_adding x (pc u)"
      "is_ending ((pc(t := k)) u) = is_ending (pc u)" for x u
    using d by (auto simp: is_ending_def)
  then have "adders_ok (handler_unwait t s) (pc(t := k)) = adders_ok s pc"
      "(\<forall>u. \<not> is_ending ((pc(t := k)) u)) = (\<forall>u. \<not> is_ending (pc u))"
    unfolding handler_unwait_parts(3) by (simp_all add: adders_ok_def)
  moreover have "timer_ok s H_Woken" "h_ended s H_Woken = h_ended s (H_TimedWait d)"
    by (simp_all add: timer_ok_def h_ended_def)
  ultimately show ?thesis
    using inv d t handler_unwait_parts(8) [of t s] cancel'
    unfolding handler_inv_def handler_unwait_parts(1,2,4,5,7) by auto
qed

lemma handler_start_inv: "handler_inv (fst handler_start) (snd handler_start)"
proof -
  have "\<not> tt_isEnd (TimerTask_ctor free_mutex)" "end_ok (TimerTask_ctor free_mutex)"
    by (simp_all add: ctor_ends)
  then show ?thesis
    by (auto simp: handler_inv_def handler_start_def TimerTaskHandler_ctor_def TimerTaskQueue_ctor_def
        CloseableThread_ctor_def ConditionVariable_ctor_def handler_free_def queue_ok_def adders_ok_def
        timer_ok_def sleep_ok_def cancel_ok_def ctor_cond is_heap_def cv_free_def task_free_ctor)
qed

interpretation handler: machine_invariant "handler_machine False" "\<lambda>c. c = handler_start" handler_inv
proof (unfold_locales, goal_cases)
  case (1 s pc)
  then show ?case using handler_start_inv by (metis fst_conv snd_conv)
next
  case (2 s pc t e k s')
  then show ?case using handler_act_inv [of s pc e t k s'] by (auto simp: handler_machine_def)
next
  case (3 s pc t)
  then show ?case by (simp add: handler_machine_def handler_unwait_inv)
next
  case (4 s pc t k)
  then show ?case using handler_timeout_inv [of s pc t k] by (simp add: handler_machine_def)
qed

section \<open>The properties of the timer\<close>

abbreviation handler_reachable :: "handler_sys \<Rightarrow> (tid \<Rightarrow> handler_pc) \<Rightarrow> bool" where
  "handler_reachable s pc \<equiv> reachable (handler_machine False) (\<lambda>c. c = handler_start) (s, pc)"

text \<open>
  C1: the timer fires the right task at the right time, when its users add functors and cancel tasks
  (\<open>handler_machine False\<close>: no task object is added by two callers).  A task that is fired is the
  earliest of all queued tasks; it is due at the clock reading of this turn unless its cancellation was
  requested; a periodic task stays in the queue with its next deadline one interval after that
  reading, any other task leaves it; and no other task is lost.
\<close>

theorem TimerTaskHandler_fires_earliest_due:
  assumes "handler_reachable s pc"
    and "mstep (handler_machine False) (Act 0 (HStep now n sp)) (s, pc) = Some (s', pc')"
    and "pc' 0 = Timer (H_Fire x)"
  shows "x \<in> set (hs_queue s) \<and> (\<forall>y \<in> set (hs_queue s). due s x \<le> due s y)
     \<and> (due s x \<le> now \<or> tb_isRequestCancel (hs_store s x))
     \<and> (x \<in> set (hs_queue s') \<longrightarrow> 0 < tt_interval (hs_store s x) \<and> due s' x = now + tt_interval (hs_store s x))
     \<and> (x \<notin> set (hs_queue s') \<longrightarrow> tt_interval (hs_store s x) = 0 \<or> tb_isRequestCancel (hs_store s x))
     \<and> set (hs_queue s) - {x} \<subseteq> set (hs_queue s')"
proof -
  have inv: "handler_inv s pc" using handler.reachable_inv [OF assms(1)] .
  from assms(2) obtain k' where act: "handler_act False (HStep now n sp) 0 (pc 0) s = Some (k', s')"
      and "pc' = pc(0 := k')"
    by (auto simp: handler_machine_def split: if_splits option.splits)
  with assms(3) have k': "k' = Timer (H_Fire x)" by simp
  obtain w where w: "pc 0 = Timer w" and ok: "handler_free s" "queue_ok s"
    using inv by (auto simp: handler_inv_def)
  have step: "TimerTaskHandler_ThreadFunction now 0 w s = Some (H_Fire x, s')"
    using act w k' by (auto simp: handler_act_def split: option.splits)
  then have "TimerTaskHandler_iteration 0 now s = Some (H_Fire x, s')"
    by (cases w) (auto simp: close_op_defs Let_def split: if_splits sum.splits
        elim!: bind_eq_Some_conv [THEN iffD1, elim_format])
  then have it: "iteration 0 now s (H_Fire x) s'"
    using iteration_act handler_freeD [OF ok(1)] by blast
  have ne: "hs_queue s \<noteq> []" and top: "x = pq_top (hs_queue s)"
    using it by (auto elim: iteration.cases)
  have "x \<in> set (hs_queue s) \<and> (\<forall>y \<in> set (hs_queue s). due s x \<le> due s y)"
    using pq_top_in [OF ne] top_is_min [of "hs_store s" "hs_queue s"] ok(2) top by (simp add: queue_ok_def)
  moreover have rest: "x \<notin> set (pq_pop cmp (hs_queue s)) \<and> set (hs_queue s) - {x} \<subseteq> set (pq_pop cmp (hs_queue s))" for cmp
    using distinct_pq_pop [OF ne] ok(2) set_pq_pop [OF ne, of cmp] by (auto simp: queue_ok_def top)
  from it have "(due s x \<le> now \<or> tb_isRequestCancel (hs_store s x))
     \<and> (x \<in> set (hs_queue s') \<longrightarrow> 0 < tt_interval (hs_store s x) \<and> due s' x = now + tt_interval (hs_store s x))
     \<and> (x \<notin> set (hs_queue s') \<longrightarrow> tt_interval (hs_store s x) = 0 \<or> tb_isRequestCancel (hs_store s x))
     \<and> set (hs_queue s) - {x} \<subseteq> set (hs_queue s')"
    by (cases rule: iteration.cases)
       (use rest ne top in \<open>auto simp: rescheduled_set pq_top_in word_gt_0\<close>)
  ultimately show ?thesis by blast
qed


text \<open>The actions that are left to the thread once it has been told to close.\<close>

fun timer_rank :: "timer_pc \<Rightarrow> nat" where
  "timer_rank H_Start = 12" | "timer_rank (H_Fire _) = 11" | "timer_rank (H_SetRunning _) = 10"
| "timer_rank (H_Body _) = 9" | "timer_rank (H_SetStopped _ _) = 8" | "timer_rank (H_NotifyTask _) = 7"
| "timer_rank H_Check0 = 6" | "timer_rank (H_TimedWait _) = 6" | "timer_rank H_Woken = 6"
| "timer_rank H_Loop = 5" | "timer_rank H_Wait = 5" | "timer_rank H_SetFinished = 3"
| "timer_rank H_NotifyClosed = 2" | "timer_rank H_Done = 0" | "timer_rank H_Threw = 0"

lemma timer_move_rank:
  assumes "timer_move t s w w' s'" and "ct_isRequestClose (hs_thread s)"
  shows "timer_rank w' < timer_rank w"
  using assms by (cases rule: timer_move.cases) (auto elim: iteration.cases)

lemma timer_enabled:
  assumes free: "handler_free s" and close: "ct_isRequestClose (hs_thread s)" and "0 < timer_rank w"
  shows "\<exists>e r. handler_act shared e t (Timer w) s = Some r"
proof (cases w)
  case (H_Body x)
  then have "\<exists>r. handler_act shared (BodyEnds BodyThrows) t (Timer w) s = Some r"
    by (simp add: handler_act_def timer_body_def)
  then show ?thesis by blast
qed (use assms handler_freeD [OF free] in \<open>auto simp: handler_act_def sync close_op_defs Let_def
      TaskBase_CheckCancellation_def TimerTaskHandler_iteration_def Let_def intro!: exI [of _ "HStep 0 0 False"]\<close>)

lemma closed_timer_awake:
  assumes "handler_reachable s pc" and "hs_isRequestShutDown s" and "\<And>t. \<not> is_ending (pc t)"
  shows "\<not> waiting (handler_machine False) s 0"
proof -
  have inv: "handler_inv s pc" using handler.reachable_inv [OF assms(1)] .
  then obtain w where ok: "pc 0 = Timer w" "queue_ok s" "sleep_ok s w" "h_ended s w"
      "0 \<notin> set (m_cond (ct_stateGuard (hs_thread s)))" "cancel_ok s pc"
    using assms(2,3) by (auto simp: handler_inv_def)
  then have "0 \<notin> set (cancellers s x)" for x unfolding cancel_ok_def by (metis handler_pc.distinct(1))
  note awake = this
  have "\<not> cv_waiting (hs_cond s) 0"
  proof
    assume sleeping: "cv_waiting (hs_cond s) 0"
    then obtain x where x: "x \<in> set (hs_queue s)" "tt_isEnd (hs_store s x)"
      using ok(3,4) by (auto simp: h_ended_def sleep_ok_def sync)
    then have "due s x = 0" using ok(2) by (simp add: queue_ok_def end_ok_def)
    then have "due s (pq_top (hs_queue s)) = 0"
      using top_is_min [of "hs_store s" "hs_queue s" x] ok(2) x(1) by (simp add: queue_ok_def)
    with sleeping ok(3) x(1) show False by (auto simp: sleep_ok_def sync)
  qed
  with ok(5) awake show ?thesis by (auto simp: handler_machine_def handler_waiting_def list_ex_iff sync)
qed

text \<open>
  Shutting the timer down ends it: once \<open>ShutDown\<close> has pushed its end task and told the thread
  to close, the thread is awake, it can act, and each of its actions brings it nearer to its end,
  so it runs at most the one task it has already taken.
\<close>

theorem TimerTaskHandler_ShutDown_ends:
  assumes "handler_reachable s pc" and "hs_isRequestShutDown s" and "\<And>t. \<not> is_ending (pc t)"
    and "ct_isRequestClose (hs_thread s)" and "pc 0 = Timer w" and "w \<noteq> H_Done" and "w \<noteq> H_Threw"
  shows "(\<exists>e c. mstep (handler_machine False) (Act 0 e) (s, pc) = Some c) \<and>
     (\<forall>e s' pc'. mstep (handler_machine False) (Act 0 e) (s, pc) = Some (s', pc') \<longrightarrow>
        (\<exists>w'. pc' = pc(0 := Timer w') \<and> timer_rank w' < timer_rank w))"
proof -
  have inv: "handler_inv s pc" using handler.reachable_inv [OF assms(1)] .
  then have ok: "handler_free s" by (simp add: handler_inv_def)
  have awake: "\<not> waiting (handler_machine False) s 0" by (rule closed_timer_awake [OF assms(1-3)])
  have "0 < timer_rank w" using assms(6,7) by (cases w) auto
  from timer_enabled [OF ok assms(4) this] obtain e r where "handler_act False e 0 (Timer w) s = Some r" by blast
  with awake assms(5) have "\<exists>e c. mstep (handler_machine False) (Act 0 e) (s, pc) = Some c"
    by (cases r) (auto simp: handler_machine_def intro!: exI [of _ e])
  moreover have "\<exists>w'. pc' = pc(0 := Timer w') \<and> timer_rank w' < timer_rank w"
    if step: "mstep (handler_machine False) (Act 0 e) (s, pc) = Some (s', pc')" for e s' pc'
  proof -
    from step obtain k' where act: "handler_act False e 0 (pc 0) s = Some (k', s')" and pc': "pc' = pc(0 := k')"
      by (auto simp: handler_machine_def split: if_splits option.splits)
    from inv act show ?thesis
    proof (cases rule: handler_who)
      case (timer w1 w')
      then show ?thesis using assms(5) pc' timer_move_rank [OF timer(4) assms(4)] by auto
    qed simp
  qed
  ultimately show ?thesis by blast
qed

section \<open>Witnesses\<close>

definition hsteps :: "tid \<Rightarrow> TimeValue list \<Rightarrow> handler_ev label list" where
  "hsteps t nows = map (\<lambda>now. Act t (HStep now 0 False)) nows"

definition add_cron :: "tid \<Rightarrow> TimeValue \<Rightarrow> TimeValue \<Rightarrow> handler_ev label list" where
  "add_cron t now delay = Act t (CallCron now delay) # hsteps t [0, 0, 0, 0]"

lemmas handler_run = run_check_reachable [where init = "\<lambda>c. c = handler_start", OF _ refl]

theorem TimerTaskHandler_fires_earliest_due_witness:
  "\<exists>s pc s' pc'. handler_reachable s pc \<and> mstep (handler_machine False) (Act 0 (HStep 30 0 False)) (s, pc) = Some (s', pc')
     \<and> pc' 0 = Timer (H_Fire 1) \<and> hs_queue s' = [0] \<and> due s 1 = 25 \<and> due s 1 \<le> due s 0"
proof -
  let ?next = "mstep (handler_machine False) (Act 0 (HStep 30 0 False))"
  have "run_check (handler_machine False) (add_cron 1 10 40 @ add_cron 2 20 5 @ hsteps 0 [30, 30]) handler_start
      (\<lambda>s pc. due s 1 = 25 \<and> 0 \<in> set (hs_queue s) \<and> (case ?next (s, pc) of None \<Rightarrow> False
        | Some (s', pc') \<Rightarrow> pc' 0 = Timer (H_Fire 1) \<and> hs_queue s' = [0]))"
    by code_simp
  from handler_run [OF this] obtain s pc s' pc' where r: "handler_reachable s pc" "due s 1 = 25"
      "0 \<in> set (hs_queue s)" "?next (s, pc) = Some (s', pc')" "pc' 0 = Timer (H_Fire 1)" "hs_queue s' = [0]"
    by (auto simp del: mstep.simps split: option.splits)
  with TimerTaskHandler_fires_earliest_due [OF r(1,4,5)] show ?thesis by blast
qed


theorem TimerTaskHandler_ShutDown_ends_witness:
  "\<exists>s pc. handler_reachable s pc \<and> pc 0 = Timer H_Wait \<and> hs_isRequestShutDown s \<and>
     (\<exists>e c. mstep (handler_machine False) (Act 0 e) (s, pc) = Some c)"
proof -
  have "run_check (handler_machine False)
      (hsteps 0 [5, 5, 5] @ [Act 1 (CallShutDown False)] @ hsteps 1 [6, 6, 6])
      (fst handler_start, snd handler_start)
      (\<lambda>s pc. hs_isRequestShutDown s \<and> ct_isRequestClose (hs_thread s) \<and> pc 0 = Timer H_Wait \<and> pc 1 = User A_ShutReturned)"
    by code_simp
  from run_check_reachable_frame [where init = "\<lambda>c. c = handler_start", OF this]
  obtain s pc where r: "handler_reachable s pc" "hs_isRequestShutDown s" "ct_isRequestClose (hs_thread s)"
      "pc 0 = Timer H_Wait" "pc 1 = User A_ShutReturned" "\<forall>t. t \<noteq> 0 \<and> t \<noteq> 1 \<longrightarrow> pc t = User A_Idle"
    by (auto simp: hsteps_def handler_start_def)
  have "\<not> is_ending (pc t)" for t
    using r(4-6) by (cases "t = 0"; cases "t = 1") (auto simp: is_ending_def ending_def)
  from TimerTaskHandler_ShutDown_ends [OF r(1,2) this r(3,4)] r(1,2,4) show ?thesis by blast
qed

section \<open>Defects of the timer\<close>

text \<open>
  \<open>ShutDown\<close> sets the deadline of an end task that it then drops; the one it pushes has
  deadline 0 and overtakes tasks that have long been due: here a task due at 50 is never fired
  although the clock reads 90 when the thread ends.
\<close>

theorem ShutDown_overtakes_due_tasks:
  "\<exists>s pc. handler_reachable s pc \<and> pc 0 = Timer H_SetFinished \<and> hs_fired s = [(1, 90)] \<and>
     hs_queue s = [0] \<and> due s 0 = 50"
proof -
  have "run_check (handler_machine False)
      (hsteps 0 [5, 5] @ add_cron 1 10 40 @ [Act 1 (CallShutDown False)] @ hsteps 1 [90, 90] @ hsteps 0 [90, 90])
      handler_start
      (\<lambda>s pc. pc 0 = Timer H_SetFinished \<and> hs_fired s = [(1, 90)] \<and> hs_queue s = [0] \<and> due s 0 = 50)"
    by code_simp
  from handler_run [OF this] show ?thesis by blast
qed

text \<open>
  The guard against adding a task twice is a test and a later store: two threads that add the
  same one-shot task both pass it, and the task is fired twice.
\<close>

theorem task_added_twice_fires_twice:
  "\<exists>s pc. reachable (handler_machine True) (\<lambda>c. c = handler_start) (s, pc) \<and> tt_interval (hs_store s 0) = 0 \<and>
     hs_fired s = [(0, 90), (0, 90)]"
proof -
  have "run_check (handler_machine True)
      (hsteps 0 [5, 5] @ [Act 1 NewTask, Act 1 (CallCronTask 0 10 40), Act 2 (CallCronTask 0 10 50)] @
       concat (replicate 4 (hsteps 1 [0] @ hsteps 2 [0])) @ hsteps 0 [90, 90, 90] @ [Act 0 (BodyEnds BodyReturns)] @
       hsteps 0 [90, 90, 90])
      handler_start
      (\<lambda>s pc. tt_interval (hs_store s 0) = 0 \<and> hs_fired s = [(0, 90), (0, 90)])"
    by code_simp
  from handler_run [OF this] show ?thesis by blast
qed

end
