(* ===== verification/ScheduledThreadPool.thy ===== *)
theory ScheduledThreadPool
  imports TimerTaskHandler
begin

text \<open>
  \<open>include/empool/ScheduledThreadPool.h\<close>, \<open>src/ScheduledThreadPool.cpp\<close>: a fixed number of timers
  that take turns.  The pool uses its timers only through three operations, which are arguments of
  the definitions here; the locale \<open>timer_service\<close> is their contract, and it is interpreted on the
  timer of theory \<open>TimerTaskHandler\<close>.  A vector access out of range, a null pointer and a division
  by zero are \<open>None\<close>, and so is a call of a timer that does not return.
\<close>

datatype sched_state = Sched_INIT | Sched_RUNNING | Sched_STOP | Sched_SHUTDOWN

record 'h scheduled_pool =
  sc_state :: sched_state
  sc_index :: "64 word"
  sc_stateGuard :: mutex
  sc_isRequestShutDown :: bool
  sc_handlerGuard :: mutex
  sc_handlers :: "'h option list"

definition ScheduledThreadPool_SetState :: "tid \<Rightarrow> sched_state \<Rightarrow> 'h scheduled_pool \<Rightarrow> 'h scheduled_pool option" where
  "ScheduledThreadPool_SetState t st p =
     do { m \<leftarrow> MutexLocker t (sc_stateGuard p);
          Some (p\<lparr>sc_state := st, sc_stateGuard := MutexLocker_dtor m\<rparr>) }"

definition ScheduledThreadPool_ctor :: "tid \<Rightarrow> nat \<Rightarrow> 'h \<Rightarrow> 'h scheduled_pool option" where
  "ScheduledThreadPool_ctor t threadNum new_handler =
     ScheduledThreadPool_SetState t Sched_RUNNING
       \<lparr>sc_state = Sched_INIT, sc_index = 0, sc_stateGuard = free_mutex, sc_isRequestShutDown = False,
        sc_handlerGuard = free_mutex, sc_handlers = map (\<lambda>_. Some new_handler) [0..<threadNum]\<rparr>"

definition ScheduledThreadPool_GetThreadNum :: "'h scheduled_pool \<Rightarrow> nat" where
  "ScheduledThreadPool_GetThreadNum p = length (sc_handlers p)"

definition ScheduledThreadPool_DoIsShutDown :: "'h scheduled_pool \<Rightarrow> bool" where
  "ScheduledThreadPool_DoIsShutDown p \<longleftrightarrow> sc_state p = Sched_SHUTDOWN"

definition ScheduledThreadPool_IsShutDown :: "tid \<Rightarrow> 'h scheduled_pool \<Rightarrow> (bool \<times> 'h scheduled_pool) option" where
  "ScheduledThreadPool_IsShutDown t p =
     do { m \<leftarrow> MutexLocker t (sc_stateGuard p);
          Some (ScheduledThreadPool_DoIsShutDown p, p\<lparr>sc_stateGuard := MutexLocker_dtor m\<rparr>) }"

text \<open>
  The loop of \<open>ShutDownHelper\<close> over the timers; \<open>shut now\<close> is \<open>ShutDownNow\<close> or \<open>ShutDown\<close> of one
  timer, \<open>g\<close> the handler guard.
\<close>

fun shut_handlers :: "tid \<Rightarrow> ('h \<Rightarrow> 'h option) \<Rightarrow> mutex \<Rightarrow> 'h option list \<Rightarrow> (mutex \<times> 'h option list) option" where
  "shut_handlers t shut g [] = Some (g, [])"
| "shut_handlers t shut g (h # hs) =
     do { m \<leftarrow> MutexLocker t g;
          let g' = MutexLocker_dtor m;
          h' \<leftarrow> (case h of Some timer \<Rightarrow> map_option Some (shut timer) | None \<Rightarrow> Some None);
          (g'', hs') \<leftarrow> shut_handlers t shut g' hs;
          Some (g'', h' # hs') }"

definition ScheduledThreadPool_ShutDownHelper :: "tid \<Rightarrow> bool \<Rightarrow> (bool \<Rightarrow> 'h \<Rightarrow> 'h option) \<Rightarrow> bool \<Rightarrow>
    'h scheduled_pool \<Rightarrow> 'h scheduled_pool option" where
  "ScheduledThreadPool_ShutDownHelper t spurious shut now p =
     (case compare_exchange_weak spurious False True (sc_isRequestShutDown p) of
        (won, v) \<Rightarrow>
          (let p1 = p\<lparr>sc_isRequestShutDown := v\<rparr> in
           if won then
             do { p2 \<leftarrow> ScheduledThreadPool_SetState t Sched_STOP p1;
                  (g, hs) \<leftarrow> shut_handlers t (shut now) (sc_handlerGuard p2) (sc_handlers p2);
                  ScheduledThreadPool_SetState t Sched_SHUTDOWN (p2\<lparr>sc_handlerGuard := g, sc_handlers := hs\<rparr>) }
           else Some p1))"

definition ScheduledThreadPool_ShutDown :: "tid \<Rightarrow> bool \<Rightarrow> (bool \<Rightarrow> 'h \<Rightarrow> 'h option) \<Rightarrow> 'h scheduled_pool \<Rightarrow>
    'h scheduled_pool option" where
  "ScheduledThreadPool_ShutDown t spurious shut = ScheduledThreadPool_ShutDownHelper t spurious shut False"

definition ScheduledThreadPool_ShutDownNow :: "tid \<Rightarrow> bool \<Rightarrow> (bool \<Rightarrow> 'h \<Rightarrow> 'h option) \<Rightarrow> 'h scheduled_pool \<Rightarrow>
    'h scheduled_pool option" where
  "ScheduledThreadPool_ShutDownNow t spurious shut = ScheduledThreadPool_ShutDownHelper t spurious shut True"

text \<open>
  The timer whose turn it is: \<open>m_index.fetch_add(1) % GetThreadNum()\<close>, computed in 64 unsigned bits
  and narrowed to \<open>int\<close>.
\<close>

definition current_index :: "'h scheduled_pool \<Rightarrow> int" where
  "current_index p = sint (ucast (sc_index p mod word_of_nat (ScheduledThreadPool_GetThreadNum p)) :: 32 word)"

text \<open>\<open>add x h\<close> is \<open>AddCronTimerTask\<close> or \<open>AddCycleTimerTask\<close> of a timer; \<open>task\<close> may be null.\<close>

definition ScheduledThreadPool_DoAdd :: "('x \<Rightarrow> 'h \<Rightarrow> (bool \<times> 'h) option) \<Rightarrow> 'x option \<Rightarrow> 'h scheduled_pool \<Rightarrow>
    ('x option \<times> 'h scheduled_pool) option" where
  "ScheduledThreadPool_DoAdd add task p =
     (if sc_isRequestShutDown p then Some (None, p)
      else case task of
        None \<Rightarrow> Some (None, p)
      | Some x \<Rightarrow>
          (if ScheduledThreadPool_GetThreadNum p = 0 then None
           else let i = current_index p; p1 = p\<lparr>sc_index := sc_index p + 1\<rparr> in
             if i < 0 \<or> int (length (sc_handlers p1)) \<le> i then None
             else case sc_handlers p1 ! nat i of
               None \<Rightarrow> None
             | Some h \<Rightarrow>
                 do { (ok, h') \<leftarrow> add x h;
                      Some (if ok then Some x else None, p1\<lparr>sc_handlers := (sc_handlers p1)[nat i := Some h']\<rparr>) }))"

lemma unat_small: "m < 2 ^ 64 \<Longrightarrow> unat (word_of_nat m :: 64 word) = m"
  by (simp add: unat_of_nat take_bit_nat_eq_self)

lemma signed_take_bit_small: "k < 2 ^ 31 \<Longrightarrow> signed_take_bit 31 (int k) = int k"
  by (rule signed_take_bit_int_eq_self) simp_all

lemma narrow_small:
  assumes "unat (w :: 64 word) < 2 ^ 31"
  shows "sint (ucast w :: 32 word) = int (unat w)"
proof -
  have "unat (ucast w :: 32 word) = unat w mod 2 ^ 32"
    by (simp add: unsigned_ucast_eq take_bit_nat_def)
  also have "\<dots> = unat w" using assms by simp
  finally have "uint (ucast w :: 32 word) = int (unat w)" by (metis uint_nat)
  with signed_take_bit_small [OF assms] show ?thesis by (simp add: sint_uint del: of_nat_unat)
qed

lemma current_index_mod:
  assumes "0 < n" and "n < 2 ^ 31" and "length (sc_handlers p) = n" and "sc_index p = word_of_nat m" and "m < 2 ^ 64"
  shows "current_index p = int (m mod n)"
proof -
  have lt: "m mod n < 2 ^ 31" using assms(1,2) by (meson mod_less_divisor order.strict_trans)
  have "n < 2 ^ 64" using assms(2) by (rule order.strict_trans) simp
  then have "unat (word_of_nat m mod word_of_nat n :: 64 word) = m mod n"
    using assms(5) by (simp add: unat_mod_distrib unat_small)
  with lt narrow_small [of "word_of_nat m mod word_of_nat n"] assms(3,4) show ?thesis
    by (simp add: current_index_def ScheduledThreadPool_GetThreadNum_def)
qed

section \<open>The contract of the timers\<close>

text \<open>
  What the pool relies on: an accepting timer takes a fresh request and stays accepting, a refusing
  one changes nothing, and \<open>ShutDown\<close> returns and makes it refuse.  \<open>key\<close> is the task of a request
  and \<open>pending\<close> the tasks a timer holds.
\<close>

locale timer_service =
  fixes add :: "'x \<Rightarrow> 'h \<Rightarrow> (bool \<times> 'h) option"
    and shut :: "bool \<Rightarrow> 'h \<Rightarrow> 'h option"
    and accepting :: "'h \<Rightarrow> bool"
    and refusing :: "'h \<Rightarrow> bool"
    and fresh :: "'x \<Rightarrow> 'h \<Rightarrow> bool"
    and key :: "'x \<Rightarrow> 'a"
    and pending :: "'h \<Rightarrow> 'a multiset"
  assumes add_accepting: "accepting h \<Longrightarrow> fresh x h \<Longrightarrow> \<exists>h'. add x h = Some (True, h') \<and> accepting h' \<and>
        pending h' = add_mset (key x) (pending h) \<and> (\<forall>y. key y \<noteq> key x \<longrightarrow> fresh y h \<longrightarrow> fresh y h')"
    and add_refusing: "refusing h \<Longrightarrow> add x h = Some (False, h)"
    and shut_accepting: "accepting h \<Longrightarrow> \<exists>h'. shut False h = Some h' \<and> refusing h'"
    and shut_refusing: "refusing h \<Longrightarrow> shut close h = Some h"

fun add_all :: "('x \<Rightarrow> 'h \<Rightarrow> (bool \<times> 'h) option) \<Rightarrow> 'x list \<Rightarrow> 'h scheduled_pool \<Rightarrow>
    ('x option list \<times> 'h scheduled_pool) option" where
  "add_all add [] p = Some ([], p)"
| "add_all add (x # xs) p =
     do { (r, p') \<leftarrow> ScheduledThreadPool_DoAdd add (Some x) p;
          (rs, p'') \<leftarrow> add_all add xs p';
          Some (r # rs, p'') }"

lemma add_all_snoc:
  assumes "add_all add xs p = Some (rs, p')" and "ScheduledThreadPool_DoAdd add (Some x) p' = Some (r, p'')"
  shows "add_all add (xs @ [x]) p = Some (rs @ [r], p'')"
  using assms by (induction xs arbitrary: p rs) (fastforce simp: Option.bind_eq_Some_conv)+

text \<open>The part of the pool an open pool keeps: its timers, its turn, its flag.\<close>

definition pool_open :: "nat \<Rightarrow> 'h list \<Rightarrow> 'h scheduled_pool \<Rightarrow> bool" where
  "pool_open m hs p \<longleftrightarrow> \<not> sc_isRequestShutDown p \<and> sc_index p = word_of_nat m \<and> sc_handlers p = map Some hs"

lemma DoAdd_turn:
  assumes "pool_open m hs p" and "0 < length hs" and "length hs < 2 ^ 31" and "m < 2 ^ 64"
    and "add x (hs ! (m mod length hs)) = Some (ok, h')"
  shows "\<exists>p'. ScheduledThreadPool_DoAdd add (Some x) p = Some (if ok then Some x else None, p') \<and>
    pool_open (Suc m) (hs[m mod length hs := h']) p'"
proof -
  have "current_index p = int (m mod length hs)"
    using assms by (intro current_index_mod) (auto simp: pool_open_def)
  moreover have "m mod length hs < length hs" using assms(2) by simp
  ultimately show ?thesis
    using assms(1,2,5)
    by (auto simp: ScheduledThreadPool_DoAdd_def ScheduledThreadPool_GetThreadNum_def pool_open_def Let_def
        map_update add.commute not_less [symmetric])
qed

lemma nths_snoc: "nths (xs @ [x]) A = nths xs A @ (if length xs \<in> A then [x] else [])"
  by (simp add: nths_append)

lemma MutexLocker_free: "m_owner m = None \<Longrightarrow> m_isInit m \<Longrightarrow> MutexLocker t m = Some (m\<lparr>m_owner := Some t\<rparr>)"
  by (simp add: MutexLocker_def Mutex_Lock_def)

context timer_service begin

lemma round_robin:
  assumes "pool_open 0 hs p" and "0 < length hs" and "length hs < 2 ^ 31"
    and "\<forall>h \<in> set hs. accepting h"
    and "\<forall>h \<in> set hs. \<forall>x \<in> set xs. fresh x h" and "distinct (map key xs)" and "length xs < 2 ^ 64"
  shows "\<exists>p' hs'. add_all add xs p = Some (map Some xs, p') \<and> pool_open (length xs) hs' p' \<and>
    length hs' = length hs \<and> (\<forall>i < length hs. accepting (hs' ! i) \<and>
      pending (hs' ! i) = pending (hs ! i) + mset (map key (nths xs {j. j mod length hs = i})) \<and>
      (\<forall>y. key y \<notin> key ` set xs \<longrightarrow> fresh y (hs ! i) \<longrightarrow> fresh y (hs' ! i)))"
  using assms(5-7)
proof (induction xs rule: rev_induct)
  case Nil
  then show ?case using assms(1,4) by (auto simp: nths_nil)
next
  case (snoc x xs)
  let ?n = "length hs" let ?k = "length xs mod length hs"
  from snoc obtain p' hs' where ih: "add_all add xs p = Some (map Some xs, p')" "pool_open (length xs) hs' p'"
      "length hs' = ?n" and each: "\<And>i. i < ?n \<Longrightarrow> accepting (hs' ! i) \<and>
        pending (hs' ! i) = pending (hs ! i) + mset (map key (nths xs {j. j mod ?n = i})) \<and>
        (\<forall>y. key y \<notin> key ` set xs \<longrightarrow> fresh y (hs ! i) \<longrightarrow> fresh y (hs' ! i))"
    by (auto simp: less_Suc_eq)
  have k: "?k < ?n" using assms(2) by simp
  have "fresh x (hs ! ?k)" using snoc.prems(1) k by simp
  with each [OF k] snoc.prems(2) have "fresh x (hs' ! ?k)" by auto
  with each [OF k] obtain h' where h': "add x (hs' ! ?k) = Some (True, h')" "accepting h'"
      "pending h' = add_mset (key x) (pending (hs' ! ?k))" "\<And>y. key y \<noteq> key x \<Longrightarrow> fresh y (hs' ! ?k) \<Longrightarrow> fresh y h'"
    using add_accepting by blast
  have m: "length xs < 2 ^ 64" using snoc.prems(3) by simp
  from DoAdd_turn [OF ih(2) _ _ m, of add x True h'] h'(1) assms(2,3) ih(3) obtain p'' where
      p'': "ScheduledThreadPool_DoAdd add (Some x) p' = Some (Some x, p'')" "pool_open (Suc (length xs)) (hs'[?k := h']) p''"
    by auto
  have "accepting (hs'[?k := h'] ! i) \<and>
      pending (hs'[?k := h'] ! i) = pending (hs ! i) + mset (map key (nths (xs @ [x]) {j. j mod ?n = i})) \<and>
      (\<forall>y. key y \<notin> key ` set (xs @ [x]) \<longrightarrow> fresh y (hs ! i) \<longrightarrow> fresh y (hs'[?k := h'] ! i))" if "i < ?n" for i
    using each [OF that] h'(2-4) ih(3) that by (cases "i = ?k") (auto simp: nths_snoc)
  with add_all_snoc [OF ih(1) p''(1)] p''(2) ih(3) show ?case by auto
qed

lemma shut_handlers_all:
  assumes "\<forall>h \<in> set hs. accepting h" and "m_isInit g" and "m_owner g = None"
  shows "\<exists>hs'. shut_handlers t (shut False) g (map Some hs) = Some (g, map Some hs') \<and>
    length hs' = length hs \<and> (\<forall>h \<in> set hs'. refusing h)"
  using assms(1)
proof (induction hs)
  case Nil
  then show ?case by simp
next
  case (Cons h hs)
  then obtain h' hs' where "shut False h = Some h'" "refusing h'" and
      "shut_handlers t (shut False) g (map Some hs) = Some (g, map Some hs')"
      "length hs' = length hs" "\<forall>h \<in> set hs'. refusing h"
    using shut_accepting by (auto dest!: shut_accepting)
  moreover have "MutexLocker_dtor (g\<lparr>m_owner := Some t\<rparr>) = g"
    using assms(2,3) by (cases g) (simp add: MutexLocker_dtor_def Mutex_Unlock_def)
  ultimately show ?case
    using MutexLocker_free [OF assms(3,2)] by (intro exI [of _ "h' # hs'"]) (simp add: Let_def)
qed

end

section \<open>The timers of the pool\<close>

text \<open>
  \<open>AddCronTimerTask\<close> and \<open>AddCycleTimerTask\<close> of one timer as single calls: the steps of theory
  \<open>TimerTaskHandler\<close> run to the return.  \<open>None\<close>: the call blocks or needs more than the given steps;
  five are enough for an add and four for a shutdown that does not wait.
\<close>

datatype timer_request = CronRequest task_id TimeValue TimeValue | CycleRequest task_id TimeValue TimeValue bool

fun request_task :: "timer_request \<Rightarrow> task_id" where
  "request_task (CronRequest task now delay) = task"
| "request_task (CycleRequest task now period is_run_now) = task"

fun request_pc :: "timer_request \<Rightarrow> user_pc" where
  "request_pc (CronRequest task now delay) = TimerTaskHandler_AddCronTimerTask task now delay"
| "request_pc (CycleRequest task now period is_run_now) = TimerTaskHandler_AddCycleTimerTask task now period is_run_now"

fun add_run :: "nat \<Rightarrow> nat \<Rightarrow> tid \<Rightarrow> user_pc \<times> handler_sys \<Rightarrow> (bool \<times> handler_sys) option" where
  "add_run 0 n t c = None"
| "add_run (Suc fuel) n t (c, s) =
     do { (c', s') \<leftarrow> TimerTaskHandler_add n t c s;
          case c' of A_Added ok \<Rightarrow> Some (ok, s') | _ \<Rightarrow> add_run fuel n t (c', s') }"

fun shut_run :: "nat \<Rightarrow> TimeValue \<Rightarrow> nat \<Rightarrow> bool \<Rightarrow> tid \<Rightarrow> user_pc \<times> handler_sys \<Rightarrow> handler_sys option" where
  "shut_run 0 now n sp t c = None"
| "shut_run (Suc fuel) now n sp t (c, s) =
     do { (c', s') \<leftarrow> TimerTaskHandler_ShutDownHelper now n sp t c s;
          case c' of A_ShutReturned \<Rightarrow> Some s' | _ \<Rightarrow> shut_run fuel now n sp t (c', s') }"

lemma run_numeral:
  "add_run (numeral k) n t (c, s) =
     do { (c', s') \<leftarrow> TimerTaskHandler_add n t c s;
          case c' of A_Added ok \<Rightarrow> Some (ok, s') | _ \<Rightarrow> add_run (pred_numeral k) n t (c', s') }"
  "shut_run (numeral k) now n sp t (c, s) =
     do { (c', s') \<leftarrow> TimerTaskHandler_ShutDownHelper now n sp t c s;
          case c' of A_ShutReturned \<Rightarrow> Some s' | _ \<Rightarrow> shut_run (pred_numeral k) now n sp t (c', s') }"
  by (simp_all only: numeral_eq_Suc add_run.simps shut_run.simps)

definition timer_add :: "nat \<Rightarrow> tid \<Rightarrow> timer_request \<Rightarrow> handler_sys \<Rightarrow> (bool \<times> handler_sys) option" where
  "timer_add n t r s = add_run 5 n t (request_pc r, s)"

definition timer_shut :: "TimeValue \<Rightarrow> nat \<Rightarrow> bool \<Rightarrow> tid \<Rightarrow> bool \<Rightarrow> handler_sys \<Rightarrow> handler_sys option" where
  "timer_shut now n sp t close s = shut_run 4 now n sp t (A_ShutDown close, s)"

definition timer_accepting :: "handler_sys \<Rightarrow> bool" where
  "timer_accepting s \<longleftrightarrow> handler_free s \<and> \<not> ct_isRequestClose (hs_thread s) \<and> \<not> hs_isRequestShutDown s"

definition timer_refusing :: "handler_sys \<Rightarrow> bool" where
  "timer_refusing s \<longleftrightarrow> ct_isRequestClose (hs_thread s) \<and> hs_isRequestShutDown s"

definition request_fresh :: "timer_request \<Rightarrow> handler_sys \<Rightarrow> bool" where
  "request_fresh r s \<longleftrightarrow> request_task r < hs_next s \<and> due s (request_task r) = 0"

lemmas timer_call_defs = timer_accepting_def timer_refusing_def request_fresh_def timer_add_def timer_shut_def
  DoAddCronTimerTask_def DoAddCycleTimerTask_def timer_add_forms CloseableThread_IsRequestClose_def

definition prepared :: "task_id \<Rightarrow> TimeValue \<Rightarrow> TimeValue option \<Rightarrow> handler_sys \<Rightarrow> handler_sys" where
  "prepared x d i s = with_task x (case i of None \<Rightarrow> (hs_store s x)\<lparr>tt_deadline := d\<rparr>
     | Some interval \<Rightarrow> (hs_store s x)\<lparr>tt_deadline := d, tt_interval := interval\<rparr>) s"

lemma add_steps:
  assumes "handler_free s"
  shows "\<not> ct_isRequestClose (hs_thread s) \<Longrightarrow>
      TimerTaskHandler_add n t (A_LoadClose x d i) s = Some (A_TestDeadline x d i, s)"
    and "due s x = 0 \<Longrightarrow> TimerTaskHandler_add n t (A_TestDeadline x d i) s = Some (A_SetDeadline x d i, s)"
    and "TimerTaskHandler_add n t (A_SetDeadline x d i) s = Some (case i of None \<Rightarrow> A_Push x | Some j \<Rightarrow> A_SetInterval x j,
      with_task x ((hs_store s x)\<lparr>tt_deadline := d\<rparr>) s)"
    and "TimerTaskHandler_add n t (A_SetInterval x j) s =
      Some (A_Push x, with_task x ((hs_store s x)\<lparr>tt_interval := j\<rparr>) s)"
    and "TimerTaskHandler_add n t (A_Push x) s = Some (A_Added True, queued n x s)"
  using handler_freeD [OF assms]
  by (simp_all add: sync hs_updates CloseableThread_IsRequestClose_def TimerTaskQueue_PushTask_def unlock_queue_def)

lemma with_task_free:
  "handler_free s \<Longrightarrow> task_free tt \<Longrightarrow> handler_free (with_task x tt s)"
  by (simp add: handler_free_def with_task_def)

lemma add_returns:
  assumes "handler_free s" and "\<not> ct_isRequestClose (hs_thread s)" and "due s x = 0"
  shows "add_run 5 n t (A_LoadClose x d i, s) = Some (True, queued n x (prepared x d i s))"
proof -
  let ?s1 = "with_task x ((hs_store s x)\<lparr>tt_deadline := d\<rparr>) s"
  have free: "task_free (hs_store s x)" using handler_freeD [OF assms(1)] by blast
  have f1: "handler_free ?s1" using assms(1) free by (intro with_task_free) (simp_all add: sync)
  have f2: "handler_free (with_task x ((hs_store s x)\<lparr>tt_deadline := d, tt_interval := j\<rparr>) ?s1)" for j
    by (rule with_task_free [OF f1]) (use free in \<open>simp add: with_task_def sync\<close>)
  have p: "prepared x d i s = (case i of None \<Rightarrow> ?s1 | Some j \<Rightarrow> with_task x ((hs_store ?s1 x)\<lparr>tt_interval := j\<rparr>) ?s1)"
    by (cases i) (simp_all add: prepared_def with_task_def)
  show ?thesis
    unfolding p
    by (cases i) (simp_all add: run_numeral add_steps [OF assms(1)] add_steps [OF f1] add_steps [OF f2] assms(2,3) del: TimerTaskHandler_add.simps)
qed

lemma prepared_other:
  "y \<noteq> x \<Longrightarrow> due (prepared x d i s) y = due s y"
  "y \<noteq> x \<Longrightarrow> due (queued n x (prepared x d i s)) y = due s y"
  by (simp_all add: prepared_def hs_updates)

lemma prepared_fields:
  "hs_next (prepared x d i s) = hs_next s" "hs_thread (prepared x d i s) = hs_thread s"
  "hs_isRequestShutDown (prepared x d i s) = hs_isRequestShutDown s" "hs_queue (prepared x d i s) = hs_queue s"
  "hs_next (queued n x (prepared x d i s)) = hs_next s" "hs_thread (queued n x (prepared x d i s)) = hs_thread s"
  "hs_isRequestShutDown (queued n x (prepared x d i s)) = hs_isRequestShutDown s"
  "mset (hs_queue (queued n x (prepared x d i s))) = add_mset x (mset (hs_queue s))"
  by (simp_all add: prepared_def hs_updates mset_push)

lemma prepared_free: "handler_free s \<Longrightarrow> handler_free (queued n x (prepared x d i s))"
  by (cases i) (auto simp: prepared_def hs_updates handler_free_def sync)

lemma timer_add_accepting:
  assumes "timer_accepting s" and "request_fresh r s"
  shows "\<exists>s'. timer_add n t r s = Some (True, s') \<and> timer_accepting s' \<and>
    mset (hs_queue s') = add_mset (request_task r) (mset (hs_queue s)) \<and>
    (\<forall>q. request_task q \<noteq> request_task r \<longrightarrow> request_fresh q s \<longrightarrow> request_fresh q s')"
proof -
  obtain d i where pc: "request_pc r = A_LoadClose (request_task r) d i"
    by (cases r) (auto simp: DoAddCronTimerTask_def DoAddCycleTimerTask_def timer_add_forms)
  let ?s' = "queued n (request_task r) (prepared (request_task r) d i s)"
  have "timer_add n t r s = Some (True, ?s')"
    using assms add_returns [of s "request_task r" n t d i] by (simp add: timer_call_defs pc)
  moreover have "timer_accepting ?s'"
    using assms prepared_free [of s] by (simp add: timer_accepting_def prepared_fields)
  ultimately show ?thesis
    by (intro exI [of _ ?s']) (simp add: prepared_fields request_fresh_def prepared_other mset_push)
qed

lemma timer_shut_accepting:
  assumes "timer_accepting s"
  shows "\<exists>s'. timer_shut now n False t False s = Some s' \<and> timer_refusing s'"
  using assms handler_freeD [of s] task_free_ctor(2)
  by (auto simp: timer_call_defs sync run_numeral TimerTaskQueue_PushTask_def unlock_queue_def Let_def
      CloseableThread_AsyncClose_def)

lemma timer_shut_refusing: "timer_refusing s \<Longrightarrow> timer_shut now n sp t close s = Some s"
  by (simp add: timer_call_defs run_numeral)

lemma timer_add_refusing: "timer_refusing s \<Longrightarrow> timer_add n t r s = Some (False, s)"
  by (cases r) (simp_all add: timer_call_defs run_numeral)

interpretation timers: timer_service "timer_add n t" "timer_shut now n False t" timer_accepting timer_refusing
  request_fresh request_task "\<lambda>s. mset (hs_queue s)" for n t now
  by unfold_locales (rule timer_add_accepting timer_add_refusing timer_shut_accepting timer_shut_refusing; assumption)+

lemma timer_ctor_accepting: "timer_accepting (TimerTaskHandler_ctor\<lparr>hs_next := k\<rparr>)"
  by (auto simp: timer_accepting_def TimerTaskHandler_ctor_def TimerTaskQueue_ctor_def CloseableThread_ctor_def
      handler_free_def sync)

section \<open>The pool\<close>

definition pool_of :: "tid \<Rightarrow> nat \<Rightarrow> nat \<Rightarrow> handler_sys scheduled_pool option" where
  "pool_of t n k = ScheduledThreadPool_ctor t n (TimerTaskHandler_ctor\<lparr>hs_next := k\<rparr>)"

lemma pool_of_open:
  "\<exists>p. pool_of t n k = Some p \<and> pool_open 0 (replicate n (TimerTaskHandler_ctor\<lparr>hs_next := k\<rparr>)) p \<and>
     sc_stateGuard p = free_mutex \<and> sc_handlerGuard p = free_mutex \<and> sc_state p = Sched_RUNNING"
  by (simp add: pool_of_def ScheduledThreadPool_ctor_def ScheduledThreadPool_SetState_def MutexLocker_def
      Mutex_Lock_def MutexLocker_dtor_def Mutex_Unlock_def pool_open_def map_replicate_const)

text \<open>
  The public forms of the two adds, on a task or a null pointer.  The task is one object, whichever
  timer gets it: what an add has written to it is what every timer sees (\<open>share_task\<close>).
\<close>

definition share_task :: "nat \<Rightarrow> task_id \<Rightarrow> handler_sys scheduled_pool \<Rightarrow> handler_sys scheduled_pool" where
  "share_task i x p =
     (if i < length (sc_handlers p) then
        (case sc_handlers p ! i of
           None \<Rightarrow> p
         | Some h \<Rightarrow> p\<lparr>sc_handlers := map (map_option (with_task x (hs_store h x))) (sc_handlers p)\<rparr>)
      else p)"

definition ScheduledThreadPool_AddTask :: "nat \<Rightarrow> tid \<Rightarrow> timer_request \<Rightarrow>
    handler_sys scheduled_pool \<Rightarrow> (timer_request option \<times> handler_sys scheduled_pool) option" where
  "ScheduledThreadPool_AddTask n t r p =
     do { (res, p') \<leftarrow> ScheduledThreadPool_DoAdd (timer_add n t) (Some r) p;
          Some (res, share_task (nat (current_index p)) (request_task r) p') }"

definition ScheduledThreadPool_AddCronTimerTask :: "nat \<Rightarrow> tid \<Rightarrow> TimeValue \<Rightarrow> task_id option \<Rightarrow> TimeValue \<Rightarrow>
    handler_sys scheduled_pool \<Rightarrow> (timer_request option \<times> handler_sys scheduled_pool) option" where
  "ScheduledThreadPool_AddCronTimerTask n t now task delay_in_ms p =
     (case task of
        None \<Rightarrow> ScheduledThreadPool_DoAdd (timer_add n t) None p
      | Some x \<Rightarrow> ScheduledThreadPool_AddTask n t (CronRequest x now delay_in_ms) p)"

definition ScheduledThreadPool_AddCycleTimerTask :: "nat \<Rightarrow> tid \<Rightarrow> TimeValue \<Rightarrow> task_id option \<Rightarrow> TimeValue \<Rightarrow> bool \<Rightarrow>
    handler_sys scheduled_pool \<Rightarrow> (timer_request option \<times> handler_sys scheduled_pool) option" where
  "ScheduledThreadPool_AddCycleTimerTask n t now task period_in_ms is_run_now p =
     (case task of
        None \<Rightarrow> ScheduledThreadPool_DoAdd (timer_add n t) None p
      | Some x \<Rightarrow> ScheduledThreadPool_AddTask n t (CycleRequest x now period_in_ms is_run_now) p)"

text \<open>The deadline that a request gives its task.\<close>

fun request_deadline :: "timer_request \<Rightarrow> TimeValue" where
  "request_deadline (CronRequest task now delay) = now + delay"
| "request_deadline (CycleRequest task now period is_run_now) = (if is_run_now then now else now + period)"

lemma null_is_not_added:
  "ScheduledThreadPool_AddCronTimerTask n t now None delay p = Some (None, p)"
  "ScheduledThreadPool_AddCycleTimerTask n t now None period is_run_now p = Some (None, p)"
  by (simp_all add: ScheduledThreadPool_AddCronTimerTask_def ScheduledThreadPool_AddCycleTimerTask_def
      ScheduledThreadPool_DoAdd_def)

lemma timer_add_again:
  assumes "timer_accepting h" and "due h (request_task r) \<noteq> 0"
  shows "timer_add n t r h = Some (False, h)"
proof -
  have "handler_free h" "\<not> ct_isRequestClose (hs_thread h)" using assms(1) by (auto simp: timer_accepting_def)
  with assms(2) show ?thesis by (cases r) (simp_all add: timer_call_defs run_numeral sync handler_freeD)
qed

lemma timer_add_fresh:
  assumes "timer_accepting h" and "due h (request_task r) = 0"
  shows "\<exists>h'. timer_add n t r h = Some (True, h') \<and> timer_accepting h' \<and> due h' (request_task r) = request_deadline r"
proof -
  obtain d i where pc: "request_pc r = A_LoadClose (request_task r) d i" "d = request_deadline r"
    by (cases r) (auto simp: DoAddCronTimerTask_def DoAddCycleTimerTask_def timer_add_forms)
  let ?h' = "queued n (request_task r) (prepared (request_task r) d i h)"
  have "timer_add n t r h = Some (True, ?h')"
    using assms add_returns [of h "request_task r" n t d i] by (simp add: timer_call_defs pc)
  moreover have "timer_accepting ?h'"
    using assms prepared_free [of h] by (simp add: timer_accepting_def prepared_fields)
  moreover have "due ?h' (request_task r) = d"
    by (cases i) (simp_all add: prepared_def hs_updates)
  ultimately show ?thesis using pc(2) by auto
qed

lemma share_task_open:
  assumes "pool_open m hs p" and "i < length hs"
  shows "pool_open m (map (with_task x (hs_store (hs ! i) x)) hs) (share_task i x p)"
  using assms by (simp add: pool_open_def share_task_def)

lemma current_turn:
  assumes "pool_open m hs p" and "0 < length hs" and "length hs < 2 ^ 31" and "m < 2 ^ 64"
  shows "nat (current_index p) = m mod length hs"
  using current_index_mod [of "length hs" p m] assms by (simp add: pool_open_def)

text \<open>
  A task is added once: when the pool has taken a fresh task, with a deadline other than 0, it refuses
  the same task whatever the request and whichever timer has the next turn.
\<close>

lemma second_add_is_refused:
  assumes pool: "pool_open m hs p" and n: "0 < length hs" "length hs < 2 ^ 31" and m: "Suc m < 2 ^ 64"
    and acc: "\<forall>h \<in> set hs. timer_accepting h" and fresh: "\<forall>h \<in> set hs. due h (request_task r) = 0"
    and d: "request_deadline r \<noteq> 0" and same: "request_task q = request_task r"
  shows "\<exists>p' p''. ScheduledThreadPool_AddTask k t r p = Some (Some r, p') \<and>
    ScheduledThreadPool_AddTask k' t' q p' = Some (None, p'')"
proof -
  let ?x = "request_task r"
  define i where "i = m mod length hs"
  have i: "i < length hs" using n(1) by (simp add: i_def)
  then have "timer_accepting (hs ! i)" "due (hs ! i) ?x = 0" using acc fresh by auto
  from timer_add_fresh [OF this, of k t] obtain h' where h': "timer_add k t r (hs ! i) = Some (True, h')"
    "timer_accepting h'" "due h' ?x = request_deadline r" by blast
  from DoAdd_turn [where add = "timer_add k t" and x = r, OF pool n _ h'(1) [unfolded i_def]] m obtain p1 where
    p1: "ScheduledThreadPool_DoAdd (timer_add k t) (Some r) p = Some (Some r, p1)" "pool_open (Suc m) (hs[i := h']) p1"
    by (auto simp: i_def)
  let ?p' = "share_task i ?x p1" and ?hs' = "map (with_task ?x (hs_store h' ?x)) (hs[i := h'])"
  have add: "ScheduledThreadPool_AddTask k t r p = Some (Some r, ?p')"
    using p1(1) current_turn [OF pool n] m by (simp add: ScheduledThreadPool_AddTask_def i_def)
  have open': "pool_open (Suc m) ?hs' ?p'" using share_task_open [OF p1(2), of i ?x] i by simp
  let ?j = "Suc m mod length hs"
  have j: "?j < length hs" using n(1) by simp
  have "timer_accepting (hs[i := h'] ! ?j)" using acc h'(2) j by (cases "?j = i") simp_all
  moreover have "task_free (hs_store h' ?x)" using h'(2) by (simp add: timer_accepting_def handler_freeD)
  ultimately have "timer_accepting (?hs' ! ?j)" "due (?hs' ! ?j) (request_task q) \<noteq> 0"
    using j h'(3) d same by (simp_all add: timer_accepting_def with_task_free)
  from timer_add_again [OF this, of k' t'] have "timer_add k' t' q (?hs' ! (Suc m mod length ?hs')) = Some (False, ?hs' ! ?j)"
    by simp
  from DoAdd_turn [where add = "timer_add k' t'" and x = q, OF open' _ _ m this] n obtain p2 where
    "ScheduledThreadPool_DoAdd (timer_add k' t') (Some q) ?p' = Some (None, p2)" by auto
  with add show ?thesis by (auto simp: ScheduledThreadPool_AddTask_def)
qed

text \<open>
  The timers take turns.  In a pool of \<open>n\<close> timers, \<open>0 < n < 2^31\<close>, whose users made the tasks
  \<open>0..k-1\<close>, requests for distinct tasks are all accepted, and timer \<open>i\<close> holds exactly the tasks of
  the requests number \<open>i\<close>, \<open>i + n\<close>, \<open>i + 2n\<close>, and so on.
\<close>

theorem ScheduledThreadPool_round_robin:
  assumes "0 < n" and "n < 2 ^ 31" and "length rs < 2 ^ 64"
    and "distinct (map request_task rs)" and "\<forall>r \<in> set rs. request_task r < k"
  shows "\<exists>p p' hs. pool_of t n k = Some p \<and> add_all (timer_add m t) rs p = Some (map Some rs, p') \<and>
    sc_handlers p' = map Some hs \<and> length hs = n \<and>
    (\<forall>i < n. mset (hs_queue (hs ! i)) = mset (map request_task (nths rs {j. j mod n = i})))"
proof -
  let ?h = "TimerTaskHandler_ctor\<lparr>hs_next := k\<rparr>"
  obtain p where p: "pool_of t n k = Some p" "pool_open 0 (replicate n ?h) p" using pool_of_open by blast
  have h: "\<forall>h \<in> set (replicate n ?h). timer_accepting h \<and> (\<forall>r \<in> set rs. request_fresh r h)" "mset (hs_queue ?h) = {#}"
    using assms(5) timer_ctor_accepting
    by (auto simp: request_fresh_def TimerTaskHandler_ctor_def TimerTaskQueue_ctor_def TimerTask_ctor_def task_base.extend_def)
  from timers.round_robin [OF p(2), of rs m t] h assms(1-4) obtain p' hs where
    "add_all (timer_add m t) rs p = Some (map Some rs, p')" "pool_open (length rs) hs p'" "length hs = n"
    "\<forall>i < n. mset (hs_queue (hs ! i)) = mset (hs_queue ?h) + mset (map request_task (nths rs {j. j mod n = i}))"
    by auto
  with p(1) h(2) show ?thesis by (auto simp: pool_open_def)
qed

theorem ScheduledThreadPool_round_robin_witness:
  "\<exists>p p' hs. pool_of 7 2 3 = Some p \<and>
    add_all (timer_add 1 7) [CronRequest 0 10 5, CycleRequest 1 10 5 True, CronRequest 2 10 1] p =
      Some ([Some (CronRequest 0 10 5), Some (CycleRequest 1 10 5 True), Some (CronRequest 2 10 1)], p') \<and>
    sc_handlers p' = map Some hs \<and> mset (hs_queue (hs ! 0)) = {#0, 2#} \<and> mset (hs_queue (hs ! 1)) = {#1#}"
proof -
  let ?rs = "[CronRequest 0 10 5, CycleRequest 1 10 5 True, CronRequest 2 10 1]"
  have eq: "mset (map request_task (nths ?rs {j. j mod 2 = 0})) = {#0, 2#}"
      "mset (map request_task (nths ?rs {j. j mod 2 = 1})) = {#1#}"
    by (simp_all add: nths_Cons)
  have pre: "distinct (map request_task ?rs)" "\<forall>r \<in> set ?rs. request_task r < 3" by simp_all
  from ScheduledThreadPool_round_robin [OF _ _ _ pre, of 2 7 1] obtain p p' hs where
    r: "pool_of 7 2 3 = Some p" "add_all (timer_add 1 7) ?rs p = Some (map Some ?rs, p')" "sc_handlers p' = map Some hs"
    and each: "\<forall>i < 2. mset (hs_queue (hs ! i)) = mset (map request_task (nths ?rs {j. j mod 2 = i}))"
    by (auto simp del: add_all.simps)
  have "mset (hs_queue (hs ! 0)) = {#0, 2#}" "mset (hs_queue (hs ! 1)) = {#1#}"
    using each [rule_format, of 0] each [rule_format, of 1] eq by simp_all
  with r show ?thesis by (auto simp del: add_all.simps)
qed

text \<open>
  \<open>ShutDown\<close> of an open pool returns with the pool in state \<open>SHUTDOWN\<close>; from then on every add
  returns null, another \<open>ShutDown\<close> and \<open>ShutDownNow\<close> change nothing, and \<open>IsShutDown\<close> is true.
\<close>

theorem ScheduledThreadPool_ShutDown_closes:
  assumes "pool_open m hs p" and "\<forall>h \<in> set hs. timer_accepting h"
    and "sc_stateGuard p = free_mutex" and "sc_handlerGuard p = free_mutex"
  shows "\<exists>p' hs'. ScheduledThreadPool_ShutDown t False (timer_shut now k False t) p = Some p' \<and>
    sc_handlers p' = map Some hs' \<and> (\<forall>h \<in> set hs'. timer_refusing h) \<and>
    ScheduledThreadPool_IsShutDown t p' = Some (True, p') \<and>
    (\<forall>add task. ScheduledThreadPool_DoAdd (add :: timer_request \<Rightarrow> _) task p' = Some (None, p')) \<and>
    (\<forall>sp shut. ScheduledThreadPool_ShutDown t sp shut p' = Some p' \<and> ScheduledThreadPool_ShutDownNow t sp shut p' = Some p')"
proof -
  from timers.shut_handlers_all [OF assms(2), of free_mutex t now k t] obtain hs' where
    "shut_handlers t (timer_shut now k False t False) free_mutex (map Some hs) = Some (free_mutex, map Some hs')"
    "\<forall>h \<in> set hs'. timer_refusing h" by auto
  with assms(1,3,4) show ?thesis
    by (simp add: ScheduledThreadPool_ShutDown_def ScheduledThreadPool_ShutDownNow_def ScheduledThreadPool_ShutDownHelper_def
        ScheduledThreadPool_SetState_def ScheduledThreadPool_IsShutDown_def ScheduledThreadPool_DoIsShutDown_def
        ScheduledThreadPool_DoAdd_def MutexLocker_free pool_open_def MutexLocker_dtor_def Mutex_Unlock_def
        compare_exchange_weak_def Let_def)
qed

theorem ScheduledThreadPool_ShutDown_closes_witness:
  "\<exists>p p' hs'. pool_of 7 4 0 = Some p \<and> ScheduledThreadPool_ShutDown 7 False (timer_shut 50 1 False 7) p = Some p' \<and>
    sc_handlers p' = map Some hs' \<and> (\<forall>h \<in> set hs'. timer_refusing h)"
proof -
  obtain p where p: "pool_of 7 4 0 = Some p" "pool_open 0 (replicate 4 (TimerTaskHandler_ctor\<lparr>hs_next := 0\<rparr>)) p"
      "sc_stateGuard p = free_mutex" "sc_handlerGuard p = free_mutex" using pool_of_open by blast
  have "\<forall>h \<in> set (replicate 4 (TimerTaskHandler_ctor\<lparr>hs_next := 0\<rparr>)). timer_accepting h"
    using timer_ctor_accepting by simp
  from ScheduledThreadPool_ShutDown_closes [OF p(2) this p(3,4), of 7 50 1] p(1) show ?thesis by blast
qed

section \<open>Defects\<close>

text \<open>A pool of no timers divides by zero on the first add, whatever the timers do.\<close>

lemma empty_scheduled_pool_divides_by_zero:
  "\<exists>p. pool_of t 0 k = Some p \<and> (\<forall>r. ScheduledThreadPool_DoAdd add (Some r) p = None)"
  by (simp add: pool_of_def ScheduledThreadPool_ctor_def ScheduledThreadPool_SetState_def MutexLocker_def
      Mutex_Lock_def ScheduledThreadPool_DoAdd_def ScheduledThreadPool_GetThreadNum_def)

end
