(* ===== verification/WorkerThread.thy ===== *)
theory WorkerThread
  imports BlockingQueue CloseableThread
begin

text \<open>
  Tasks of the scaling and fixed pools (\<open>EndTask\<close>, \<open>FunctorTask\<close>) and the thread that runs them:
  \<open>include/empool/WorkerThread.h\<close>, \<open>src/WorkerThread.cpp\<close>.  The worker's loop is modelled inside
  its \<open>CloseableThread\<close>; the judge action and the finish action are callbacks of the pool, so their
  actions belong to the pool's machine (theory \<open>ScalingThreadPool\<close>).
\<close>

section \<open>Tasks\<close>

datatype 'f pool_task = EndTask | FunctorTask (task_functor: 'f)

definition MakeFunctorTask :: "'f \<Rightarrow> 'f pool_task" where
  "MakeFunctorTask f = FunctorTask f"

text \<open>\<open>DoRun\<close>: the functors that the call executes.\<close>

fun DoRun :: "'f pool_task \<Rightarrow> 'f list" where
  "DoRun EndTask = []"
| "DoRun (FunctorTask f) = [f]"

section \<open>The worker\<close>

record 'f worker_thread =
  wt_runningTask :: "'f pool_task option"
  wt_thread :: closeable_thread

definition WorkerThread_Init :: "mutex \<Rightarrow> 'f worker_thread" where
  "WorkerThread_Init m = \<lparr>wt_runningTask = None, wt_thread = CloseableThread_ctor m\<rparr>"

definition WorkerThread_AsyncClose :: "bool \<Rightarrow> 'f worker_thread \<Rightarrow> 'f worker_thread" where
  "WorkerThread_AsyncClose spurious w = w\<lparr>wt_thread := CloseableThread_AsyncClose spurious (wt_thread w)\<rparr>"

text \<open>
  \<open>GetTask(task, wait_in_ms)\<close> returns the negation of what \<open>PopTimeWait\<close> returns; the second
  definition is the end of an expired wait.
\<close>

definition WorkerThread_GetTask :: "tid \<Rightarrow> 'f pool_task BlockingTaskQueue \<Rightarrow> 'f worker_thread \<Rightarrow>
    (bool attempt \<times> 'f pool_task BlockingTaskQueue \<times> 'f worker_thread) option" where
  "WorkerThread_GetTask t q w =
     do { (res, q') \<leftarrow> BlockingTaskQueue_PopTimeWait t q;
          Some (case res of
                  Slept \<Rightarrow> (Slept, q', w)
                | Returned None \<Rightarrow> (Returned True, q', w)
                | Returned (Some task) \<Rightarrow> (Returned False, q', w\<lparr>wt_runningTask := Some task\<rparr>)) }"

definition WorkerThread_GetTask_expired :: "tid \<Rightarrow> 'f pool_task BlockingTaskQueue \<Rightarrow>
    (bool attempt \<times> 'f pool_task BlockingTaskQueue) option" where
  "WorkerThread_GetTask_expired t q =
     do { (res, q') \<leftarrow> BlockingQueue_PopTimeWait_expired t q;
          Some (case res of Slept \<Rightarrow> Slept | Returned x \<Rightarrow> Returned (x = None), q') }"

text \<open>\<open>GetTask()\<close> waits without a limit; nothing calls it.\<close>

definition WorkerThread_GetTask_blocking :: "tid \<Rightarrow> 'f pool_task BlockingTaskQueue \<Rightarrow> 'f worker_thread \<Rightarrow>
    (unit attempt \<times> 'f pool_task BlockingTaskQueue \<times> 'f worker_thread) option" where
  "WorkerThread_GetTask_blocking t q w =
     do { (res, q') \<leftarrow> BlockingTaskQueue_Pop t q;
          Some (case res of
                  Slept \<Rightarrow> (Slept, q', w)
                | Returned task \<Rightarrow> (Returned (), q', w\<lparr>wt_runningTask := Some task\<rparr>)) }"

definition WorkerThread_Close :: "close_ev \<Rightarrow> tid \<Rightarrow> close_pc \<Rightarrow> 'f worker_thread \<Rightarrow> (close_pc \<times> 'f worker_thread) option" where
  "WorkerThread_Close e t k w =
     map_option (\<lambda>(k', ct). (k', w\<lparr>wt_thread := ct\<rparr>)) (CloseableThread_Close e t k (wt_thread w))"

definition WorkerThread_ProcessError :: "string \<Rightarrow> string list" where
  "WorkerThread_ProcessError e_what = [''WorkerThread ctor'', e_what, ''Try again.'']"

text \<open>
  Program counters of a worker's thread: \<open>W_Start\<close>, \<open>W_Check0\<close>, \<open>W_Finish\<close>, \<open>W_SetFinished\<close>,
  \<open>W_NotifyClosed\<close> belong to \<open>CloseableThread::ThreadFunction\<close>, the others to \<open>WorkFunction\<close>;
  \<open>W_Finish k\<close> is inside the finish action.  \<open>W_Threw\<close>: a task threw an exception that is not a
  cancellation, which ends the thread in \<open>Thread::ThreadFunction\<close>.
\<close>

datatype 'k worker_pc = W_Start | W_Check0 | W_Check | W_Get | W_GetExpired | W_Judge | W_AsyncClose
  | W_Recheck | W_Run | W_Finish 'k | W_SetFinished | W_NotifyClosed | W_Done | W_Threw

definition check_func :: "'k \<Rightarrow> 'k worker_pc \<Rightarrow> 'f worker_thread \<Rightarrow> 'k worker_pc" where
  "check_func fin next w = (case CheckIsRequestClose (wt_thread w) of Inl _ \<Rightarrow> W_Finish fin | Inr _ \<Rightarrow> next)"

text \<open>What the loop does with the task it has just fetched.\<close>

definition dispatch :: "'k \<Rightarrow> 'f worker_thread \<Rightarrow> 'k worker_pc" where
  "dispatch fin w =
     (case wt_runningTask w of None \<Rightarrow> W_Check | Some EndTask \<Rightarrow> W_Finish fin | Some (FunctorTask f) \<Rightarrow> W_Run)"

text \<open>
  One action of the thread between its start and the finish action.  \<open>judge\<close> is the value of
  \<open>m_judge()\<close>, \<open>spurious\<close> the failure of the weak exchange in \<open>AsyncClose\<close>.
\<close>

fun WorkerThread_WorkFunction :: "'k \<Rightarrow> bool \<Rightarrow> bool \<Rightarrow> tid \<Rightarrow> 'k worker_pc \<Rightarrow> 'f pool_task BlockingTaskQueue \<Rightarrow>
    'f worker_thread \<Rightarrow> ('k worker_pc \<times> 'f pool_task BlockingTaskQueue \<times> 'f worker_thread) option" where
  "WorkerThread_WorkFunction fin judge spurious t W_Check q w = Some (check_func fin W_Get w, q, w)"
| "WorkerThread_WorkFunction fin judge spurious t W_Get q w =
     do { (res, q', w') \<leftarrow> WorkerThread_GetTask t q w;
          Some (case res of Slept \<Rightarrow> W_Get | Returned timeout \<Rightarrow> if timeout then W_Judge else dispatch fin w', q', w') }"
| "WorkerThread_WorkFunction fin judge spurious t W_GetExpired q w =
     do { (res, q') \<leftarrow> WorkerThread_GetTask_expired t q;
          Some (case res of Slept \<Rightarrow> W_Get | Returned timeout \<Rightarrow> if timeout then W_Judge else dispatch fin w, q', w) }"
| "WorkerThread_WorkFunction fin judge spurious t W_Judge q w = Some (if judge then W_AsyncClose else W_Check, q, w)"
| "WorkerThread_WorkFunction fin judge spurious t W_AsyncClose q w =
     Some (W_Recheck, q, WorkerThread_AsyncClose spurious w)"
| "WorkerThread_WorkFunction fin judge spurious t W_Recheck q w = Some (check_func fin W_Check w, q, w)"
| "WorkerThread_WorkFunction fin judge spurious t W_Run q w = Some (W_Check, q, w)"
| "WorkerThread_WorkFunction _ _ _ _ _ _ _ = None"

text \<open>The parts of \<open>CloseableThread::ThreadFunction\<close> around the work function and the finish action.\<close>

fun WorkerThread_thread :: "'k \<Rightarrow> tid \<Rightarrow> 'k worker_pc \<Rightarrow> 'f worker_thread \<Rightarrow>
    ('k worker_pc \<times> 'f worker_thread) option" where
  "WorkerThread_thread fin t W_Start w =
     Some (W_Check0, w\<lparr>wt_thread := CloseableThread_SetState Thread_RUNNING (wt_thread w)\<rparr>)"
| "WorkerThread_thread fin t W_Check0 w = Some (check_func fin W_Check w, w)"
| "WorkerThread_thread fin t W_SetFinished w =
     Some (W_NotifyClosed, w\<lparr>wt_thread := CloseableThread_SetState Thread_FINISHED (wt_thread w)\<rparr>)"
| "WorkerThread_thread fin t W_NotifyClosed w =
     do { ct \<leftarrow> CloseableThread_NotifyFinished_notify t (wt_thread w); Some (W_Done, w\<lparr>wt_thread := ct\<rparr>) }"
| "WorkerThread_thread _ _ _ _ = None"

section \<open>The effect of one action\<close>

definition worker_free :: "'f worker_thread \<Rightarrow> bool" where
  "worker_free w \<longleftrightarrow> cv_free (ct_stateGuard (wt_thread w))"

abbreviation worker_closed :: "'f worker_thread \<Rightarrow> bool" where
  "worker_closed w \<equiv> ct_isRequestClose (wt_thread w)"

text \<open>\<open>work_move t q w k k' q' w'\<close>: an action of the thread changes queue and worker like this.\<close>

inductive work_move :: "'k \<Rightarrow> tid \<Rightarrow> 'f pool_task BlockingTaskQueue \<Rightarrow> 'f worker_thread \<Rightarrow> 'k worker_pc \<Rightarrow>
    'k worker_pc \<Rightarrow> 'f pool_task BlockingTaskQueue \<Rightarrow> 'f worker_thread \<Rightarrow> bool"
  for fin :: 'k and t :: tid and q :: "'f pool_task BlockingTaskQueue" and w :: "'f worker_thread" where
  check: "\<not> worker_closed w \<Longrightarrow> (k, k') \<in> {(W_Check0, W_Check), (W_Check, W_Get), (W_Recheck, W_Check)} \<Longrightarrow>
    work_move fin t q w k k' q w"
| check_closed: "worker_closed w \<Longrightarrow> k \<in> {W_Check0, W_Check, W_Recheck} \<Longrightarrow> work_move fin t q w k (W_Finish fin) q w"
| sleep: "bq_queue q = [] \<Longrightarrow> work_move fin t q w W_Get W_Get
    (q\<lparr>bq_mutexCond := (bq_mutexCond q)\<lparr>m_cond := m_cond (bq_mutexCond q) @ [t]\<rparr>\<rparr>) w"
| fetch_end: "bq_queue q = EndTask # xs \<Longrightarrow> work_move fin t q w W_Get (W_Finish fin) (q\<lparr>bq_queue := xs\<rparr>)
    (w\<lparr>wt_runningTask := Some EndTask\<rparr>)"
| fetch: "bq_queue q = FunctorTask f # xs \<Longrightarrow> work_move fin t q w W_Get W_Run (q\<lparr>bq_queue := xs\<rparr>)
    (w\<lparr>wt_runningTask := Some (FunctorTask f)\<rparr>)"
| expired: "work_move fin t q w W_GetExpired W_Judge q w"
| judged: "k' \<in> {W_AsyncClose, W_Check} \<Longrightarrow> work_move fin t q w W_Judge k' q w"
| async_close: "work_move fin t q w W_AsyncClose W_Recheck q (w\<lparr>wt_thread := (wt_thread w)\<lparr>ct_isRequestClose := True\<rparr>\<rparr>)"
| async_close_failed: "work_move fin t q w W_AsyncClose W_Recheck q w"
| run: "work_move fin t q w W_Run W_Check q w"

lemmas worker_op_defs = check_func_def CheckIsRequestClose_def WorkerThread_AsyncClose_def CloseableThread_AsyncClose_def
  WorkerThread_GetTask_def WorkerThread_GetTask_expired_def dispatch_def BlockingTaskQueue_defs

lemma work_act_move:
  assumes "WorkerThread_WorkFunction fin judge sp t k q w = Some (k', q', w')" and "cv_free (bq_mutexCond q)"
  shows "work_move fin t q w k k' q' w'"
  using assms
  by (cases k; cases sp)
     (auto simp: worker_op_defs compare_exchange_weak_def sync intro: work_move.intros
        split: if_splits list.splits pool_task.splits)

text \<open>Every action of the loop is enabled.\<close>

lemma work_enabled:
  assumes "cv_free (bq_mutexCond q)"
    and "k \<in> {W_Check, W_Get, W_GetExpired, W_Judge, W_AsyncClose, W_Recheck, W_Run}"
  shows "\<exists>r. WorkerThread_WorkFunction fin judge sp t k q w = Some r"
  using assms by (auto simp: worker_op_defs sync split: list.splits)

lemma thread_act:
  assumes "worker_free w"
  shows "WorkerThread_thread fin t W_Start w = Some (W_Check0, w\<lparr>wt_thread := (wt_thread w)\<lparr>ct_state := Thread_RUNNING\<rparr>\<rparr>)"
    and "WorkerThread_thread fin t W_Check0 w = Some (if worker_closed w then W_Finish fin else W_Check, w)"
    and "WorkerThread_thread fin t W_SetFinished w =
      Some (W_NotifyClosed, w\<lparr>wt_thread := (wt_thread w)\<lparr>ct_state := Thread_FINISHED\<rparr>\<rparr>)"
    and "WorkerThread_thread fin t W_NotifyClosed w = Some (W_Done, if worker_closed w
      then w\<lparr>wt_thread := (wt_thread w)\<lparr>ct_stateGuard := CV_NotifyAll (ct_stateGuard (wt_thread w))\<rparr>\<rparr> else w)"
  using assms
  by (auto simp: worker_free_def worker_op_defs CloseableThread_SetState_def CloseableThread_NotifyFinished_notify_def
      CloseableThread_IsRequestClose_def sync)

end
