(* ===== verification/ScalingThreadPool.thy ===== *)
theory ScalingThreadPool
  imports WorkerThread
begin

text \<open>
  The pool whose number of threads changes: \<open>include/empool/ScalingThreadPool.h\<close>,
  \<open>src/ScalingThreadPool.cpp\<close>.  Worker threads take tasks from a \<open>BlockingTaskQueue\<close>; a worker that
  has waited too long leaves while the pool is larger than its core size; a monitor thread adds
  workers while the queue is long and removes (and joins) the ones that left.  Any number of threads
  add tasks and shut the pool down.
\<close>

section \<open>State\<close>

definition TASK_QUEUE_SIZE_THRESHOLD :: nat where
  "TASK_QUEUE_SIZE_THRESHOLD = 1024"

datatype scaling_state = Scaling_INIT | Scaling_RUNNING | Scaling_STOP | Scaling_SHUTDOWN

text \<open>The states in the order of the enumeration, which is that of the life of a pool.\<close>

fun state_rank :: "scaling_state \<Rightarrow> nat" where
  "state_rank Scaling_INIT = 0" | "state_rank Scaling_RUNNING = 1"
| "state_rank Scaling_STOP = 2" | "state_rank Scaling_SHUTDOWN = 3"

instantiation scaling_state :: linorder
begin

definition less_eq_scaling_state :: "scaling_state \<Rightarrow> scaling_state \<Rightarrow> bool" where
  "less_eq_scaling_state a b \<longleftrightarrow> state_rank a \<le> state_rank b"

definition less_scaling_state :: "scaling_state \<Rightarrow> scaling_state \<Rightarrow> bool" where
  "less_scaling_state a b \<longleftrightarrow> state_rank a < state_rank b"

instance
proof
  fix a b c :: scaling_state
  show "a < b \<longleftrightarrow> a \<le> b \<and> \<not> b \<le> a" by (auto simp: less_eq_scaling_state_def less_scaling_state_def)
  show "a \<le> a" "a \<le> b \<Longrightarrow> b \<le> c \<Longrightarrow> a \<le> c" "a \<le> b \<or> b \<le> a" by (auto simp: less_eq_scaling_state_def)
  show "a \<le> b \<Longrightarrow> b \<le> a \<Longrightarrow> a = b" by (cases a; cases b) (auto simp: less_eq_scaling_state_def)
qed

end

lemma scaling_state_le [simp]: "s \<le> Scaling_SHUTDOWN" "s \<le> Scaling_STOP \<longleftrightarrow> s \<noteq> Scaling_SHUTDOWN"
  by (cases s; simp add: less_eq_scaling_state_def)+

text \<open>
  The members of the pool.  \<open>m_threads\<close> is its set of keys \<open>sl_threads\<close> and the workers they are
  bound to; \<open>m_mutex\<close> is the mutex of \<open>sl_stateGuard\<close> and \<open>m_addOrSubThreadNumGuard\<close> that of
  \<open>sl_addOrSub\<close>.
\<close>

record 'f scaling_pool =
  sl_state :: scaling_state
  sl_corePoolSize :: nat
  sl_maxThreadSize :: nat
  sl_stoppedThreadNum :: nat
  sl_isRequestShutDown :: bool
  sl_stoppedThreadNumGuard :: mutex
  sl_stateGuard :: condition_variable
  sl_addOrSub :: condition_variable
  sl_taskQueue :: "'f pool_task BlockingTaskQueue"
  sl_threads :: "tid list"
  sl_workers :: "tid \<Rightarrow> 'f worker_thread"
  sl_subWorkerThreadId :: "tid list"
  sl_monitorThread :: closeable_thread

abbreviation new_mutex :: mutex where
  "new_mutex \<equiv> \<lparr>m_isInit = True, m_owner = None\<rparr>"

definition ScalingThreadPool_AddWorkerThread :: "tid \<Rightarrow> 'f scaling_pool \<Rightarrow> 'f scaling_pool" where
  "ScalingThreadPool_AddWorkerThread newId p =
     p\<lparr>sl_threads := sl_threads p @ [newId], sl_workers := (sl_workers p)(newId := WorkerThread_Init new_mutex)\<rparr>"

definition ScalingThreadPool_SetState :: "tid \<Rightarrow> scaling_state \<Rightarrow> 'f scaling_pool \<Rightarrow> 'f scaling_pool option" where
  "ScalingThreadPool_SetState t st p =
     do { c \<leftarrow> CV_Scope t (sl_stateGuard p); Some (p\<lparr>sl_state := st, sl_stateGuard := c\<rparr>) }"

text \<open>The system gives the \<open>i\<close>th worker thread this identifier; 0 is the monitor's.\<close>

definition worker_tid :: "nat \<Rightarrow> tid" where
  "worker_tid i = 2 * i + 1"

definition ScalingThreadPool_ctor :: "nat \<Rightarrow> nat \<Rightarrow> 'f scaling_pool" where
  "ScalingThreadPool_ctor minThreadSize maxThreadSize =
     (fold ScalingThreadPool_AddWorkerThread (map worker_tid [0..<minThreadSize])
       \<lparr>sl_state = Scaling_INIT, sl_corePoolSize = minThreadSize, sl_maxThreadSize = maxThreadSize,
        sl_stoppedThreadNum = 0, sl_isRequestShutDown = False, sl_stoppedThreadNumGuard = new_mutex,
        sl_stateGuard = ConditionVariable_ctor new_mutex, sl_addOrSub = ConditionVariable_ctor new_mutex,
        sl_taskQueue = BlockingQueue_ctor new_mutex [], sl_threads = [],
        sl_workers = (\<lambda>_. WorkerThread_Init new_mutex), sl_subWorkerThreadId = [],
        sl_monitorThread = CloseableThread_ctor new_mutex\<rparr>)\<lparr>sl_state := Scaling_RUNNING\<rparr>"

definition ScalingThreadPool_DoIsShutDown :: "'f scaling_pool \<Rightarrow> bool" where
  "ScalingThreadPool_DoIsShutDown p \<longleftrightarrow> sl_state p = Scaling_SHUTDOWN"

definition ScalingThreadPool_IsShutDown :: "tid \<Rightarrow> 'f scaling_pool \<Rightarrow> (bool \<times> 'f scaling_pool) option" where
  "ScalingThreadPool_IsShutDown t p =
     do { c \<leftarrow> CV_Scope t (sl_stateGuard p);
          Some (ScalingThreadPool_DoIsShutDown p, p\<lparr>sl_stateGuard := c\<rparr>) }"

definition ScalingThreadPool_CheckIsRequestShutDown :: "'f scaling_pool \<Rightarrow> bool" where
  "ScalingThreadPool_CheckIsRequestShutDown p = sl_isRequestShutDown p"

definition ScalingThreadPool_GetThreadNum :: "tid \<Rightarrow> 'f scaling_pool \<Rightarrow> (nat \<times> 'f scaling_pool) option" where
  "ScalingThreadPool_GetThreadNum t p =
     do { c \<leftarrow> CV_Scope t (sl_addOrSub p); Some (length (sl_threads p), p\<lparr>sl_addOrSub := c\<rparr>) }"

definition ScalingThreadPool_GetCorePoolSize :: "'f scaling_pool \<Rightarrow> nat" where
  "ScalingThreadPool_GetCorePoolSize p = sl_corePoolSize p"

definition ScalingThreadPool_IfMoreThan :: "tid \<Rightarrow> 'f scaling_pool \<Rightarrow> (bool \<times> 'f scaling_pool) option" where
  "ScalingThreadPool_IfMoreThan t p =
     do { (n, p') \<leftarrow> ScalingThreadPool_GetThreadNum t p; Some (n > sl_corePoolSize p', p') }"

definition ScalingThreadPool_AddWorkerThreadIdToSubVector :: "tid \<Rightarrow> tid \<Rightarrow> 'f scaling_pool \<Rightarrow>
    'f scaling_pool option" where
  "ScalingThreadPool_AddWorkerThreadIdToSubVector t threadId p =
     do { c \<leftarrow> CV_Scope t (sl_addOrSub p);
          Some (p\<lparr>sl_addOrSub := c, sl_subWorkerThreadId := sl_subWorkerThreadId p @ [threadId]\<rparr>) }"

definition queue_long :: "tid \<Rightarrow> 'f scaling_pool \<Rightarrow> (bool \<times> 'f scaling_pool) option" where
  "queue_long t p =
     do { (n, q) \<leftarrow> BlockingTaskQueue_Size t (sl_taskQueue p);
          Some (n > TASK_QUEUE_SIZE_THRESHOLD \<and> length (sl_threads p) < sl_maxThreadSize p, p\<lparr>sl_taskQueue := q\<rparr>) }"

definition ScalingThreadPool_JudgeFunc :: "tid \<Rightarrow> 'f scaling_pool \<Rightarrow> (bool \<times> 'f scaling_pool) option" where
  "ScalingThreadPool_JudgeFunc t p =
     do { (long_queue, p') \<leftarrow> queue_long t p; Some (long_queue \<or> sl_subWorkerThreadId p' \<noteq> [], p') }"

definition ScalingThreadPool_ContraryJudgeFunc :: "tid \<Rightarrow> 'f scaling_pool \<Rightarrow> (bool \<times> 'f scaling_pool) option" where
  "ScalingThreadPool_ContraryJudgeFunc t p =
     do { (b, p') \<leftarrow> ScalingThreadPool_JudgeFunc t p; Some (\<not> b, p') }"

text \<open>\<open>ConditionNotifyLocker cond(m_addOrSubThreadCond, JudgeFunc)\<close> and the end of its scope.\<close>

definition notify_monitor :: "tid \<Rightarrow> nat \<Rightarrow> 'f scaling_pool \<Rightarrow> 'f scaling_pool option" where
  "notify_monitor t n p =
     do { (b, p') \<leftarrow> ScalingThreadPool_JudgeFunc t p;
          l \<leftarrow> ConditionNotifyLocker t n b (sl_addOrSub p');
          Some (p'\<lparr>sl_addOrSub := ConditionNotifyLocker_dtor l\<rparr>) }"

section \<open>The machine\<close>

text \<open>
  Thread 0 is the monitor, odd threads are the workers, the others are clients.  \<open>S\<close>-prefixed
  program counters are those of the finish action \<open>NotifyWhenThreadsStop\<close>.  A monitor in \<open>M_Inside\<close>,
  \<open>M_Add\<close> or \<open>M_Sub ids\<close> holds \<open>m_addOrSubThreadNumGuard\<close>; \<open>ids\<close> is the rest of \<open>m_subWorkerThreadId\<close>.
  A client in \<open>U_CloseEach\<close> or \<open>U_PushEnds\<close> holds it too.
\<close>

datatype stop_pc = S_Stop | S_PushSub | S_NotifySub | S_Count | S_Compare nat | S_SetShut | S_NotifyShut

datatype monitor_pc = M_Start | M_Check0 | M_Check | M_Wait | M_Expired | M_Inside | M_Add | M_Sub "tid list"
  | M_SetFinished | M_NotifyClosed | M_Done

datatype 'f client_pc = U_Idle | U_Load "'f pool_task option" | U_Push "'f pool_task" | U_NotifyAdd | U_Added bool
  | U_ShutDown bool | U_SetStop bool | U_Lock bool | U_CloseEach bool "tid list" | U_PushEnds bool nat
  | U_CloseMonitor bool | U_PushSub0 bool | U_NotifySub0 bool | U_WaitShut | U_ShutReturned bool

datatype 'f scaling_pc = Monitor monitor_pc | Worker "stop_pc worker_pc" | Client "'f client_pc"

text \<open>
  \<open>sy_spawned\<close> lists the worker threads that were created, \<open>sy_returned\<close> those whose thread function
  has returned (what \<open>pthread_join\<close> waits for); \<open>sy_pushed\<close>, \<open>sy_popped\<close>, \<open>sy_ran\<close> are logs.
\<close>

record 'f scaling_sys =
  sy_pool :: "'f scaling_pool"
  sy_spawned :: "tid list"
  sy_returned :: "tid list"
  sy_pushed :: "'f pool_task list"
  sy_popped :: "'f pool_task list"
  sy_ran :: "'f list"

fun ScalingThreadPool_NotifyWhenThreadsStop :: "nat \<Rightarrow> tid \<Rightarrow> stop_pc \<Rightarrow> 'f scaling_pool \<Rightarrow>
    (stop_pc worker_pc \<times> 'f scaling_pool) option" where
  "ScalingThreadPool_NotifyWhenThreadsStop n t S_Stop p =
     Some (W_Finish (if sl_isRequestShutDown p then S_Count else S_PushSub), p)"
| "ScalingThreadPool_NotifyWhenThreadsStop n t S_PushSub p =
     do { p' \<leftarrow> ScalingThreadPool_AddWorkerThreadIdToSubVector t t p; Some (W_Finish S_NotifySub, p') }"
| "ScalingThreadPool_NotifyWhenThreadsStop n t S_NotifySub p =
     do { p' \<leftarrow> notify_monitor t n p; Some (W_SetFinished, p') }"
| "ScalingThreadPool_NotifyWhenThreadsStop n t S_Count p =
     do { m \<leftarrow> MutexLocker t (sl_stoppedThreadNumGuard p);
          let stoppedThreadNum = Suc (sl_stoppedThreadNum p);
          Some (W_Finish (S_Compare stoppedThreadNum),
                p\<lparr>sl_stoppedThreadNum := stoppedThreadNum, sl_stoppedThreadNumGuard := MutexLocker_dtor m\<rparr>) }"
| "ScalingThreadPool_NotifyWhenThreadsStop n t (S_Compare stoppedThreadNum) p =
     Some (if stoppedThreadNum \<ge> length (sl_threads p) then W_Finish S_SetShut else W_SetFinished, p)"
| "ScalingThreadPool_NotifyWhenThreadsStop n t S_SetShut p =
     do { p' \<leftarrow> ScalingThreadPool_SetState t Scaling_SHUTDOWN p; Some (W_Finish S_NotifyShut, p') }"
| "ScalingThreadPool_NotifyWhenThreadsStop n t S_NotifyShut p =
     do { l \<leftarrow> ConditionNotifyAllLocker t (ScalingThreadPool_CheckIsRequestShutDown p) (sl_stateGuard p);
          Some (W_SetFinished, p\<lparr>sl_stateGuard := ConditionNotifyAllLocker_dtor l\<rparr>) }"

text \<open>
  \<open>SubWorkerThread\<close>: erasing an entry destroys the worker, whose \<open>Thread\<close> joins: the action is not
  enabled before that thread has returned.
\<close>

definition ScalingThreadPool_SubWorkerThread :: "tid \<Rightarrow> 'f scaling_sys \<Rightarrow> (bool \<times> 'f scaling_sys) option" where
  "ScalingThreadPool_SubWorkerThread threadId s =
     (if threadId \<in> set (sl_threads (sy_pool s))
      then (if threadId \<in> set (sy_returned s)
            then Some (True, s\<lparr>sy_pool := (sy_pool s)\<lparr>sl_threads := remove1 threadId (sl_threads (sy_pool s))\<rparr>\<rparr>)
            else None)
      else Some (False, s))"

definition spawn_worker :: "'f scaling_sys \<Rightarrow> 'f scaling_sys" where
  "spawn_worker s = (let newId = worker_tid (length (sy_spawned s)) in
     s\<lparr>sy_pool := ScalingThreadPool_AddWorkerThread newId (sy_pool s), sy_spawned := sy_spawned s @ [newId]\<rparr>)"

abbreviation upd_sl :: "('f scaling_pool \<Rightarrow> 'f scaling_pool) \<Rightarrow> 'f scaling_sys \<Rightarrow> 'f scaling_sys" where
  "upd_sl f s \<equiv> s\<lparr>sy_pool := f (sy_pool s)\<rparr>"

definition monitor_check :: "monitor_pc \<Rightarrow> 'f scaling_pool \<Rightarrow> monitor_pc" where
  "monitor_check next p = (case CheckIsRequestClose (sl_monitorThread p) of Inl _ \<Rightarrow> M_SetFinished | Inr _ \<Rightarrow> next)"

definition unlock_addOrSub :: "'f scaling_pool \<Rightarrow> 'f scaling_pool" where
  "unlock_addOrSub p = p\<lparr>sl_addOrSub := ConditionWaitLocker_dtor (sl_addOrSub p)\<rparr>"

fun ScalingThreadPool_HandleWorkerThread :: "tid \<Rightarrow> monitor_pc \<Rightarrow> 'f scaling_sys \<Rightarrow>
    (monitor_pc \<times> 'f scaling_sys) option" where
  "ScalingThreadPool_HandleWorkerThread t M_Check s = Some (monitor_check M_Wait (sy_pool s), s)"
| "ScalingThreadPool_HandleWorkerThread t M_Wait s =
     do { (b, p) \<leftarrow> ScalingThreadPool_ContraryJudgeFunc t (sy_pool s);
          (slept, l) \<leftarrow> ConditionWaitLocker_TimeWait t b (sl_addOrSub p);
          Some (if slept then M_Wait else M_Inside, s\<lparr>sy_pool := p\<lparr>sl_addOrSub := l\<rparr>\<rparr>) }"
| "ScalingThreadPool_HandleWorkerThread t M_Expired s =
     do { l \<leftarrow> ConditionWaitLocker_TimeWait_expired t (sl_addOrSub (sy_pool s));
          Some (M_Inside, upd_sl (\<lambda>p. p\<lparr>sl_addOrSub := l\<rparr>) s) }"
| "ScalingThreadPool_HandleWorkerThread t M_Inside s =
     Some (case CheckIsRequestClose (sl_monitorThread (sy_pool s)) of
             Inl _ \<Rightarrow> (M_SetFinished, upd_sl unlock_addOrSub s) | Inr _ \<Rightarrow> (M_Add, s))"
| "ScalingThreadPool_HandleWorkerThread t M_Add s =
     do { (b, p) \<leftarrow> queue_long t (sy_pool s);
          let s' = s\<lparr>sy_pool := p\<rparr>;
          Some (M_Sub (sl_subWorkerThreadId p), if b then spawn_worker s' else s') }"
| "ScalingThreadPool_HandleWorkerThread t (M_Sub ids) s =
     (case ids of
        [] \<Rightarrow> Some (M_Check, upd_sl (\<lambda>p. unlock_addOrSub (p\<lparr>sl_subWorkerThreadId := []\<rparr>)) s)
      | threadId # rest \<Rightarrow>
          do { (found, s') \<leftarrow> ScalingThreadPool_SubWorkerThread threadId s; Some (M_Sub rest, s') })"
| "ScalingThreadPool_HandleWorkerThread _ _ _ = None"

fun monitor_thread :: "tid \<Rightarrow> monitor_pc \<Rightarrow> 'f scaling_pool \<Rightarrow> (monitor_pc \<times> 'f scaling_pool) option" where
  "monitor_thread t M_Start p =
     Some (M_Check0, p\<lparr>sl_monitorThread := CloseableThread_SetState Thread_RUNNING (sl_monitorThread p)\<rparr>)"
| "monitor_thread t M_Check0 p = Some (monitor_check M_Check p, p)"
| "monitor_thread t M_SetFinished p =
     Some (M_NotifyClosed, p\<lparr>sl_monitorThread := CloseableThread_SetState Thread_FINISHED (sl_monitorThread p)\<rparr>)"
| "monitor_thread t M_NotifyClosed p =
     do { ct \<leftarrow> CloseableThread_NotifyFinished_notify t (sl_monitorThread p);
          Some (M_Done, p\<lparr>sl_monitorThread := ct\<rparr>) }"
| "monitor_thread _ _ _ = None"

text \<open>\<open>U_Load None\<close> is a call of \<open>AddTask\<close> with a null pointer.\<close>

fun ScalingThreadPool_DoAddTask :: "nat \<Rightarrow> tid \<Rightarrow> 'f client_pc \<Rightarrow> 'f scaling_sys \<Rightarrow>
    ('f client_pc \<times> 'f scaling_sys) option" where
  "ScalingThreadPool_DoAddTask n t (U_Load task) s =
     Some (if sl_isRequestShutDown (sy_pool s) then U_Added False
           else case task of None \<Rightarrow> U_Added False | Some x \<Rightarrow> U_Push x, s)"
| "ScalingThreadPool_DoAddTask n t (U_Push x) s =
     do { q \<leftarrow> BlockingTaskQueue_Push t x (sl_taskQueue (sy_pool s));
          Some (U_NotifyAdd, s\<lparr>sy_pool := (sy_pool s)\<lparr>sl_taskQueue := q\<rparr>, sy_pushed := sy_pushed s @ [x]\<rparr>) }"
| "ScalingThreadPool_DoAddTask n t U_NotifyAdd s =
     do { p \<leftarrow> notify_monitor t n (sy_pool s); Some (U_Added True, s\<lparr>sy_pool := p\<rparr>) }"
| "ScalingThreadPool_DoAddTask _ _ _ _ = None"

definition shut_wait :: "bool \<Rightarrow> 'f client_pc" where
  "shut_wait now = (if now then U_WaitShut else U_ShutReturned False)"

text \<open>\<open>ShutDown\<close> and, for \<open>now\<close>, \<open>ShutDownNow\<close>; \<open>U_CloseMonitor\<close> to \<open>U_NotifySub0\<close> are \<open>NotifyMonitorThread\<close>.\<close>

fun ScalingThreadPool_ShutDown :: "nat \<Rightarrow> bool \<Rightarrow> tid \<Rightarrow> 'f client_pc \<Rightarrow> 'f scaling_sys \<Rightarrow>
    ('f client_pc \<times> 'f scaling_sys) option" where
  "ScalingThreadPool_ShutDown n sp t (U_ShutDown now) s =
     (case compare_exchange_weak sp False True (sl_isRequestShutDown (sy_pool s)) of
        (won, v) \<Rightarrow> Some (if won then U_SetStop now else shut_wait now, upd_sl (\<lambda>p. p\<lparr>sl_isRequestShutDown := v\<rparr>) s))"
| "ScalingThreadPool_ShutDown n sp t (U_SetStop now) s =
     do { p \<leftarrow> ScalingThreadPool_SetState t Scaling_STOP (sy_pool s); Some (U_Lock now, s\<lparr>sy_pool := p\<rparr>) }"
| "ScalingThreadPool_ShutDown n sp t (U_Lock now) s =
     do { c \<leftarrow> CV_Lock t (sl_addOrSub (sy_pool s));
          Some (U_CloseEach now (sl_threads (sy_pool s)), upd_sl (\<lambda>p. p\<lparr>sl_addOrSub := c\<rparr>) s) }"
| "ScalingThreadPool_ShutDown n sp t (U_CloseEach now ids) s =
     Some (case ids of
        [] \<Rightarrow> (U_PushEnds now (length (sl_threads (sy_pool s))), s)
      | i # rest \<Rightarrow> (U_CloseEach now rest, upd_sl (\<lambda>p. p\<lparr>sl_workers :=
           (sl_workers p)(i := WorkerThread_AsyncClose sp (sl_workers p i))\<rparr>) s))"
| "ScalingThreadPool_ShutDown n sp t (U_PushEnds now k) s =
     (case k of
        0 \<Rightarrow> Some (U_CloseMonitor now, upd_sl unlock_addOrSub s)
      | Suc k' \<Rightarrow>
          do { q \<leftarrow> BlockingTaskQueue_Push t EndTask (sl_taskQueue (sy_pool s));
               Some (U_PushEnds now k',
                     s\<lparr>sy_pool := (sy_pool s)\<lparr>sl_taskQueue := q\<rparr>, sy_pushed := sy_pushed s @ [EndTask]\<rparr>) })"
| "ScalingThreadPool_ShutDown n sp t (U_CloseMonitor now) s =
     Some (U_PushSub0 now, upd_sl (\<lambda>p. p\<lparr>sl_monitorThread := CloseableThread_AsyncClose sp (sl_monitorThread p)\<rparr>) s)"
| "ScalingThreadPool_ShutDown n sp t (U_PushSub0 now) s =
     do { p \<leftarrow> ScalingThreadPool_AddWorkerThreadIdToSubVector t 0 (sy_pool s);
          Some (U_NotifySub0 now, s\<lparr>sy_pool := p\<rparr>) }"
| "ScalingThreadPool_ShutDown n sp t (U_NotifySub0 now) s =
     do { p \<leftarrow> notify_monitor t n (sy_pool s); Some (shut_wait now, s\<lparr>sy_pool := p\<rparr>) }"
| "ScalingThreadPool_ShutDown n sp t U_WaitShut s =
     do { (slept, l) \<leftarrow> ConditionWaitLocker t (\<not> ScalingThreadPool_DoIsShutDown (sy_pool s)) (sl_stateGuard (sy_pool s));
          Some (if slept then (U_WaitShut, upd_sl (\<lambda>p. p\<lparr>sl_stateGuard := l\<rparr>) s)
                else (U_ShutReturned True, upd_sl (\<lambda>p. p\<lparr>sl_stateGuard := ConditionWaitLocker_dtor l\<rparr>) s)) }"
| "ScalingThreadPool_ShutDown _ _ _ _ _ = None"

datatype 'f scaling_ev = CallAddTask "'f pool_task option" | CallAddFunctor 'f | CallShut bool | L_Step nat bool | TaskThrows

definition ready_client :: "'f client_pc \<Rightarrow> bool" where
  "ready_client c \<longleftrightarrow> (case c of U_Idle \<Rightarrow> True | U_Added _ \<Rightarrow> True | U_ShutReturned _ \<Rightarrow> True | _ \<Rightarrow> False)"

text \<open>
  Clients only add functor tasks: \<open>AddTask(f)\<close> makes one, and the pool does not export \<open>EndTask\<close>.
\<close>

definition client_call :: "'f scaling_ev \<Rightarrow> 'f client_pc option" where
  "client_call e =
     (case e of
        CallAddTask task \<Rightarrow> (if task = Some EndTask then None else Some (U_Load task))
      | CallAddFunctor f \<Rightarrow> Some (U_Load (Some (MakeFunctorTask f)))
      | CallShut now \<Rightarrow> Some (U_ShutDown now)
      | _ \<Rightarrow> None)"

definition client_act :: "'f scaling_ev \<Rightarrow> tid \<Rightarrow> 'f client_pc \<Rightarrow> 'f scaling_sys \<Rightarrow>
    ('f client_pc \<times> 'f scaling_sys) option" where
  "client_act e t c s =
     (case e of
        L_Step n sp \<Rightarrow>
          (case ScalingThreadPool_DoAddTask n t c s of Some r \<Rightarrow> Some r | None \<Rightarrow> ScalingThreadPool_ShutDown n sp t c s)
      | TaskThrows \<Rightarrow> None
      | _ \<Rightarrow> if ready_client c then map_option (\<lambda>c'. (c', s)) (client_call e) else None)"

definition monitor_act :: "'f scaling_ev \<Rightarrow> tid \<Rightarrow> monitor_pc \<Rightarrow> 'f scaling_sys \<Rightarrow>
    (monitor_pc \<times> 'f scaling_sys) option" where
  "monitor_act e t m s =
     (case e of
        L_Step n sp \<Rightarrow>
          (case ScalingThreadPool_HandleWorkerThread t m s of Some r \<Rightarrow> Some r | None \<Rightarrow>
           map_option (\<lambda>(m', p). (m', s\<lparr>sy_pool := p\<rparr>)) (monitor_thread t m (sy_pool s)))
      | _ \<Rightarrow> None)"

text \<open>
  The work function of worker \<open>t\<close>: \<open>m_judge\<close> is \<open>IfMoreThan\<close> of the pool.  The action logs what it
  takes from the queue and what it runs.
\<close>

definition worker_work :: "bool \<Rightarrow> tid \<Rightarrow> stop_pc worker_pc \<Rightarrow> 'f scaling_sys \<Rightarrow>
    (stop_pc worker_pc \<times> 'f scaling_sys) option" where
  "worker_work sp t k s =
     do { (judge, p) \<leftarrow> (if k = W_Judge then ScalingThreadPool_IfMoreThan t (sy_pool s) else Some (False, sy_pool s));
          (k', q, w) \<leftarrow> WorkerThread_WorkFunction S_Stop judge sp t k (sl_taskQueue p) (sl_workers p t);
          Some (k', s\<lparr>sy_pool := p\<lparr>sl_taskQueue := q, sl_workers := (sl_workers p)(t := w)\<rparr>,
                      sy_popped := sy_popped s @ (if k = W_Get \<and> k' \<noteq> W_Get then [the (wt_runningTask w)] else []),
                      sy_ran := sy_ran s @ (if k = W_Run then DoRun (the (wt_runningTask w)) else [])\<rparr>) }"

definition worker_returns :: "tid \<Rightarrow> stop_pc worker_pc \<Rightarrow> 'f scaling_sys \<Rightarrow> 'f scaling_sys" where
  "worker_returns t k s = (if k = W_Done \<or> k = W_Threw then s\<lparr>sy_returned := sy_returned s @ [t]\<rparr> else s)"

definition worker_act :: "'f scaling_ev \<Rightarrow> tid \<Rightarrow> stop_pc worker_pc \<Rightarrow> 'f scaling_sys \<Rightarrow>
    (stop_pc worker_pc \<times> 'f scaling_sys) option" where
  "worker_act e t k s =
     (if t \<notin> set (sy_spawned s) then None
      else case e of
        L_Step n sp \<Rightarrow>
          (case k of
             W_Finish f \<Rightarrow>
               map_option (\<lambda>(k', p). (k', s\<lparr>sy_pool := p\<rparr>)) (ScalingThreadPool_NotifyWhenThreadsStop n t f (sy_pool s))
           | _ \<Rightarrow>
               (case worker_work sp t k s of Some r \<Rightarrow> Some r | None \<Rightarrow>
                map_option (\<lambda>(k', w). (k', worker_returns t k' (upd_sl (\<lambda>p. p\<lparr>sl_workers := (sl_workers p)(t := w)\<rparr>) s)))
                  (WorkerThread_thread S_Stop t k (sl_workers (sy_pool s) t))))
      | TaskThrows \<Rightarrow>
          (if k = W_Run then Some (W_Threw, worker_returns t W_Threw
             (s\<lparr>sy_ran := sy_ran s @ DoRun (the (wt_runningTask (sl_workers (sy_pool s) t)))\<rparr>))
           else None)
      | _ \<Rightarrow> None)"

definition scaling_act :: "'f scaling_ev \<Rightarrow> tid \<Rightarrow> 'f scaling_pc \<Rightarrow> 'f scaling_sys \<Rightarrow>
    ('f scaling_pc \<times> 'f scaling_sys) option" where
  "scaling_act e t k s =
     (case k of
        Monitor m \<Rightarrow> map_option (\<lambda>(m', s'). (Monitor m', s')) (monitor_act e t m s)
      | Worker w \<Rightarrow> map_option (\<lambda>(w', s'). (Worker w', s')) (worker_act e t w s)
      | Client c \<Rightarrow> map_option (\<lambda>(c', s'). (Client c', s')) (client_act e t c s))"

fun scaling_expire :: "'f scaling_pc \<Rightarrow> 'f scaling_pc option" where
  "scaling_expire (Monitor M_Wait) = Some (Monitor M_Expired)"
| "scaling_expire (Worker W_Get) = Some (Worker W_GetExpired)"
| "scaling_expire _ = None"

definition scaling_waiting :: "'f scaling_sys \<Rightarrow> tid \<Rightarrow> bool" where
  "scaling_waiting s t \<longleftrightarrow> cv_waiting (sl_stateGuard (sy_pool s)) t \<or> cv_waiting (sl_addOrSub (sy_pool s)) t \<or>
     cv_waiting (bq_mutexCond (sl_taskQueue (sy_pool s))) t"

definition scaling_unwait :: "tid \<Rightarrow> 'f scaling_sys \<Rightarrow> 'f scaling_sys" where
  "scaling_unwait t s = upd_sl (\<lambda>p. p\<lparr>sl_stateGuard := cv_unwait t (sl_stateGuard p),
     sl_addOrSub := cv_unwait t (sl_addOrSub p),
     sl_taskQueue := (sl_taskQueue p)\<lparr>bq_mutexCond := cv_unwait t (bq_mutexCond (sl_taskQueue p))\<rparr>\<rparr>) s"

definition scaling_machine :: "('f scaling_sys, 'f scaling_pc, 'f scaling_ev) machine" where
  "scaling_machine = \<lparr>act = scaling_act, waiting = scaling_waiting, unwait = scaling_unwait, expire = scaling_expire\<rparr>"

definition scaling_start :: "nat \<Rightarrow> nat \<Rightarrow> ('f scaling_sys, 'f scaling_pc) config" where
  "scaling_start minThreadSize maxThreadSize =
     (\<lparr>sy_pool = ScalingThreadPool_ctor minThreadSize maxThreadSize, sy_spawned = map worker_tid [0..<minThreadSize],
       sy_returned = [], sy_pushed = [], sy_popped = [], sy_ran = []\<rparr>,
      \<lambda>t. if t = 0 then Monitor M_Start else if t mod 2 = 1 then Worker W_Start else Client U_Idle)"

section \<open>The effects of one action\<close>

text \<open>
  The guard \<open>m_addOrSubThreadNumGuard\<close> is held across actions, so its operations are either enabled
  with the effect of the whole scope, or block.
\<close>

lemma lock_iff:
  assumes "m_isInit (cv_mutex c)"
  shows "CV_Lock t c = (if cv_free c then Some (cv_hold t c) else None)"
    and "CV_Scope t c = (if cv_free c then Some c else None)"
    and "ConditionNotifyLocker t n f c = (if cv_free c then Some (cv_hold t (if f then CV_Notify n c else c)) else None)"
    and "ConditionWaitLocker_TimeWait t f c =
      (if cv_free c then Some (if f then (True, c\<lparr>m_cond := m_cond c @ [t]\<rparr>) else (False, cv_hold t c)) else None)"
    and "ConditionWaitLocker_TimeWait_expired t c = (if cv_free c then Some (cv_hold t c) else None)"
proof -
  show l: "CV_Lock t c = (if cv_free c then Some (cv_hold t c) else None)"
    using assms by (auto simp: cv_defs)
  show "CV_Scope t c = (if cv_free c then Some c else None)"
    and "ConditionNotifyLocker t n f c = (if cv_free c then Some (cv_hold t (if f then CV_Notify n c else c)) else None)"
    and "ConditionWaitLocker_TimeWait t f c =
      (if cv_free c then Some (if f then (True, c\<lparr>m_cond := m_cond c @ [t]\<rparr>) else (False, cv_hold t c)) else None)"
    and "ConditionWaitLocker_TimeWait_expired t c = (if cv_free c then Some (cv_hold t c) else None)"
    by (simp_all add: locker_defs ConditionNotifyLocker_def l sync)
qed

lemma stopped_scope [sync]:
  "m_isInit m \<and> m_owner m = None \<Longrightarrow> MutexLocker t m = Some (m\<lparr>m_owner := Some t\<rparr>)"
  "m_isInit m \<and> m_owner m = None \<Longrightarrow> MutexLocker_dtor (m\<lparr>m_owner := Some t\<rparr>) = m"
  by (cases m; simp add: MutexLocker_def Mutex_Lock_def MutexLocker_dtor_def Mutex_Unlock_def)+

definition pool_ready :: "'f scaling_pool \<Rightarrow> bool" where
  "pool_ready p \<longleftrightarrow> cv_free (sl_stateGuard p) \<and> cv_free (bq_mutexCond (sl_taskQueue p)) \<and>
     cv_free (ct_stateGuard (sl_monitorThread p)) \<and> (\<forall>i. worker_free (sl_workers p i)) \<and>
     m_isInit (sl_stoppedThreadNumGuard p) \<and> m_owner (sl_stoppedThreadNumGuard p) = None \<and>
     m_isInit (cv_mutex (sl_addOrSub p))"

definition wants_monitor :: "'f scaling_pool \<Rightarrow> bool" where
  "wants_monitor p \<longleftrightarrow> TASK_QUEUE_SIZE_THRESHOLD < length (bq_queue (sl_taskQueue p)) \<and>
     length (sl_threads p) < sl_maxThreadSize p \<or> sl_subWorkerThreadId p \<noteq> []"

abbreviation sl_queue :: "'f scaling_pool \<Rightarrow> 'f pool_task list" where
  "sl_queue p \<equiv> bq_queue (sl_taskQueue p)"

definition woken :: "nat \<Rightarrow> 'f scaling_pool \<Rightarrow> condition_variable" where
  "woken n p = (if wants_monitor p then CV_Notify n (sl_addOrSub p) else sl_addOrSub p)"

definition pushed_queue :: "'f pool_task \<Rightarrow> 'f pool_task BlockingTaskQueue \<Rightarrow> 'f pool_task BlockingTaskQueue" where
  "pushed_queue x q = q\<lparr>bq_queue := bq_queue q @ [x],
     bq_mutexCond := (if bq_queue q = [] then CV_NotifyAll (bq_mutexCond q) else bq_mutexCond q)\<rparr>"

lemma scaling_ops:
  assumes "pool_ready p"
  shows "queue_long t p = Some (TASK_QUEUE_SIZE_THRESHOLD < length (sl_queue p) \<and> length (sl_threads p) < sl_maxThreadSize p, p)"
    and "ScalingThreadPool_JudgeFunc t p = Some (wants_monitor p, p)"
    and "notify_monitor t n p = (if cv_free (sl_addOrSub p)
      then Some (p\<lparr>sl_addOrSub := woken n p\<rparr>) else None)"
    and "ScalingThreadPool_IfMoreThan t p = (if cv_free (sl_addOrSub p)
      then Some (sl_corePoolSize p < length (sl_threads p), p) else None)"
    and "ScalingThreadPool_AddWorkerThreadIdToSubVector t i p = (if cv_free (sl_addOrSub p)
      then Some (p\<lparr>sl_subWorkerThreadId := sl_subWorkerThreadId p @ [i]\<rparr>) else None)"
    and "ScalingThreadPool_SetState t st p = Some (p\<lparr>sl_state := st\<rparr>)"
    and "BlockingTaskQueue_Push t x (sl_taskQueue p) = Some (pushed_queue x (sl_taskQueue p))"
  using assms
  by (auto simp: pool_ready_def queue_long_def ScalingThreadPool_JudgeFunc_def BlockingTaskQueue_defs sync wants_monitor_def
      woken_def pushed_queue_def notify_monitor_def lock_iff ScalingThreadPool_IfMoreThan_def ScalingThreadPool_GetThreadNum_def
      ScalingThreadPool_AddWorkerThreadIdToSubVector_def ScalingThreadPool_SetState_def)

abbreviation upd_worker :: "tid \<Rightarrow> ('f worker_thread \<Rightarrow> 'f worker_thread) \<Rightarrow> 'f scaling_sys \<Rightarrow> 'f scaling_sys" where
  "upd_worker t f s \<equiv> upd_sl (\<lambda>p. p\<lparr>sl_workers := (sl_workers p)(t := f (sl_workers p t))\<rparr>) s"

abbreviation upd_lock :: "(condition_variable \<Rightarrow> condition_variable) \<Rightarrow> 'f scaling_sys \<Rightarrow> 'f scaling_sys" where
  "upd_lock f s \<equiv> upd_sl (\<lambda>p. p\<lparr>sl_addOrSub := f (sl_addOrSub p)\<rparr>) s"

abbreviation sy_lock :: "'f scaling_sys \<Rightarrow> condition_variable" where
  "sy_lock s \<equiv> sl_addOrSub (sy_pool s)"

definition with_sleeper :: "tid \<Rightarrow> condition_variable \<Rightarrow> condition_variable" where
  "with_sleeper t c = c\<lparr>m_cond := m_cond c @ [t]\<rparr>"

definition set_closed :: "'f worker_thread \<Rightarrow> 'f worker_thread" where
  "set_closed w = w\<lparr>wt_thread := (wt_thread w)\<lparr>ct_isRequestClose := True\<rparr>\<rparr>"

definition fetched :: "tid \<Rightarrow> 'f pool_task \<Rightarrow> 'f pool_task list \<Rightarrow> 'f scaling_sys \<Rightarrow> 'f scaling_sys" where
  "fetched t x xs s = (upd_worker t (\<lambda>w. w\<lparr>wt_runningTask := Some x\<rparr>)
     (upd_sl (\<lambda>p. p\<lparr>sl_taskQueue := (sl_taskQueue p)\<lparr>bq_queue := xs\<rparr>\<rparr>) s))\<lparr>sy_popped := sy_popped s @ [x]\<rparr>"

definition running :: "tid \<Rightarrow> 'f scaling_sys \<Rightarrow> 'f list" where
  "running t s = DoRun (the (wt_runningTask (sl_workers (sy_pool s) t)))"

definition pushed_task :: "'f pool_task \<Rightarrow> 'f scaling_sys \<Rightarrow> 'f scaling_sys" where
  "pushed_task x s = (upd_sl (\<lambda>p. p\<lparr>sl_taskQueue := pushed_queue x (sl_taskQueue p)\<rparr>) s)\<lparr>sy_pushed := sy_pushed s @ [x]\<rparr>"

inductive monitor_move :: "tid \<Rightarrow> 'f scaling_sys \<Rightarrow> monitor_pc \<Rightarrow> monitor_pc \<Rightarrow> 'f scaling_sys \<Rightarrow> bool"
  for t :: tid and s :: "'f scaling_sys" where
  local: "(k, k') \<in> {(M_Check0, M_Check), (M_Check, M_Wait), (M_Inside, M_Add), (M_Check0, M_SetFinished),
       (M_Check, M_SetFinished), (M_NotifyClosed, M_Done)} \<Longrightarrow> monitor_move t s k k' s"
| own: "(k, k') \<in> {(M_Start, M_Check0), (M_SetFinished, M_NotifyClosed), (M_NotifyClosed, M_Done)} \<Longrightarrow>
     ct_isRequestClose ct = ct_isRequestClose (sl_monitorThread (sy_pool s)) \<Longrightarrow> cv_free (ct_stateGuard ct) \<Longrightarrow>
     monitor_move t s k k' (upd_sl (\<lambda>p. p\<lparr>sl_monitorThread := ct\<rparr>) s)"
| inside_closed: "monitor_move t s M_Inside M_SetFinished (upd_lock CV_Unlock s)"
| sleep: "cv_free (sy_lock s) \<Longrightarrow> \<not> wants_monitor (sy_pool s) \<Longrightarrow> monitor_move t s M_Wait M_Wait (upd_lock (with_sleeper t) s)"
| take: "cv_free (sy_lock s) \<Longrightarrow> k \<in> {M_Wait, M_Expired} \<Longrightarrow> monitor_move t s k M_Inside (upd_lock (cv_hold t) s)"
| grow: "TASK_QUEUE_SIZE_THRESHOLD < length (sl_queue (sy_pool s)) \<Longrightarrow> length (sl_threads (sy_pool s)) < sl_maxThreadSize (sy_pool s) \<Longrightarrow>
     monitor_move t s M_Add (M_Sub (sl_subWorkerThreadId (sy_pool s))) (spawn_worker s)"
| keep: "monitor_move t s M_Add (M_Sub (sl_subWorkerThreadId (sy_pool s))) s"
| sub_done: "monitor_move t s (M_Sub []) M_Check (upd_lock CV_Unlock (upd_sl (\<lambda>p. p\<lparr>sl_subWorkerThreadId := []\<rparr>) s))"
| sub_none: "i \<notin> set (sl_threads (sy_pool s)) \<Longrightarrow> monitor_move t s (M_Sub (i # ids)) (M_Sub ids) s"
| sub_join: "i \<in> set (sl_threads (sy_pool s)) \<Longrightarrow> i \<in> set (sy_returned s) \<Longrightarrow>
     monitor_move t s (M_Sub (i # ids)) (M_Sub ids) (upd_sl (\<lambda>p. p\<lparr>sl_threads := remove1 i (sl_threads p)\<rparr>) s)"

inductive worker_move :: "nat \<Rightarrow> tid \<Rightarrow> 'f scaling_sys \<Rightarrow> stop_pc worker_pc \<Rightarrow> stop_pc worker_pc \<Rightarrow> 'f scaling_sys \<Rightarrow> bool"
  for n :: nat and t :: tid and s :: "'f scaling_sys" where
  own: "(k, k') \<in> {(W_Start, W_Check0), (W_SetFinished, W_NotifyClosed)} \<Longrightarrow> worker_free w \<Longrightarrow>
     worker_closed w = worker_closed (sl_workers (sy_pool s) t) \<Longrightarrow> worker_move n t s k k' (upd_worker t (\<lambda>_. w) s)"
| return: "worker_free w \<Longrightarrow> worker_closed w = worker_closed (sl_workers (sy_pool s) t) \<Longrightarrow>
     worker_move n t s W_NotifyClosed W_Done ((upd_worker t (\<lambda>_. w) s)\<lparr>sy_returned := sy_returned s @ [t]\<rparr>)"
| return_same: "worker_move n t s W_NotifyClosed W_Done (s\<lparr>sy_returned := sy_returned s @ [t]\<rparr>)"
| check: "\<not> worker_closed (sl_workers (sy_pool s) t) \<Longrightarrow>
     (k, k') \<in> {(W_Check0, W_Check), (W_Check, W_Get), (W_Recheck, W_Check)} \<Longrightarrow> worker_move n t s k k' s"
| exit: "worker_closed (sl_workers (sy_pool s) t) \<Longrightarrow> k \<in> {W_Check0, W_Check, W_Recheck} \<Longrightarrow>
     worker_move n t s k (W_Finish S_Stop) s"
| sleep: "sl_queue (sy_pool s) = [] \<Longrightarrow> worker_move n t s W_Get W_Get (upd_sl (\<lambda>p. p\<lparr>sl_taskQueue := (sl_taskQueue p)
     \<lparr>bq_mutexCond := with_sleeper t (bq_mutexCond (sl_taskQueue p))\<rparr>\<rparr>) s)"
| fetch: "sl_queue (sy_pool s) = FunctorTask f # xs \<Longrightarrow> worker_move n t s W_Get W_Run (fetched t (FunctorTask f) xs s)"
| fetch_end: "sl_queue (sy_pool s) = EndTask # xs \<Longrightarrow> worker_move n t s W_Get (W_Finish S_Stop) (fetched t EndTask xs s)"
| expired: "worker_move n t s W_GetExpired W_Judge s"
| more: "sl_corePoolSize (sy_pool s) < length (sl_threads (sy_pool s)) \<Longrightarrow> cv_free (sy_lock s) \<Longrightarrow>
     worker_move n t s W_Judge W_AsyncClose s"
| enough: "cv_free (sy_lock s) \<Longrightarrow> worker_move n t s W_Judge W_Check s"
| close: "worker_move n t s W_AsyncClose W_Recheck (upd_worker t set_closed s)"
| close_failed: "worker_move n t s W_AsyncClose W_Recheck s"
| run: "worker_move n t s W_Run W_Check (s\<lparr>sy_ran := sy_ran s @ running t s\<rparr>)"
| threw: "worker_move n t s W_Run W_Threw (s\<lparr>sy_ran := sy_ran s @ running t s, sy_returned := sy_returned s @ [t]\<rparr>)"
| stop: "\<not> sl_isRequestShutDown (sy_pool s) \<Longrightarrow> worker_move n t s (W_Finish S_Stop) (W_Finish S_PushSub) s"
| stop_shut: "sl_isRequestShutDown (sy_pool s) \<Longrightarrow> worker_move n t s (W_Finish S_Stop) (W_Finish S_Count) s"
| sub: "cv_free (sy_lock s) \<Longrightarrow> worker_move n t s (W_Finish S_PushSub) (W_Finish S_NotifySub)
     (upd_sl (\<lambda>p. p\<lparr>sl_subWorkerThreadId := sl_subWorkerThreadId p @ [t]\<rparr>) s)"
| sub_notify: "cv_free (sy_lock s) \<Longrightarrow> worker_move n t s (W_Finish S_NotifySub) W_SetFinished
     (upd_sl (\<lambda>p. p\<lparr>sl_addOrSub := woken n p\<rparr>) s)"
| count: "worker_move n t s (W_Finish S_Count) (W_Finish (S_Compare (Suc (sl_stoppedThreadNum (sy_pool s)))))
     (upd_sl (\<lambda>p. p\<lparr>sl_stoppedThreadNum := Suc (sl_stoppedThreadNum p)\<rparr>) s)"
| last: "length (sl_threads (sy_pool s)) \<le> m \<Longrightarrow> worker_move n t s (W_Finish (S_Compare m)) (W_Finish S_SetShut) s"
| not_last: "\<not> length (sl_threads (sy_pool s)) \<le> m \<Longrightarrow> worker_move n t s (W_Finish (S_Compare m)) W_SetFinished s"
| shut: "worker_move n t s (W_Finish S_SetShut) (W_Finish S_NotifyShut) (upd_sl (\<lambda>p. p\<lparr>sl_state := Scaling_SHUTDOWN\<rparr>) s)"
| wake: "sl_isRequestShutDown (sy_pool s) \<Longrightarrow> worker_move n t s (W_Finish S_NotifyShut) W_SetFinished
     (upd_sl (\<lambda>p. p\<lparr>sl_stateGuard := CV_NotifyAll (sl_stateGuard p)\<rparr>) s)"
| no_wake: "\<not> sl_isRequestShutDown (sy_pool s) \<Longrightarrow> worker_move n t s (W_Finish S_NotifyShut) W_SetFinished s"

inductive client_move :: "nat \<Rightarrow> tid \<Rightarrow> 'f scaling_sys \<Rightarrow> 'f client_pc \<Rightarrow> 'f client_pc \<Rightarrow> 'f scaling_sys \<Rightarrow> bool"
  for n :: nat and t :: tid and s :: "'f scaling_sys" where
  call_add: "ready_client c \<Longrightarrow> x \<noteq> Some EndTask \<Longrightarrow> client_move n t s c (U_Load x) s"
| call_shut: "ready_client c \<Longrightarrow> client_move n t s c (U_ShutDown now) s"
| refused: "sl_isRequestShutDown (sy_pool s) \<or> x = None \<Longrightarrow> client_move n t s (U_Load x) (U_Added False) s"
| load: "\<not> sl_isRequestShutDown (sy_pool s) \<Longrightarrow> client_move n t s (U_Load (Some x)) (U_Push x) s"
| push: "client_move n t s (U_Push x) U_NotifyAdd (pushed_task x s)"
| notify: "cv_free (sy_lock s) \<Longrightarrow> client_move n t s U_NotifyAdd (U_Added True)
     (upd_sl (\<lambda>p. p\<lparr>sl_addOrSub := woken n p\<rparr>) s)"
| won: "\<not> sl_isRequestShutDown (sy_pool s) \<Longrightarrow> client_move n t s (U_ShutDown now) (U_SetStop now)
     (upd_sl (\<lambda>p. p\<lparr>sl_isRequestShutDown := True\<rparr>) s)"
| lost: "client_move n t s (U_ShutDown now) (shut_wait now) s"
| set_stop: "client_move n t s (U_SetStop now) (U_Lock now) (upd_sl (\<lambda>p. p\<lparr>sl_state := Scaling_STOP\<rparr>) s)"
| lock: "cv_free (sy_lock s) \<Longrightarrow> client_move n t s (U_Lock now) (U_CloseEach now (sl_threads (sy_pool s))) (upd_lock (cv_hold t) s)"
| close_next: "client_move n t s (U_CloseEach now (i # ids)) (U_CloseEach now ids) (upd_worker i set_closed s)"
| close_missed: "client_move n t s (U_CloseEach now (i # ids)) (U_CloseEach now ids) s"
| closed: "client_move n t s (U_CloseEach now []) (U_PushEnds now (length (sl_threads (sy_pool s)))) s"
| push_end: "client_move n t s (U_PushEnds now (Suc k)) (U_PushEnds now k) (pushed_task EndTask s)"
| unlock: "client_move n t s (U_PushEnds now 0) (U_CloseMonitor now) (upd_lock CV_Unlock s)"
| close_monitor: "client_move n t s (U_CloseMonitor now) (U_PushSub0 now)
     (upd_sl (\<lambda>p. p\<lparr>sl_monitorThread := (sl_monitorThread p)\<lparr>ct_isRequestClose := b\<rparr>\<rparr>) s)"
| close_monitor_missed: "client_move n t s (U_CloseMonitor now) (U_PushSub0 now) s"
| sub0: "cv_free (sy_lock s) \<Longrightarrow> client_move n t s (U_PushSub0 now) (U_NotifySub0 now)
     (upd_sl (\<lambda>p. p\<lparr>sl_subWorkerThreadId := sl_subWorkerThreadId p @ [0]\<rparr>) s)"
| sub0_notify: "cv_free (sy_lock s) \<Longrightarrow> client_move n t s (U_NotifySub0 now) (shut_wait now)
     (upd_sl (\<lambda>p. p\<lparr>sl_addOrSub := woken n p\<rparr>) s)"
| wait: "sl_state (sy_pool s) \<noteq> Scaling_SHUTDOWN \<Longrightarrow> client_move n t s U_WaitShut U_WaitShut
     (upd_sl (\<lambda>p. p\<lparr>sl_stateGuard := with_sleeper t (sl_stateGuard p)\<rparr>) s)"
| return_now: "sl_state (sy_pool s) = Scaling_SHUTDOWN \<Longrightarrow> client_move n t s U_WaitShut (U_ShutReturned True) s"

lemma pool_readyD:
  assumes "pool_ready p"
  shows "cv_free (sl_stateGuard p)" "cv_free (bq_mutexCond (sl_taskQueue p))" "cv_free (ct_stateGuard (sl_monitorThread p))"
    "worker_free (sl_workers p i)" "m_isInit (sl_stoppedThreadNumGuard p) \<and> m_owner (sl_stoppedThreadNumGuard p) = None"
    "m_isInit (cv_mutex (sl_addOrSub p))"
  using assms by (auto simp: pool_ready_def)

lemma upd_same [simp]:
  "upd_sl (\<lambda>p. p) s = s" "p\<lparr>sl_workers := (sl_workers p)(t := sl_workers p t)\<rparr> = p"
  "p\<lparr>sl_addOrSub := sl_addOrSub p\<rparr> = p" "s\<lparr>sy_pool := sy_pool s\<rparr> = s"
  "p\<lparr>sl_taskQueue := sl_taskQueue p\<rparr> = p"
  by simp_all

lemmas monitor_intros = monitor_move.intros [unfolded with_sleeper_def, simplified]
lemmas worker_intros = worker_move.intros [unfolded with_sleeper_def fetched_def set_closed_def running_def, simplified]
lemmas client_intros = client_move.intros [unfolded with_sleeper_def pushed_task_def set_closed_def, simplified]

lemmas closer_defs = CheckIsRequestClose_def CloseableThread_SetState_def CloseableThread_AsyncClose_def
  CloseableThread_NotifyFinished_notify_def CloseableThread_IsRequestClose_def ConditionWaitLocker_dtor_def unlock_addOrSub_def

lemma monitor_act_move:
  assumes "monitor_act e t k s = Some (k', s')" and "pool_ready (sy_pool s)"
  shows "monitor_move t s k k' s'"
  using assms(1) pool_readyD [OF assms(2)] scaling_ops [OF assms(2)]
  by (cases k)
     (auto simp: monitor_act_def monitor_check_def lock_iff sync closer_defs
        ScalingThreadPool_ContraryJudgeFunc_def ScalingThreadPool_SubWorkerThread_def
        intro: monitor_intros split: scaling_ev.splits if_splits list.splits option.splits)

lemma client_act_move:
  assumes "client_act e t k s = Some (k', s')" and "pool_ready (sy_pool s)"
  shows "\<exists>n. client_move n t s k k' s'"
proof -
  have call: "\<exists>n. client_move n t s k k' s'" if "ready_client k" "client_call e = Some k'" "s' = s"
    using that by (auto simp: client_call_def MakeFunctorTask_def intro: client_intros split: scaling_ev.splits if_splits)
  have add: "client_move n t s k k' s'" if "ScalingThreadPool_DoAddTask n t k s = Some (k', s')" for n
    using that pool_readyD [OF assms(2)] scaling_ops [OF assms(2)]
    by (cases k) (auto simp: lock_iff intro: client_intros split: if_splits option.splits)
  have shut: "client_move n t s k k' s'" if "ScalingThreadPool_ShutDown n sp t k s = Some (k', s')" for n sp
    using that pool_readyD [OF assms(2)] scaling_ops [OF assms(2)]
    by (cases k) (auto simp: lock_iff sync closer_defs compare_exchange_weak_def
        WorkerThread_AsyncClose_def ScalingThreadPool_DoIsShutDown_def
        intro: client_intros split: if_splits list.splits nat.splits)
  show ?thesis
    using assms(1) call add shut by (auto simp: client_act_def split: scaling_ev.splits option.splits if_splits)
qed

lemma finish_act_move:
  assumes "ScalingThreadPool_NotifyWhenThreadsStop n t f (sy_pool s) = Some (k', p)" and "pool_ready (sy_pool s)"
  shows "worker_move n t s (W_Finish f) k' (s\<lparr>sy_pool := p\<rparr>)"
  using assms(1) pool_readyD [OF assms(2)] scaling_ops [OF assms(2)]
  by (cases f) (auto simp: sync closer_defs ScalingThreadPool_CheckIsRequestShutDown_def Let_def
      ConditionNotifyAllLocker_dtor_def intro: worker_intros split: if_splits)

lemma work_act_worker_move:
  assumes "worker_work sp t k s = Some (k', s')" and "pool_ready (sy_pool s)"
  shows "worker_move n t s k k' s'"
  using assms(1) pool_readyD [OF assms(2)] scaling_ops [OF assms(2)]
  by (cases k) (auto simp: worker_work_def worker_op_defs running_def compare_exchange_weak_def sync
      intro: worker_intros split: if_splits list.splits pool_task.splits)

lemma thread_act_worker_move:
  assumes "WorkerThread_thread S_Stop t k (sl_workers (sy_pool s) t) = Some (k', w)" and "pool_ready (sy_pool s)"
  shows "worker_move n t s k k' (worker_returns t k' (upd_worker t (\<lambda>_. w) s))"
  using assms(1) thread_act [OF pool_readyD(4) [OF assms(2), of t], of S_Stop t] pool_readyD(4) [OF assms(2), of t]
  by (cases k) (auto simp: worker_returns_def worker_free_def sync intro: worker_intros split: if_splits)

lemma worker_act_worker_move:
  assumes act: "worker_act e t k s = Some (k', s')" and ready: "pool_ready (sy_pool s)"
  shows "\<exists>n. worker_move n t s k k' s' \<and> t \<in> set (sy_spawned s)"
proof -
  have t: "t \<in> set (sy_spawned s)" using act by (auto simp: worker_act_def split: if_splits)
  consider (throws) "e = TaskThrows" | (finish) n sp f where "e = L_Step n sp" "k = W_Finish f"
    | (step) n sp where "e = L_Step n sp" "\<forall>f. k \<noteq> W_Finish f"
    using act by (cases e; cases k) (auto simp: worker_act_def split: if_splits)
  then have "\<exists>n. worker_move n t s k k' s'"
  proof cases
    case throws
    with act show ?thesis by (auto simp: worker_act_def worker_returns_def intro: worker_intros split: if_splits)
  next
    case finish
    with act t show ?thesis by (auto simp: worker_act_def intro: finish_act_move [OF _ ready])
  next
    case step
    have "worker_work sp t k s = Some (k', s') \<or>
        (\<exists>w. WorkerThread_thread S_Stop t k (sl_workers (sy_pool s) t) = Some (k', w) \<and>
          s' = worker_returns t k' (upd_worker t (\<lambda>_. w) s))"
      using act t step by (cases k) (auto simp: worker_act_def simp del: WorkerThread_thread.simps split: option.splits)
    then show ?thesis
      using work_act_worker_move [OF _ ready] thread_act_worker_move [OF _ ready] by blast
  qed
  with t show ?thesis by blast
qed

end
