(* ===== verification/ScalingInvariant.thy ===== *)
theory ScalingInvariant
  imports ScalingThreadPool TaskPoolSpec
begin

text \<open>
  The invariant of the scaling pool and the properties of every pool: who holds the guard, how large
  the pool is, that tasks run at most once, that no wake-up is lost; and the ways in which the pool
  loses its threads or stops answering.
\<close>

section \<open>The parts of the invariant\<close>

definition holds :: "'f scaling_pc \<Rightarrow> bool" where
  "holds k \<longleftrightarrow> (case k of
     Monitor m \<Rightarrow> (case m of M_Inside \<Rightarrow> True | M_Add \<Rightarrow> True | M_Sub _ \<Rightarrow> True | _ \<Rightarrow> False)
   | Client c \<Rightarrow> (case c of U_CloseEach _ _ \<Rightarrow> True | U_PushEnds _ _ \<Rightarrow> True | _ \<Rightarrow> False)
   | Worker _ \<Rightarrow> False)"

lemma holds_simps [pc_simps]:
  "holds (Monitor M_Start) = False" "holds (Monitor M_Check0) = False" "holds (Monitor M_Check) = False"
  "holds (Monitor M_Wait) = False" "holds (Monitor M_Expired) = False" "holds (Monitor M_Inside) = True"
  "holds (Monitor M_Add) = True" "holds (Monitor (M_Sub ids)) = True" "holds (Monitor M_SetFinished) = False"
  "holds (Monitor M_NotifyClosed) = False" "holds (Monitor M_Done) = False" "holds (Worker w) = False"
  "holds (Client (U_CloseEach b ids)) = True" "holds (Client (U_PushEnds b n)) = True" "holds (Client U_Idle) = False"
  "holds (Client (U_Load x)) = False" "holds (Client (U_Push y)) = False" "holds (Client U_NotifyAdd) = False"
  "holds (Client (U_Added b)) = False" "holds (Client (U_ShutDown b)) = False" "holds (Client (U_SetStop b)) = False"
  "holds (Client (U_Lock b)) = False" "holds (Client (U_CloseMonitor b)) = False" "holds (Client (U_PushSub0 b)) = False"
  "holds (Client (U_NotifySub0 b)) = False" "holds (Client U_WaitShut) = False" "holds (Client (U_ShutReturned b)) = False"
  "holds (Client (shut_wait b)) = False"
  by (simp_all add: holds_def shut_wait_def)

lemma ready_not_holds [pc_simps]: "ready_client c \<Longrightarrow> holds (Client c) = False"
  by (cases c) (auto simp: ready_client_def holds_def)

abbreviation owner :: "'f scaling_sys \<Rightarrow> tid option" where
  "owner s \<equiv> m_owner (cv_mutex (sy_lock s))"

definition lock_ok :: "'f scaling_sys \<Rightarrow> (tid \<Rightarrow> 'f scaling_pc) \<Rightarrow> bool" where
  "lock_ok s pc \<longleftrightarrow> (\<forall>t. holds (pc t) \<longleftrightarrow> owner s = Some t)"

definition role_ok :: "tid \<Rightarrow> 'f scaling_pc \<Rightarrow> bool" where
  "role_ok t k \<longleftrightarrow> (case k of Monitor _ \<Rightarrow> t = 0 | Worker _ \<Rightarrow> odd t | Client _ \<Rightarrow> t \<noteq> 0 \<and> even t)"

definition spawn_ok :: "'f scaling_sys \<Rightarrow> bool" where
  "spawn_ok s \<longleftrightarrow> sy_spawned s = map worker_tid [0..<length (sy_spawned s)]"

definition size_ok :: "nat \<Rightarrow> nat \<Rightarrow> 'f scaling_sys \<Rightarrow> bool" where
  "size_ok c m s \<longleftrightarrow> sl_corePoolSize (sy_pool s) = c \<and> sl_maxThreadSize (sy_pool s) = m \<and>
     distinct (sl_threads (sy_pool s)) \<and> set (sl_threads (sy_pool s)) \<subseteq> set (sy_spawned s) \<and>
     length (sl_threads (sy_pool s)) \<le> max c m"

definition log_ok :: "'f scaling_sys \<Rightarrow> bool" where
  "log_ok s \<longleftrightarrow> sy_pushed s = sy_popped s @ sl_queue (sy_pool s)"

text \<open>\<open>hand k w\<close>: what a worker at \<open>k\<close> is about to run.\<close>

definition hand :: "'f scaling_pc \<Rightarrow> 'f worker_thread \<Rightarrow> 'f multiset" where
  "hand k w = (if k = Worker W_Run then mset (DoRun (the (wt_runningTask w))) else {#})"

definition hands :: "'f scaling_sys \<Rightarrow> (tid \<Rightarrow> 'f scaling_pc) \<Rightarrow> 'f multiset" where
  "hands s pc = (\<Sum>t \<in> set (sy_spawned s). hand (pc t) (sl_workers (sy_pool s) t))"

definition runs_ok :: "'f scaling_sys \<Rightarrow> (tid \<Rightarrow> 'f scaling_pc) \<Rightarrow> bool" where
  "runs_ok s pc \<longleftrightarrow> mset (concat (map DoRun (sy_popped s))) = mset (sy_ran s) + hands s pc"

definition fresh_ok :: "'f scaling_sys \<Rightarrow> tid \<Rightarrow> 'f scaling_pc \<Rightarrow> bool" where
  "fresh_ok s t k \<longleftrightarrow> (if t \<in> set (sy_spawned s) then \<exists>w. k = Worker w else \<forall>w. k = Worker w \<longrightarrow> w = W_Start)"

definition returned_ok :: "'f scaling_sys \<Rightarrow> tid \<Rightarrow> 'f scaling_pc \<Rightarrow> bool" where
  "returned_ok s t k \<longleftrightarrow> (t \<in> set (sy_returned s) \<longleftrightarrow> k = Worker W_Done \<or> k = Worker W_Threw)"

text \<open>Program counters at which a shutdown has been requested.\<close>

definition needs_request :: "'f scaling_pc \<Rightarrow> bool" where
  "needs_request k \<longleftrightarrow> (case k of
     Worker w \<Rightarrow> (case w of W_Finish f \<Rightarrow> f \<notin> {S_Stop, S_PushSub, S_NotifySub} | _ \<Rightarrow> False)
   | Client c \<Rightarrow> (case c of U_SetStop _ \<Rightarrow> True | U_Lock _ \<Rightarrow> True | U_CloseEach _ _ \<Rightarrow> True | U_PushEnds _ _ \<Rightarrow> True
       | U_CloseMonitor _ \<Rightarrow> True | U_PushSub0 _ \<Rightarrow> True | U_NotifySub0 _ \<Rightarrow> True | _ \<Rightarrow> False)
   | Monitor _ \<Rightarrow> False)"

definition notify_ok :: "'f scaling_sys \<Rightarrow> 'f scaling_pc \<Rightarrow> bool" where
  "notify_ok s k \<longleftrightarrow> (needs_request k \<longrightarrow> sl_isRequestShutDown (sy_pool s))"

definition pcs_ok :: "'f scaling_sys \<Rightarrow> (tid \<Rightarrow> 'f scaling_pc) \<Rightarrow> bool" where
  "pcs_ok s pc \<longleftrightarrow> (\<forall>t. role_ok t (pc t) \<and> fresh_ok s t (pc t) \<and> returned_ok s t (pc t) \<and> notify_ok s (pc t))"

section \<open>How the actions keep them\<close>

lemma cv_fields [simp]:
  "cv_mutex (with_sleeper t c) = cv_mutex c" "m_owner (cv_mutex (cv_hold t c)) = Some t"
  "m_isInit (cv_mutex (cv_hold t c)) = m_isInit (cv_mutex c)" "cv_mutex (CV_Notify n c) = cv_mutex c"
  "cv_mutex (CV_NotifyAll c) = cv_mutex c" "cv_mutex (woken n p) = cv_mutex (sl_addOrSub p)"
  "m_isInit (cv_mutex (CV_Unlock c)) = m_isInit (cv_mutex c)"
  "cv_mutex (cv_unwait t c) = cv_mutex c" "m_cond (with_sleeper t c) = m_cond c @ [t]"
  by (simp_all add: with_sleeper_def cv_defs woken_def)

lemma owner_unlock [simp]: "m_isInit (cv_mutex c) \<Longrightarrow> m_owner (cv_mutex (CV_Unlock c)) = None"
  by (simp add: CV_Unlock_def Mutex_Unlock_def)

lemma cv_free_sleeper [simp]: "cv_free (with_sleeper t c) = cv_free c"
  by (simp add: cv_free_def)

lemma cv_freeD: "cv_free c \<Longrightarrow> m_owner (cv_mutex c) = None"
  by (simp add: cv_free_def)

lemma pushed_queue_fields [simp]:
  "bq_queue (pushed_queue x q) = bq_queue q @ [x]" "cv_free (bq_mutexCond (pushed_queue x q)) = cv_free (bq_mutexCond q)"
  by (simp_all add: pushed_queue_def sync)

lemma spawn_fields [simp]:
  "sy_spawned (spawn_worker s) = sy_spawned s @ [worker_tid (length (sy_spawned s))]"
  "sy_returned (spawn_worker s) = sy_returned s" "sy_pushed (spawn_worker s) = sy_pushed s"
  "sy_popped (spawn_worker s) = sy_popped s" "sy_ran (spawn_worker s) = sy_ran s"
  "sy_pool (spawn_worker s) = ScalingThreadPool_AddWorkerThread (worker_tid (length (sy_spawned s))) (sy_pool s)"
  by (simp_all add: spawn_worker_def Let_def)

lemma add_worker_fields [simp]:
  "sl_threads (ScalingThreadPool_AddWorkerThread i p) = sl_threads p @ [i]"
  "sl_workers (ScalingThreadPool_AddWorkerThread i p) = (sl_workers p)(i := WorkerThread_Init new_mutex)"
  "sl_addOrSub (ScalingThreadPool_AddWorkerThread i p) = sl_addOrSub p"
  "sl_taskQueue (ScalingThreadPool_AddWorkerThread i p) = sl_taskQueue p"
  "sl_stateGuard (ScalingThreadPool_AddWorkerThread i p) = sl_stateGuard p"
  "sl_state (ScalingThreadPool_AddWorkerThread i p) = sl_state p"
  "sl_monitorThread (ScalingThreadPool_AddWorkerThread i p) = sl_monitorThread p"
  "sl_stoppedThreadNumGuard (ScalingThreadPool_AddWorkerThread i p) = sl_stoppedThreadNumGuard p"
  "sl_stoppedThreadNum (ScalingThreadPool_AddWorkerThread i p) = sl_stoppedThreadNum p"
  "sl_isRequestShutDown (ScalingThreadPool_AddWorkerThread i p) = sl_isRequestShutDown p"
  "sl_corePoolSize (ScalingThreadPool_AddWorkerThread i p) = sl_corePoolSize p"
  "sl_maxThreadSize (ScalingThreadPool_AddWorkerThread i p) = sl_maxThreadSize p"
  "sl_subWorkerThreadId (ScalingThreadPool_AddWorkerThread i p) = sl_subWorkerThreadId p"
  by (simp_all add: ScalingThreadPool_AddWorkerThread_def)

lemma fetched_fields [simp]:
  "sy_spawned (fetched t x xs s) = sy_spawned s" "sy_returned (fetched t x xs s) = sy_returned s"
  "sy_pushed (fetched t x xs s) = sy_pushed s" "sy_popped (fetched t x xs s) = sy_popped s @ [x]"
  "sy_ran (fetched t x xs s) = sy_ran s"
  "sy_pool (fetched t x xs s) = (sy_pool s)\<lparr>sl_taskQueue := (sl_taskQueue (sy_pool s))\<lparr>bq_queue := xs\<rparr>,
     sl_workers := (sl_workers (sy_pool s))(t := (sl_workers (sy_pool s) t)\<lparr>wt_runningTask := Some x\<rparr>)\<rparr>"
  by (simp_all add: fetched_def)

lemma pushed_task_fields [simp]:
  "sy_spawned (pushed_task x s) = sy_spawned s" "sy_returned (pushed_task x s) = sy_returned s"
  "sy_pushed (pushed_task x s) = sy_pushed s @ [x]" "sy_popped (pushed_task x s) = sy_popped s"
  "sy_ran (pushed_task x s) = sy_ran s"
  "sy_pool (pushed_task x s) = (sy_pool s)\<lparr>sl_taskQueue := pushed_queue x (sl_taskQueue (sy_pool s))\<rparr>"
  by (simp_all add: pushed_task_def)

lemma worker_fields [simp]:
  "worker_free (w\<lparr>wt_runningTask := x\<rparr>) = worker_free w" "worker_free (set_closed w) = worker_free w"
  "worker_closed (set_closed w) = True" "wt_runningTask (set_closed w) = wt_runningTask w"
  "worker_free (WorkerThread_Init new_mutex) = True" "worker_closed (WorkerThread_Init new_mutex) = False"
  by (simp_all add: worker_free_def set_closed_def WorkerThread_Init_def CloseableThread_ctor_def sync)

lemma pool_ready_moves:
  "monitor_move t s k k' s' \<Longrightarrow> pool_ready (sy_pool s) \<Longrightarrow> pool_ready (sy_pool s')"
  "worker_move n t s w w' s' \<Longrightarrow> pool_ready (sy_pool s) \<Longrightarrow> pool_ready (sy_pool s')"
  "client_move n t s c c' s' \<Longrightarrow> pool_ready (sy_pool s) \<Longrightarrow> pool_ready (sy_pool s')"
  by (erule monitor_move.cases worker_move.cases client_move.cases; auto simp: pool_ready_def sync)+

text \<open>An action takes the guard, gives it back or leaves it alone.\<close>

definition lock_change :: "tid \<Rightarrow> 'f scaling_sys \<Rightarrow> 'f scaling_pc \<Rightarrow> 'f scaling_pc \<Rightarrow> 'f scaling_sys \<Rightarrow> bool" where
  "lock_change t s k k' s' \<longleftrightarrow> holds k' = holds k \<and> owner s' = owner s
     \<or> \<not> holds k \<and> holds k' \<and> owner s = None \<and> owner s' = Some t \<or> holds k \<and> \<not> holds k' \<and> owner s' = None"

lemma lock_moves:
  "monitor_move t s k k' s' \<Longrightarrow> pool_ready (sy_pool s) \<Longrightarrow> lock_change t s (Monitor k) (Monitor k') s'"
  "worker_move n t s w w' s' \<Longrightarrow> pool_ready (sy_pool s) \<Longrightarrow> lock_change t s (Worker w) (Worker w') s'"
  "client_move n t s c c' s' \<Longrightarrow> pool_ready (sy_pool s) \<Longrightarrow> lock_change t s (Client c) (Client c') s'"
  by (erule monitor_move.cases worker_move.cases client_move.cases;
      auto simp: lock_change_def pc_simps pool_readyD dest: cv_freeD)+

lemma lock_ok_step: "lock_change t s (pc t) k' s' \<Longrightarrow> lock_ok s pc \<Longrightarrow> lock_ok s' (pc(t := k'))"
  unfolding lock_change_def lock_ok_def by (metis fun_upd_apply option.distinct(1) option.inject)

lemma worker_tid_inj [simp]: "worker_tid i = worker_tid j \<longleftrightarrow> i = j"
  by (simp add: worker_tid_def)

lemma worker_tid_odd [simp]: "odd (worker_tid i)" "worker_tid i \<noteq> 0"
  by (simp_all add: worker_tid_def)

lemma new_tid: "spawn_ok s \<Longrightarrow> worker_tid (length (sy_spawned s)) \<notin> set (sy_spawned s)"
  by (subst spawn_ok_def [THEN iffD1]) auto

lemma spawn_moves:
  "monitor_move t s k k' s' \<Longrightarrow> spawn_ok s \<Longrightarrow> spawn_ok s'"
  "worker_move n t s w w' s' \<Longrightarrow> sy_spawned s' = sy_spawned s"
  "client_move n t s c c' s' \<Longrightarrow> sy_spawned s' = sy_spawned s"
  by (erule monitor_move.cases worker_move.cases client_move.cases; auto simp: spawn_ok_def)+

lemma size_moves:
  "monitor_move t s k k' s' \<Longrightarrow> spawn_ok s \<Longrightarrow> size_ok c m s \<Longrightarrow> size_ok c m s'"
  "worker_move n t s w w' s' \<Longrightarrow> size_ok c m s \<Longrightarrow> size_ok c m s'"
  "client_move n t s d d' s' \<Longrightarrow> size_ok c m s \<Longrightarrow> size_ok c m s'"
    apply (erule monitor_move.cases; use new_tid [of s] in \<open>force simp: size_ok_def length_remove1 dest: set_mp [OF set_remove1_subset]\<close>)
   apply (erule worker_move.cases; simp add: size_ok_def)
  apply (erule client_move.cases; simp add: size_ok_def)
  done

lemma log_moves:
  "monitor_move t s k k' s' \<Longrightarrow> log_ok s \<Longrightarrow> log_ok s'"
  "worker_move n t s w w' s' \<Longrightarrow> log_ok s \<Longrightarrow> log_ok s'"
  "client_move n t s c c' s' \<Longrightarrow> log_ok s \<Longrightarrow> log_ok s'"
  by (erule monitor_move.cases worker_move.cases client_move.cases; simp add: log_ok_def)+

lemma request_moves:
  "monitor_move t s k k' s' \<Longrightarrow> sl_isRequestShutDown (sy_pool s') = sl_isRequestShutDown (sy_pool s)"
  "worker_move n t s w w' s' \<Longrightarrow> sl_isRequestShutDown (sy_pool s') = sl_isRequestShutDown (sy_pool s)"
  "client_move n t s c c' s' \<Longrightarrow> sl_isRequestShutDown (sy_pool s) \<Longrightarrow> sl_isRequestShutDown (sy_pool s')"
  by (erule monitor_move.cases worker_move.cases client_move.cases; simp)+

lemma returned_moves:
  "monitor_move t s k k' s' \<Longrightarrow> sy_returned s' = sy_returned s"
  "worker_move n t s w w' s' \<Longrightarrow> sy_returned s' = (if w' = W_Done \<or> w' = W_Threw then sy_returned s @ [t] else sy_returned s)"
  "client_move n t s c c' s' \<Longrightarrow> sy_returned s' = sy_returned s"
  by (erule monitor_move.cases worker_move.cases client_move.cases; auto)+

lemma notify_ok_mono:
  "notify_ok s k \<Longrightarrow> (sl_isRequestShutDown (sy_pool s) \<Longrightarrow> sl_isRequestShutDown (sy_pool s')) \<Longrightarrow> notify_ok s' k"
  by (auto simp: notify_ok_def)

lemma notify_moves:
  "monitor_move t s k k' s' \<Longrightarrow> notify_ok s' (Monitor k')"
  "worker_move n t s w w' s' \<Longrightarrow> notify_ok s (Worker w) \<Longrightarrow> notify_ok s' (Worker w')"
  "client_move n t s c c' s' \<Longrightarrow> notify_ok s (Client c) \<Longrightarrow> notify_ok s' (Client c')"
    apply (simp add: notify_ok_def needs_request_def)
   apply (erule worker_move.cases; auto simp: notify_ok_def needs_request_def)
  apply (erule client_move.cases; auto simp: notify_ok_def needs_request_def shut_wait_def)
  done

lemma worker_move_live: "worker_move n t s w w' s' \<Longrightarrow> w \<noteq> W_Done \<and> w \<noteq> W_Threw"
  by (erule worker_move.cases; auto)

lemma fresh_grow:
  assumes "fresh_ok s u k" and "role_ok u k" and "sy_spawned s' = sy_spawned s \<or> s' = spawn_worker s"
  shows "fresh_ok s' u k"
  using assms by (auto simp: fresh_ok_def role_ok_def split: scaling_pc.splits)

lemma monitor_spawns: "monitor_move t s k k' s' \<Longrightarrow> sy_spawned s' = sy_spawned s \<or> s' = spawn_worker s"
  by (erule monitor_move.cases; simp)

lemma pcs_monitor:
  assumes "monitor_move t s k k' s'" and "pcs_ok s pc" and "pc t = Monitor k"
  shows "pcs_ok s' (pc(t := Monitor k'))"
proof -
  have "role_ok t (Monitor k')" "fresh_ok s' t (Monitor k')" "returned_ok s' t (Monitor k')"
    using assms(2) [unfolded pcs_ok_def, rule_format, of t] assms(3) fresh_grow [of s t "Monitor k" s']
      monitor_spawns [OF assms(1)] returned_moves(1) [OF assms(1)]
    by (auto simp: role_ok_def returned_ok_def fresh_ok_def)
  then show ?thesis
    using assms(2) fresh_grow [OF _ _ monitor_spawns [OF assms(1)]] returned_moves(1) [OF assms(1)]
      notify_moves(1) [OF assms(1)] notify_ok_mono [of s _ s'] request_moves(1) [OF assms(1)]
    by (simp add: pcs_ok_def returned_ok_def)
qed

lemma pcs_worker:
  assumes "worker_move n t s k k' s'" and "pcs_ok s pc" and "pc t = Worker k" and "t \<in> set (sy_spawned s)"
  shows "pcs_ok s' (pc(t := Worker k'))"
proof -
  have sp: "sy_spawned s' = sy_spawned s \<or> s' = spawn_worker s" using spawn_moves(2) [OF assms(1)] by simp
  have "role_ok t (Worker k')" "fresh_ok s' t (Worker k')" "returned_ok s' t (Worker k')" "notify_ok s' (Worker k')"
    using assms(2) [unfolded pcs_ok_def, rule_format, of t] assms(3,4) spawn_moves(2) [OF assms(1)] returned_moves(2) [OF assms(1)]
      worker_move_live [OF assms(1)] notify_moves(2) [OF assms(1)]
    by (auto simp: role_ok_def returned_ok_def fresh_ok_def)
  then show ?thesis
    using assms(2) fresh_grow [OF _ _ sp] returned_moves(2) [OF assms(1)]
      notify_ok_mono [of s _ s'] request_moves(2) [OF assms(1)]
    by (auto simp: pcs_ok_def returned_ok_def)
qed

lemma pcs_client:
  assumes "client_move n t s k k' s'" and "pcs_ok s pc" and "pc t = Client k"
  shows "pcs_ok s' (pc(t := Client k'))"
proof -
  have sp: "sy_spawned s' = sy_spawned s \<or> s' = spawn_worker s" using spawn_moves(3) [OF assms(1)] by simp
  have "role_ok t (Client k')" "fresh_ok s' t (Client k')" "returned_ok s' t (Client k')" "notify_ok s' (Client k')"
    using assms(2) [unfolded pcs_ok_def, rule_format, of t] assms(3) spawn_moves(3) [OF assms(1)] returned_moves(3) [OF assms(1)]
      notify_moves(3) [OF assms(1)]
    by (auto simp: role_ok_def returned_ok_def fresh_ok_def)
  then show ?thesis
    using assms(2) fresh_grow [OF _ _ sp] returned_moves(3) [OF assms(1)]
      notify_ok_mono [of s _ s'] request_moves(3) [OF assms(1)]
    by (simp add: pcs_ok_def returned_ok_def)
qed

section \<open>Every task runs at most once\<close>

lemma hands_frame:
  assumes "sy_spawned s' = sy_spawned s" and "\<And>u. u \<in> set (sy_spawned s) \<Longrightarrow> pc' u = pc u \<and>
    wt_runningTask (sl_workers (sy_pool s') u) = wt_runningTask (sl_workers (sy_pool s) u)"
  shows "hands s' pc' = hands s pc"
  using assms by (auto simp: hands_def hand_def intro!: sum.cong)

lemma hands_change:
  assumes "sy_spawned s' = sy_spawned s" and "t \<in> set (sy_spawned s)"
    and "\<And>u. u \<noteq> t \<Longrightarrow> wt_runningTask (sl_workers (sy_pool s') u) = wt_runningTask (sl_workers (sy_pool s) u)"
  shows "hands s' (pc(t := k')) + hand (pc t) (sl_workers (sy_pool s) t) = hands s pc + hand k' (sl_workers (sy_pool s') t)"
proof -
  have "(\<Sum>u \<in> set (sy_spawned s) - {t}. hand ((pc(t := k')) u) (sl_workers (sy_pool s') u)) =
      (\<Sum>u \<in> set (sy_spawned s) - {t}. hand (pc u) (sl_workers (sy_pool s) u))"
    using assms(3) by (intro sum.cong) (auto simp: hand_def)
  then show ?thesis
    using assms(1,2) by (simp add: hands_def sum.remove [of _ t] ac_simps)
qed

lemma hands_spawn:
  assumes "spawn_ok s" and "pcs_ok s pc"
  shows "hands (spawn_worker s) pc = hands s pc"
proof -
  let ?i = "worker_tid (length (sy_spawned s))"
  have new: "?i \<notin> set (sy_spawned s)" by (rule new_tid [OF assms(1)])
  with assms(2) [unfolded pcs_ok_def, rule_format, of ?i] have "hand (pc ?i) w = {#}" for w
    by (auto simp: fresh_ok_def role_ok_def hand_def split: scaling_pc.splits)
  moreover have "(\<Sum>t \<in> set (sy_spawned s). hand (pc t) (((sl_workers (sy_pool s))(?i := WorkerThread_Init new_mutex)) t)) =
      (\<Sum>t \<in> set (sy_spawned s). hand (pc t) (sl_workers (sy_pool s) t))"
    using new by (intro sum.cong) auto
  ultimately show ?thesis using new by (simp add: hands_def)
qed

lemma spawn_odd: "spawn_ok s \<Longrightarrow> t \<in> set (sy_spawned s) \<Longrightarrow> odd t"
  by (subst (asm) spawn_ok_def) (metis (no_types, lifting) imageE list.set_map worker_tid_odd(1))

lemma monitor_frame:
  "monitor_move t s k k' s' \<Longrightarrow> sy_popped s' = sy_popped s \<and> sy_ran s' = sy_ran s \<and>
     (s' = spawn_worker s \<or> sy_spawned s' = sy_spawned s \<and> sl_workers (sy_pool s') = sl_workers (sy_pool s))"
  by (erule monitor_move.cases; simp)

lemma runs_monitor:
  assumes "monitor_move t s k k' s'" and "runs_ok s pc" and "spawn_ok s" and "pcs_ok s pc" and "pc t = Monitor k"
  shows "runs_ok s' (pc(t := Monitor k'))"
proof -
  have "t = 0" using assms(4) [unfolded pcs_ok_def, rule_format, of t] assms(5) by (simp add: role_ok_def)
  with spawn_odd [OF spawn_moves(1) [OF assms(1,3)]] have "t \<notin> set (sy_spawned s')" by auto
  then have "hands s' (pc(t := Monitor k')) = hands s' pc" by (intro hands_frame) auto
  moreover have "hands s' pc = hands s pc"
    using monitor_frame [OF assms(1)] hands_spawn [OF assms(3,4)] hands_frame [of s' s pc pc] by auto
  ultimately show ?thesis using assms(2) monitor_frame [OF assms(1)] by (simp add: runs_ok_def)
qed

lemma client_frame:
  "client_move n t s k k' s' \<Longrightarrow> sy_popped s' = sy_popped s \<and> sy_ran s' = sy_ran s \<and> sy_spawned s' = sy_spawned s \<and>
     (\<forall>u. wt_runningTask (sl_workers (sy_pool s') u) = wt_runningTask (sl_workers (sy_pool s) u))"
  by (erule client_move.cases; simp)

lemma runs_client:
  assumes "client_move n t s k k' s'" and "runs_ok s pc" and "pcs_ok s pc" and "pc t = Client k"
  shows "runs_ok s' (pc(t := Client k'))"
proof -
  have "t \<notin> set (sy_spawned s)"
    using assms(3) [unfolded pcs_ok_def, rule_format, of t] assms(4) by (auto simp: fresh_ok_def split: if_splits)
  then have "hands s' (pc(t := Client k')) = hands s pc"
    using client_frame [OF assms(1)] by (intro hands_frame) auto
  then show ?thesis using assms(2) client_frame [OF assms(1)] by (simp add: runs_ok_def)
qed

lemma worker_effect:
  assumes "worker_move n t s k k' s'"
  shows "\<exists>xs ys. sy_popped s' = sy_popped s @ xs \<and> sy_ran s' = sy_ran s @ ys \<and>
    mset (concat (map DoRun xs)) + hand (Worker k) (sl_workers (sy_pool s) t) =
      mset ys + hand (Worker k') (sl_workers (sy_pool s') t)"
  using assms by cases (auto simp: hand_def running_def)

lemma worker_frame:
  "worker_move n t s k k' s' \<Longrightarrow> u \<noteq> t \<Longrightarrow> sl_workers (sy_pool s') u = sl_workers (sy_pool s) u"
  by (erule worker_move.cases; simp)

lemma hands_worker:
  assumes "worker_move n t s k k' s'" and "pc t = Worker k" and "t \<in> set (sy_spawned s)"
  shows "hands s' (pc(t := Worker k')) + hand (Worker k) (sl_workers (sy_pool s) t) =
    hands s pc + hand (Worker k') (sl_workers (sy_pool s') t)"
  using hands_change [of s' s t pc "Worker k'"] spawn_moves(2) [OF assms(1)] assms(2,3) worker_frame [OF assms(1)] by simp

lemma runs_worker:
  assumes "worker_move n t s k k' s'" and "runs_ok s pc" and "t \<in> set (sy_spawned s)" and "pc t = Worker k"
  shows "runs_ok s' (pc(t := Worker k'))"
proof -
  obtain xs ys where e: "sy_popped s' = sy_popped s @ xs" "sy_ran s' = sy_ran s @ ys"
      "mset (concat (map DoRun xs)) + hand (Worker k) (sl_workers (sy_pool s) t) =
        mset ys + hand (Worker k') (sl_workers (sy_pool s') t)"
    using worker_effect [OF assms(1)] by blast
  have h: "hands s' (pc(t := Worker k')) + hand (Worker k) (sl_workers (sy_pool s) t) =
      hands s pc + hand (Worker k') (sl_workers (sy_pool s') t)"
    by (rule hands_worker [of n t s k k' s' pc, OF assms(1,4,3)])
  have "mset (concat (map DoRun (sy_popped s'))) + hand (Worker k) (sl_workers (sy_pool s) t) =
      mset (sy_ran s) + hands s pc + (mset (concat (map DoRun xs)) + hand (Worker k) (sl_workers (sy_pool s) t))"
    using assms(2) e(1) by (simp add: runs_ok_def)
  also have "\<dots> = mset (sy_ran s') + (hands s pc + hand (Worker k') (sl_workers (sy_pool s') t))"
    by (simp only: e(2,3)) (simp add: ac_simps)
  also have "\<dots> = mset (sy_ran s') + hands s' (pc(t := Worker k')) + hand (Worker k) (sl_workers (sy_pool s) t)"
    by (simp only: h [symmetric]) (simp add: ac_simps)
  finally show ?thesis by (simp add: runs_ok_def)
qed

section \<open>The invariant\<close>

definition scaling_inv :: "nat \<Rightarrow> nat \<Rightarrow> 'f scaling_sys \<Rightarrow> (tid \<Rightarrow> 'f scaling_pc) \<Rightarrow> bool" where
  "scaling_inv c m s pc \<longleftrightarrow> pool_ready (sy_pool s) \<and> lock_ok s pc \<and> spawn_ok s \<and> size_ok c m s \<and> log_ok s \<and>
     pcs_ok s pc \<and> runs_ok s pc"

lemma scaling_who:
  assumes "scaling_act e t (pc t) s = Some (k, s')" and "pool_ready (sy_pool s)"
  obtains (monitor) w w' where "pc t = Monitor w" "k = Monitor w'" "monitor_move t s w w' s'"
    | (worker) n w w' where "pc t = Worker w" "k = Worker w'" "worker_move n t s w w' s'" "t \<in> set (sy_spawned s)"
    | (client) n w w' where "pc t = Client w" "k = Client w'" "client_move n t s w w' s'"
proof (cases "pc t")
  case (Monitor w)
  with assms monitor show ?thesis by (auto simp: scaling_act_def dest: monitor_act_move)
next
  case (Worker w)
  with assms worker show ?thesis by (auto simp: scaling_act_def dest!: worker_act_worker_move)
next
  case (Client w)
  with assms client show ?thesis by (auto simp: scaling_act_def dest!: client_act_move)
qed

lemma scaling_act_inv:
  assumes inv: "scaling_inv c m s pc" and act: "scaling_act e t (pc t) s = Some (k, s')"
  shows "scaling_inv c m s' (pc(t := k))"
proof -
  from inv have ok: "pool_ready (sy_pool s)" "lock_ok s pc" "spawn_ok s" "size_ok c m s" "log_ok s" "pcs_ok s pc" "runs_ok s pc"
    by (auto simp: scaling_inv_def)
  from act ok(1) show ?thesis
  proof (cases rule: scaling_who)
    case (monitor w w')
    note mv = monitor(3)
    show ?thesis
      using pool_ready_moves(1) [OF mv ok(1)] lock_ok_step [of t s pc k s'] lock_moves(1) [OF mv ok(1)]
        spawn_moves(1) [OF mv ok(3)] size_moves(1) [OF mv ok(3,4)] log_moves(1) [OF mv ok(5)]
        pcs_monitor [OF mv ok(6) monitor(1)] runs_monitor [OF mv ok(7,3,6) monitor(1)] ok(2) monitor(1,2)
      by (simp add: scaling_inv_def)
  next
    case (worker n w w')
    note mv = worker(3)
    have "spawn_ok s'" using ok(3) spawn_moves(2) [OF mv] by (simp add: spawn_ok_def)
    then show ?thesis
      using pool_ready_moves(2) [OF mv ok(1)] lock_ok_step [of t s pc k s'] lock_moves(2) [OF mv ok(1)]
        size_moves(2) [OF mv ok(4)] log_moves(2) [OF mv ok(5)] pcs_worker [OF mv ok(6) worker(1,4)]
        runs_worker [OF mv ok(7) worker(4,1)] ok(2) worker(1,2)
      by (simp add: scaling_inv_def)
  next
    case (client n w w')
    note mv = client(3)
    have "spawn_ok s'" using ok(3) spawn_moves(3) [OF mv] by (simp add: spawn_ok_def)
    then show ?thesis
      using pool_ready_moves(3) [OF mv ok(1)] lock_ok_step [of t s pc k s'] lock_moves(3) [OF mv ok(1)]
        size_moves(3) [OF mv ok(4)] log_moves(3) [OF mv ok(5)] pcs_client [OF mv ok(6) client(1)]
        runs_client [OF mv ok(7,6) client(1)] ok(2) client(1,2)
      by (simp add: scaling_inv_def)
  qed
qed

lemma scaling_unwait_parts:
  "pool_ready (sy_pool (scaling_unwait t s)) = pool_ready (sy_pool s)" "owner (scaling_unwait t s) = owner s"
  "spawn_ok (scaling_unwait t s) = spawn_ok s" "size_ok c m (scaling_unwait t s) = size_ok c m s"
  "log_ok (scaling_unwait t s) = log_ok s" "hands (scaling_unwait t s) pc = hands s pc"
  "fresh_ok (scaling_unwait t s) u k = fresh_ok s u k" "returned_ok (scaling_unwait t s) u k = returned_ok s u k"
  "notify_ok (scaling_unwait t s) k = notify_ok s k"
  "sy_popped (scaling_unwait t s) = sy_popped s" "sy_ran (scaling_unwait t s) = sy_ran s"
  by (simp_all add: scaling_unwait_def pool_ready_def spawn_ok_def size_ok_def log_ok_def hands_def runs_ok_def
      fresh_ok_def returned_ok_def notify_ok_def sync)

lemma scaling_unwait_inv: "scaling_inv c m s pc \<Longrightarrow> scaling_inv c m (scaling_unwait t s) pc"
  by (simp add: scaling_inv_def scaling_unwait_parts lock_ok_def pcs_ok_def runs_ok_def)

lemma expire_pcs:
  assumes "scaling_expire k = Some k'"
  shows "holds k' = holds k" "hand k' w = hand k w" "role_ok t k' = role_ok t k" "fresh_ok s t k \<Longrightarrow> fresh_ok s t k'"
    "returned_ok s t k' = returned_ok s t k" "notify_ok s k'"
  using assms
  by (cases k rule: scaling_expire.cases;
      auto simp: pc_simps hand_def role_ok_def fresh_ok_def returned_ok_def notify_ok_def needs_request_def)+

lemma scaling_timeout_inv:
  assumes "scaling_inv c m s pc" and "scaling_expire (pc t) = Some k"
  shows "scaling_inv c m (scaling_unwait t s) (pc(t := k))"
proof -
  note k = expire_pcs [OF assms(2)]
  have "hands s (pc(t := k)) = hands s pc"
    by (auto simp: hands_def k(2) intro!: sum.cong)
  with assms(1) show ?thesis
    by (auto simp: scaling_inv_def scaling_unwait_parts lock_ok_def runs_ok_def pcs_ok_def k)
qed

lemma ctor_fields:
  fixes p :: "'f scaling_pool"
  shows "sl_threads (fold ScalingThreadPool_AddWorkerThread is p) = sl_threads p @ is"
    and "pool_ready p \<Longrightarrow> pool_ready (fold ScalingThreadPool_AddWorkerThread is p)"
    and "sl_addOrSub (fold ScalingThreadPool_AddWorkerThread is p) = sl_addOrSub p"
    and "sl_taskQueue (fold ScalingThreadPool_AddWorkerThread is p) = sl_taskQueue p"
    and "sl_corePoolSize (fold ScalingThreadPool_AddWorkerThread is p) = sl_corePoolSize p"
    and "sl_maxThreadSize (fold ScalingThreadPool_AddWorkerThread is p) = sl_maxThreadSize p"
    and "sl_isRequestShutDown (fold ScalingThreadPool_AddWorkerThread is p) = sl_isRequestShutDown p"
    and "sl_stateGuard (fold ScalingThreadPool_AddWorkerThread is p) = sl_stateGuard p"
  by (induction "is" arbitrary: p) (auto simp: pool_ready_def)

lemma ready_state [simp]: "pool_ready (p\<lparr>sl_state := x\<rparr>) = pool_ready p"
  by (simp add: pool_ready_def)

lemma ctor_pool:
  "pool_ready (ScalingThreadPool_ctor c m)" "sl_threads (ScalingThreadPool_ctor c m) = map worker_tid [0..<c]"
  "sl_addOrSub (ScalingThreadPool_ctor c m) = ConditionVariable_ctor new_mutex"
  "sl_stateGuard (ScalingThreadPool_ctor c m) = ConditionVariable_ctor new_mutex"
  "sl_taskQueue (ScalingThreadPool_ctor c m) = BlockingQueue_ctor new_mutex []"
  "sl_corePoolSize (ScalingThreadPool_ctor c m) = c" "sl_maxThreadSize (ScalingThreadPool_ctor c m) = m"
  "sl_isRequestShutDown (ScalingThreadPool_ctor c m) = False"
  by (simp_all add: ScalingThreadPool_ctor_def ctor_fields)
     (intro ctor_fields(2), simp add: pool_ready_def BlockingQueue_ctor_def CloseableThread_ctor_def sync,
      simp add: ConditionVariable_ctor_def)

lemma start_pcs: "role_ok t (snd (scaling_start c m) t)" "holds (snd (scaling_start c m) t) = False"
    "needs_request (snd (scaling_start c m) t) = False" "\<forall>w. snd (scaling_start c m) t = Worker w \<longrightarrow> w = W_Start"
    "odd t \<Longrightarrow> snd (scaling_start c m) t = Worker W_Start"
  by (auto simp: scaling_start_def role_ok_def pc_simps needs_request_def even_iff_mod_2_eq_zero odd_iff_mod_2_eq_one)

lemma scaling_start_inv:
  assumes "scaling_start c m = (s, pc)"
  shows "scaling_inv c m s pc"
proof -
  from assms have s: "s = \<lparr>sy_pool = ScalingThreadPool_ctor c m, sy_spawned = map worker_tid [0..<c],
      sy_returned = [], sy_pushed = [], sy_popped = [], sy_ran = []\<rparr>" and pc: "pc = snd (scaling_start c m)"
    by (auto simp: scaling_start_def)
  have fresh: "fresh_ok s t (pc t)" "returned_ok s t (pc t)" for t
    using start_pcs(4) [of c m t] start_pcs(5) [where t = t and c = c and m = m] by (auto simp: s pc fresh_ok_def returned_ok_def)
  have "hand (pc t) w = {#}" for t w using start_pcs(4) [of c m t] by (auto simp: hand_def pc)
  then have "hands s pc = {#}" by (simp add: hands_def)
  moreover have "distinct (map worker_tid [0..<c])" by (simp add: distinct_map inj_on_def)
  moreover have "role_ok t (pc t) \<and> \<not> holds (pc t) \<and> \<not> needs_request (pc t)" for t
    by (simp add: pc start_pcs(1-3))
  ultimately show ?thesis
    using fresh
    by (auto simp: scaling_inv_def s ctor_pool lock_ok_def spawn_ok_def size_ok_def log_ok_def runs_ok_def pcs_ok_def
        BlockingQueue_ctor_def ConditionVariable_ctor_def notify_ok_def)
qed

definition scaling_init :: "nat \<Rightarrow> nat \<Rightarrow> ('f scaling_sys, 'f scaling_pc) config \<Rightarrow> bool" where
  "scaling_init c m cfg \<longleftrightarrow> cfg = scaling_start c m"

abbreviation scaling_reachable :: "nat \<Rightarrow> nat \<Rightarrow> 'f scaling_sys \<Rightarrow> (tid \<Rightarrow> 'f scaling_pc) \<Rightarrow> bool" where
  "scaling_reachable c m s pc \<equiv> reachable scaling_machine (scaling_init c m) (s, pc)"

lemma machine_simps [simp]:
  "act scaling_machine = scaling_act" "waiting scaling_machine = scaling_waiting"
  "unwait scaling_machine = scaling_unwait" "expire scaling_machine = scaling_expire"
  by (simp_all add: scaling_machine_def)

interpretation scaling: machine_invariant scaling_machine "scaling_init c m" "scaling_inv c m" for c m
proof (unfold_locales, goal_cases)
  case (1 s pc)
  then show ?case by (auto simp: scaling_init_def intro: scaling_start_inv)
next
  case (2 s pc t e k s')
  then show ?case by (auto intro: scaling_act_inv)
next
  case (3 s pc t)
  then show ?case by (simp add: scaling_unwait_inv)
next
  case (4 s pc t k)
  then show ?case by (auto intro: scaling_timeout_inv)
qed

text \<open>Who changes the wait sets.\<close>

definition queue_cond :: "'f scaling_sys \<Rightarrow> condition_variable" where
  "queue_cond s = bq_mutexCond (sl_taskQueue (sy_pool s))"

lemma queue_moves:
  "monitor_move t s k k' s' \<Longrightarrow> queue_cond s' = queue_cond s \<and> sl_queue (sy_pool s') = sl_queue (sy_pool s)"
  "worker_move n t s w w' s' \<Longrightarrow> queue_cond s' = queue_cond s \<and> sl_queue (sy_pool s) \<noteq> []
     \<or> sl_queue (sy_pool s') = sl_queue (sy_pool s) \<and> (queue_cond s' = queue_cond s \<or> sl_queue (sy_pool s) = [])"
  "client_move n t s c c' s' \<Longrightarrow> m_cond (queue_cond s') = []
     \<or> queue_cond s' = queue_cond s \<and> (sl_queue (sy_pool s') = sl_queue (sy_pool s) \<or> sl_queue (sy_pool s) \<noteq> [])"
    apply (erule monitor_move.cases; simp add: queue_cond_def)
   apply (erule worker_move.cases; simp add: queue_cond_def)
  apply (erule client_move.cases; simp add: queue_cond_def pushed_queue_def sync)
  done

interpretation scaling_queue: guarded_wait scaling_machine "scaling_init c m" "scaling_inv c m" queue_cond
    "\<lambda>s. sl_queue (sy_pool s) = []" for c m
proof (unfold_locales, goal_cases)
  case (1 s pc)
  then show ?case
    by (auto simp: scaling_init_def scaling_start_def queue_cond_def ctor_pool BlockingQueue_ctor_def ConditionVariable_ctor_def)
next
  case (2 s pc t e k s')
  then have act: "scaling_act e t (pc t) s = Some (k, s')" "pool_ready (sy_pool s)" by (auto simp: scaling_inv_def)
  then show ?case
    by (cases rule: scaling_who) (use queue_moves in \<open>fastforce+\<close>)
next
  case (3 s pc t)
  then show ?case by (auto simp: scaling_unwait_def queue_cond_def sync)
qed

definition state_cond :: "'f scaling_sys \<Rightarrow> condition_variable" where
  "state_cond s = sl_stateGuard (sy_pool s)"

definition waking :: "'f scaling_pc \<Rightarrow> bool" where
  "waking k \<longleftrightarrow> k = Worker (W_Finish S_NotifyShut)"

lemma state_moves:
  "monitor_move t s k k' s' \<Longrightarrow> state_cond s' = state_cond s \<and> sl_state (sy_pool s') = sl_state (sy_pool s)"
  "worker_move n t s w w' s' \<Longrightarrow> notify_ok s (Worker w) \<Longrightarrow> m_cond (state_cond s') = [] \<or> state_cond s' = state_cond s \<and>
     (sl_state (sy_pool s') = sl_state (sy_pool s) \<or> waking (Worker w')) \<and> \<not> waking (Worker w)"
  "client_move n t s c c' s' \<Longrightarrow> state_cond s' = state_cond s \<and>
     (sl_state (sy_pool s') = Scaling_SHUTDOWN \<longrightarrow> sl_state (sy_pool s) = Scaling_SHUTDOWN)
     \<or> sl_state (sy_pool s') \<noteq> Scaling_SHUTDOWN"
    apply (erule monitor_move.cases; simp add: state_cond_def)
   apply (erule worker_move.cases; auto simp: state_cond_def waking_def notify_ok_def needs_request_def sync)
  apply (erule client_move.cases; simp add: state_cond_def)
  done

interpretation scaling_shut: finish_handshake scaling_machine "scaling_init c m" "scaling_inv c m" state_cond
    "\<lambda>_. True" "\<lambda>s. sl_state (sy_pool s) = Scaling_SHUTDOWN" waking for c m
proof (unfold_locales, goal_cases)
  case (1 s pc)
  then show ?case by (auto simp: scaling_init_def scaling_start_def state_cond_def ctor_pool ConditionVariable_ctor_def)
next
  case (2 s pc t e k s')
  then have act: "scaling_act e t (pc t) s = Some (k, s')" "pool_ready (sy_pool s)" "notify_ok s (pc t)"
    by (auto simp: scaling_inv_def pcs_ok_def)
  from act(1,2) show ?case
    by (cases rule: scaling_who) (use act(3) state_moves in \<open>fastforce simp: waking_def\<close>)+
next
  case (3 s pc t)
  then show ?case by (auto simp: scaling_unwait_def state_cond_def sync)
next
  case (4 k k')
  then show ?case by (cases k rule: scaling_expire.cases) (auto simp: waking_def)
qed

text \<open>Who sleeps where: the monitor on the guard, workers on the queue, clients in \<open>ShutDownNow\<close>.\<close>

definition sleepers_ok :: "'f scaling_sys \<Rightarrow> (tid \<Rightarrow> 'f scaling_pc) \<Rightarrow> bool" where
  "sleepers_ok s pc \<longleftrightarrow> (\<forall>t. (cv_waiting (state_cond s) t \<longrightarrow> pc t = Client U_WaitShut) \<and>
     (cv_waiting (sy_lock s) t \<longrightarrow> pc t = Monitor M_Wait) \<and> (cv_waiting (queue_cond s) t \<longrightarrow> pc t = Worker W_Get))"

lemma m_cond_Unlock [simp]: "m_cond (CV_Unlock c) = m_cond c"
  by (simp add: CV_Unlock_def)

lemma woken_subset: "set (m_cond (woken n p)) \<subseteq> set (m_cond (sl_addOrSub p))"
  using m_cond_notify_subset by (simp add: woken_def)

definition sleeps_at :: "tid \<Rightarrow> bool \<Rightarrow> condition_variable \<Rightarrow> condition_variable \<Rightarrow> bool" where
  "sleeps_at t b c c' \<longleftrightarrow> (\<forall>u. cv_waiting c' u \<longrightarrow> cv_waiting c u \<or> (u = t \<and> b))"

lemma sleep_moves:
  "monitor_move t s k k' s' \<Longrightarrow> sleeps_at t False (state_cond s) (state_cond s') \<and>
     sleeps_at t (k' = M_Wait) (sy_lock s) (sy_lock s') \<and> sleeps_at t False (queue_cond s) (queue_cond s')"
  "worker_move n t s w w' s' \<Longrightarrow> sleeps_at t False (state_cond s) (state_cond s') \<and>
     sleeps_at t False (sy_lock s) (sy_lock s') \<and> sleeps_at t (w' = W_Get) (queue_cond s) (queue_cond s')"
  "client_move n t s c c' s' \<Longrightarrow> sleeps_at t (c' = U_WaitShut) (state_cond s) (state_cond s') \<and>
     sleeps_at t False (sy_lock s) (sy_lock s') \<and> sleeps_at t False (queue_cond s) (queue_cond s')"
    apply (erule monitor_move.cases; simp add: sleeps_at_def state_cond_def queue_cond_def sync)
   apply (erule worker_move.cases; use woken_subset in \<open>fastforce simp: sleeps_at_def state_cond_def queue_cond_def sync\<close>)
  apply (erule client_move.cases; use woken_subset in \<open>fastforce simp: sleeps_at_def state_cond_def queue_cond_def sync pushed_queue_def\<close>)
  done

interpretation scaling_sleep: machine_invariant scaling_machine "scaling_init c m"
    "\<lambda>s pc. scaling_inv c m s pc \<and> sleepers_ok s pc" for c m
proof (unfold_locales, goal_cases)
  case (1 s pc)
  then show ?case
    by (auto simp: scaling.init_inv) (auto simp: scaling_init_def scaling_start_def sleepers_ok_def state_cond_def queue_cond_def
        ctor_pool BlockingQueue_ctor_def ConditionVariable_ctor_def sync)
next
  case (2 s pc t e k s')
  then have act: "scaling_act e t (pc t) s = Some (k, s')" and ready: "pool_ready (sy_pool s)" and inv: "scaling_inv c m s pc"
    and sl: "sleepers_ok s pc" and awake: "\<not> scaling_waiting s t" by (auto simp: scaling_inv_def)
  from act ready have "sleeps_at t (k = Client U_WaitShut) (state_cond s) (state_cond s') \<and>
      sleeps_at t (k = Monitor M_Wait) (sy_lock s) (sy_lock s') \<and> sleeps_at t (k = Worker W_Get) (queue_cond s) (queue_cond s')"
    by (cases rule: scaling_who) (use sleep_moves in \<open>fastforce+\<close>)
  then have "sleepers_ok s' (pc(t := k))"
    using sl awake unfolding sleepers_ok_def sleeps_at_def scaling_waiting_def queue_cond_def state_cond_def
    by (metis fun_upd_apply)
  with scaling_act_inv [OF inv act] show ?case by simp
next
  case (3 s pc t)
  then show ?case
    by (auto simp: scaling_unwait_inv) (auto simp: sleepers_ok_def scaling_unwait_def state_cond_def queue_cond_def sync)
next
  case (4 s pc t k)
  then show ?case
    by (auto intro: scaling_timeout_inv) (auto simp: sleepers_ok_def scaling_unwait_def state_cond_def queue_cond_def sync)
qed

section \<open>The pool as a task pool\<close>

text \<open>
  What waits are the tasks of the queue, oldest first.  The tasks of a log are those its entries run;
  the entries that end a worker run nothing.
\<close>

definition tasks_in :: "'f pool_task list \<Rightarrow> 'f list" where
  "tasks_in xs = concat (map DoRun xs)"

definition scaling_abs :: "'f scaling_sys \<Rightarrow> (tid \<Rightarrow> 'f scaling_pc) \<Rightarrow> ('f list, 'f) task_pool" where
  "scaling_abs s pc = \<lparr>tk_waiting = tasks_in (sl_queue (sy_pool s)), tk_running = hands s pc\<rparr>"

lemma DoRun_cases: "DoRun x = [] \<or> (\<exists>f. DoRun x = [f])"
  by (cases x) auto

lemma tasks_in_simps [simp]:
  "tasks_in [] = []" "tasks_in (x # xs) = DoRun x @ tasks_in xs" "tasks_in (xs @ ys) = tasks_in xs @ tasks_in ys"
  by (simp_all add: tasks_in_def)

lemma worker_pool_effect:
  assumes "worker_move n t s k k' s'"
  shows "tasks_in (sl_queue (sy_pool s')) = tasks_in (sl_queue (sy_pool s)) \<and> sy_ran s' = sy_ran s \<and>
      hand (Worker k') (sl_workers (sy_pool s') t) = hand (Worker k) (sl_workers (sy_pool s) t)
    \<or> (\<exists>f. fifo_take (tasks_in (sl_queue (sy_pool s))) f (tasks_in (sl_queue (sy_pool s'))) \<and> sy_ran s' = sy_ran s \<and>
        hand (Worker k') (sl_workers (sy_pool s') t) = add_mset f (hand (Worker k) (sl_workers (sy_pool s) t)))
    \<or> (\<exists>f. tasks_in (sl_queue (sy_pool s')) = tasks_in (sl_queue (sy_pool s)) \<and> sy_ran s' = sy_ran s @ [f] \<and>
        hand (Worker k) (sl_workers (sy_pool s) t) = add_mset f (hand (Worker k') (sl_workers (sy_pool s') t)))"
    and "sy_pushed s' = sy_pushed s"
  using assms
  by (cases; use DoRun_cases [of "the (wt_runningTask (sl_workers (sy_pool s) t))"] in \<open>auto simp: fifo_take_def hand_def running_def\<close>)
    (use assms in \<open>cases; simp\<close>)

lemma client_pool_effect:
  "client_move n t s c c' s' \<Longrightarrow>
     tasks_in (sl_queue (sy_pool s')) = tasks_in (sl_queue (sy_pool s)) \<and> tasks_in (sy_pushed s') = tasks_in (sy_pushed s) \<or>
     (\<exists>f. tasks_in (sl_queue (sy_pool s')) = fifo_put f (tasks_in (sl_queue (sy_pool s))) \<and>
        tasks_in (sy_pushed s') = tasks_in (sy_pushed s) @ [f])"
proof (erule client_move.cases, goal_cases)
  case (5 x)
  with DoRun_cases [of x] show ?case by (auto simp: fifo_put_def)
qed (simp_all add: fifo_put_def)

lemma scaling_abs_act:
  assumes inv: "scaling_inv c m s pc" and act: "scaling_act e t (pc t) s = Some (k, s')"
  shows "\<exists>tr. pool_trace fifo_put fifo_take (scaling_abs s pc) tr (scaling_abs s' (pc(t := k))) \<and> length tr \<le> 1 \<and>
    tasks_in (sy_pushed s') = tasks_in (sy_pushed s) @ submissions tr \<and> sy_ran s' = sy_ran s @ finishes tr"
proof -
  from inv have ready: "pool_ready (sy_pool s)" and sp: "spawn_ok s" and pcs: "pcs_ok s pc" by (auto simp: scaling_inv_def)
  from act ready show ?thesis
    unfolding scaling_abs_def
  proof (cases rule: scaling_who)
    case (monitor w w')
    have "t = 0" using pcs [unfolded pcs_ok_def, rule_format, of t] monitor(1) by (simp add: role_ok_def)
    with spawn_odd [OF spawn_moves(1) [OF monitor(3) sp]] have "t \<notin> set (sy_spawned s')" by auto
    then have "hands s' (pc(t := k)) = hands s' pc" by (intro hands_frame) auto
    moreover have "hands s' pc = hands s pc"
      using monitor_frame [OF monitor(3)] hands_spawn [OF sp pcs] hands_frame [of s' s pc pc] by auto
    moreover have "sy_pushed s' = sy_pushed s" using monitor(3) by cases simp_all
    ultimately show "\<exists>tr. pool_trace fifo_put fifo_take \<lparr>tk_waiting = tasks_in (sl_queue (sy_pool s)), tk_running = hands s pc\<rparr> tr
        \<lparr>tk_waiting = tasks_in (sl_queue (sy_pool s')), tk_running = hands s' (pc(t := k))\<rparr> \<and> length tr \<le> 1 \<and>
        tasks_in (sy_pushed s') = tasks_in (sy_pushed s) @ submissions tr \<and> sy_ran s' = sy_ran s @ finishes tr"
      using monitor_frame [OF monitor(3)] queue_moves(1) [OF monitor(3)] by (intro pool_label_cases) simp
  next
    case (worker n w w')
    from worker_pool_effect [OF worker(3)] hands_worker [of n t s w w' s' pc, OF worker(3,1,4)]
    show "\<exists>tr. pool_trace fifo_put fifo_take \<lparr>tk_waiting = tasks_in (sl_queue (sy_pool s)), tk_running = hands s pc\<rparr> tr
        \<lparr>tk_waiting = tasks_in (sl_queue (sy_pool s')), tk_running = hands s' (pc(t := k))\<rparr> \<and> length tr \<le> 1 \<and>
        tasks_in (sy_pushed s') = tasks_in (sy_pushed s) @ submissions tr \<and> sy_ran s' = sy_ran s @ finishes tr"
      unfolding worker(2) by (intro pool_label_cases) auto
  next
    case (client n d d')
    have "t \<notin> set (sy_spawned s)"
      using pcs [unfolded pcs_ok_def, rule_format, of t] client(1) by (auto simp: fresh_ok_def split: if_splits)
    then have "hands s' (pc(t := k)) = hands s pc" using client_frame [OF client(3)] by (intro hands_frame) auto
    with client_pool_effect [OF client(3)] client_frame [OF client(3)]
    show "\<exists>tr. pool_trace fifo_put fifo_take \<lparr>tk_waiting = tasks_in (sl_queue (sy_pool s)), tk_running = hands s pc\<rparr> tr
        \<lparr>tk_waiting = tasks_in (sl_queue (sy_pool s')), tk_running = hands s' (pc(t := k))\<rparr> \<and> length tr \<le> 1 \<and>
        tasks_in (sy_pushed s') = tasks_in (sy_pushed s) @ submissions tr \<and> sy_ran s' = sy_ran s @ finishes tr"
      by (intro pool_label_cases) auto
  qed
qed

interpretation scaling_spec: task_pool_refinement scaling_machine "scaling_init c m" "scaling_inv c m"
    fifo_put fifo_take "[]" scaling_abs "\<lambda>s. tasks_in (sy_pushed s)" sy_ran for c m
proof (unfold_locales, goal_cases)
  case (1 s pc)
  then have "pc = snd (scaling_start c m)" by (metis scaling_init_def snd_conv)
  with start_pcs(4) [of c m] have "hand (pc t) w = {#}" for t w by (auto simp: hand_def)
  with 1 show ?case
    by (auto simp: scaling_init_def scaling_start_def scaling_abs_def hands_def ctor_pool BlockingQueue_ctor_def)
next
  case (2 s pc t e k s')
  then show ?case using scaling_abs_act [of c m s pc e t k s'] by simp
next
  case (3 s pc t)
  then show ?case by (simp add: scaling_abs_def scaling_unwait_parts) (simp add: scaling_unwait_def)
next
  case (4 s pc t k)
  then have "hands s (pc(t := k)) = hands s pc"
    by (auto simp: hands_def expire_pcs(2) intro!: sum.cong)
  then show ?case by (simp add: scaling_abs_def scaling_unwait_parts) (simp add: scaling_unwait_def)
qed

section \<open>The monitor's wake-ups\<close>

text \<open>
  \<open>notifies_monitor k\<close>: a thread at \<open>k\<close> has changed, or is changing, what the monitor waits for, and has
  still to notify.
\<close>

definition notifies_monitor :: "'f scaling_pc \<Rightarrow> bool" where
  "notifies_monitor k \<longleftrightarrow> (case k of
     Worker w \<Rightarrow> w = W_Finish S_NotifySub
   | Client c \<Rightarrow> (case c of U_NotifyAdd \<Rightarrow> True | U_PushEnds _ _ \<Rightarrow> True | U_CloseMonitor _ \<Rightarrow> True | U_PushSub0 _ \<Rightarrow> True
       | U_NotifySub0 _ \<Rightarrow> True | _ \<Rightarrow> False)
   | Monitor _ \<Rightarrow> False)"

definition monitor_wait_ok :: "'f scaling_sys \<Rightarrow> (tid \<Rightarrow> 'f scaling_pc) \<Rightarrow> bool" where
  "monitor_wait_ok s pc \<longleftrightarrow> m_cond (sy_lock s) \<in> {[], [0]} \<and>
     (m_cond (sy_lock s) \<noteq> [] \<and> wants_monitor (sy_pool s) \<longrightarrow> (\<exists>t. notifies_monitor (pc t)))"

lemma notifies_worker: "notifies_monitor (Worker w) \<longleftrightarrow> w = W_Finish S_NotifySub"
  by (simp add: notifies_monitor_def)

lemma CV_Notify_single: "m_cond c \<in> {[], [x]} \<Longrightarrow> m_cond (CV_Notify n c) = []"
  by (auto simp: CV_Notify_def)

lemma wake_moves:
  "monitor_move t s k k' s' \<Longrightarrow> m_cond (sy_lock s) = [] \<Longrightarrow>
     m_cond (sy_lock s') = [] \<or> m_cond (sy_lock s') = [t] \<and> \<not> wants_monitor (sy_pool s')"
  "worker_move n t s w w' s' \<Longrightarrow> m_cond (sy_lock s) \<in> {[], [x]} \<Longrightarrow> wants_monitor (sy_pool s') \<Longrightarrow> m_cond (sy_lock s') = [] \<or>
     m_cond (sy_lock s') = m_cond (sy_lock s) \<and> (w' = W_Finish S_NotifySub \<or> wants_monitor (sy_pool s) \<and> w \<noteq> W_Finish S_NotifySub)"
  "worker_move n t s w w' s' \<Longrightarrow> m_cond (sy_lock s) \<in> {[], [x]} \<Longrightarrow> m_cond (sy_lock s') \<in> {[], [x]}"
  "client_move n t s c c' s' \<Longrightarrow> m_cond (sy_lock s) \<in> {[], [x]} \<Longrightarrow> wants_monitor (sy_pool s') \<Longrightarrow> m_cond (sy_lock s') = [] \<or>
     m_cond (sy_lock s') = m_cond (sy_lock s) \<and>
       (notifies_monitor (Client c') \<or> wants_monitor (sy_pool s) \<and> \<not> notifies_monitor (Client c))"
  "client_move n t s c c' s' \<Longrightarrow> m_cond (sy_lock s) \<in> {[], [x]} \<Longrightarrow> m_cond (sy_lock s') \<in> {[], [x]}"
proof -
  show "monitor_move t s k k' s' \<Longrightarrow> m_cond (sy_lock s) = [] \<Longrightarrow>
      m_cond (sy_lock s') = [] \<or> m_cond (sy_lock s') = [t] \<and> \<not> wants_monitor (sy_pool s')"
    by (erule monitor_move.cases; auto simp: wants_monitor_def sync)
  show "worker_move n t s w w' s' \<Longrightarrow> m_cond (sy_lock s) \<in> {[], [x]} \<Longrightarrow> wants_monitor (sy_pool s') \<Longrightarrow> m_cond (sy_lock s') = [] \<or>
      m_cond (sy_lock s') = m_cond (sy_lock s) \<and> (w' = W_Finish S_NotifySub \<or> wants_monitor (sy_pool s) \<and> w \<noteq> W_Finish S_NotifySub)"
    by (erule worker_move.cases; use CV_Notify_single [of "sy_lock s" x] in \<open>auto simp: wants_monitor_def woken_def\<close>)
  show "worker_move n t s w w' s' \<Longrightarrow> m_cond (sy_lock s) \<in> {[], [x]} \<Longrightarrow> m_cond (sy_lock s') \<in> {[], [x]}"
    by (erule worker_move.cases; use CV_Notify_single [of "sy_lock s" x] in \<open>auto simp: woken_def\<close>)
  show "client_move n t s c c' s' \<Longrightarrow> m_cond (sy_lock s) \<in> {[], [x]} \<Longrightarrow> wants_monitor (sy_pool s') \<Longrightarrow> m_cond (sy_lock s') = [] \<or>
      m_cond (sy_lock s') = m_cond (sy_lock s) \<and>
        (notifies_monitor (Client c') \<or> wants_monitor (sy_pool s) \<and> \<not> notifies_monitor (Client c))"
    by (erule client_move.cases; use CV_Notify_single [of "sy_lock s" x] in
        \<open>auto simp: wants_monitor_def woken_def notifies_monitor_def ready_client_def shut_wait_def sync split: client_pc.splits\<close>)
  show "client_move n t s c c' s' \<Longrightarrow> m_cond (sy_lock s) \<in> {[], [x]} \<Longrightarrow> m_cond (sy_lock s') \<in> {[], [x]}"
    by (erule client_move.cases; use CV_Notify_single [of "sy_lock s" x] in \<open>auto simp: woken_def sync\<close>)
qed

lemma monitor_wait_act:
  assumes inv: "scaling_inv c m s pc" and wait: "monitor_wait_ok s pc" and act: "scaling_act e t (pc t) s = Some (k, s')"
    and awake: "\<not> scaling_waiting s t"
  shows "monitor_wait_ok s' (pc(t := k))"
proof -
  from inv have ready: "pool_ready (sy_pool s)" and role: "role_ok t (pc t)" by (auto simp: scaling_inv_def pcs_ok_def)
  have two: "m_cond (sy_lock s) \<in> {[], [0]}" using wait by (simp add: monitor_wait_ok_def)
  have keep: "\<exists>u. notifies_monitor ((pc(t := k)) u)"
    if "m_cond (sy_lock s) \<noteq> []" "wants_monitor (sy_pool s)" "\<not> notifies_monitor (pc t)"
    using wait that unfolding monitor_wait_ok_def by (metis fun_upd_other)
  from act ready show ?thesis
  proof (cases rule: scaling_who)
    case (monitor w w')
    then have "m_cond (sy_lock s) = []" "t = 0" using role awake two by (auto simp: role_ok_def scaling_waiting_def sync)
    with wake_moves(1) [OF monitor(3)] show ?thesis by (auto simp: monitor_wait_ok_def)
  next
    case (worker n w w')
    have "\<exists>u. notifies_monitor ((pc(t := k)) u)" if "m_cond (sy_lock s') \<noteq> []" "wants_monitor (sy_pool s')"
      using wake_moves(2) [OF worker(3) two that(2)] that(1) keep worker(1,2)
      by (metis notifies_worker fun_upd_same)
    then show ?thesis using wake_moves(3) [OF worker(3) two] by (auto simp: monitor_wait_ok_def)
  next
    case (client n d d')
    have "\<exists>u. notifies_monitor ((pc(t := k)) u)" if "m_cond (sy_lock s') \<noteq> []" "wants_monitor (sy_pool s')"
      using wake_moves(4) [OF client(3) two that(2)] that(1) keep client(1,2) by (metis fun_upd_same)
    then show ?thesis using wake_moves(5) [OF client(3) two] by (auto simp: monitor_wait_ok_def)
  qed
qed

lemma monitor_wait_unwait: "monitor_wait_ok s pc \<Longrightarrow> monitor_wait_ok (scaling_unwait t s) pc"
  by (cases "t = 0") (auto simp: monitor_wait_ok_def scaling_unwait_def wants_monitor_def sync)

lemma monitor_wait_pc:
  assumes "monitor_wait_ok s pc" and "\<not> notifies_monitor (pc t)"
  shows "monitor_wait_ok s (pc(t := k))"
  using assms unfolding monitor_wait_ok_def by (metis fun_upd_other)

interpretation scaling_monitor: machine_invariant scaling_machine "scaling_init c m"
    "\<lambda>s pc. scaling_inv c m s pc \<and> monitor_wait_ok s pc" for c m
proof (unfold_locales, goal_cases)
  case (1 s pc)
  then show ?case
    by (auto simp: scaling.init_inv) (auto simp: scaling_init_def scaling_start_def monitor_wait_ok_def ctor_pool ConditionVariable_ctor_def)
next
  case (2 s pc t e k s')
  then show ?case using monitor_wait_act [of c m s pc e t k s'] scaling_act_inv [of c m s pc e t k s'] by simp
next
  case (3 s pc t)
  then show ?case by (simp add: scaling_unwait_inv monitor_wait_unwait)
next
  case (4 s pc t k)
  then have ex: "scaling_expire (pc t) = Some k" by simp
  then have "\<not> notifies_monitor (pc t)" by (cases "pc t" rule: scaling_expire.cases) (auto simp: notifies_monitor_def)
  with 4 ex scaling_timeout_inv [of c m s pc t k] show ?case by (simp add: monitor_wait_unwait monitor_wait_pc)
qed

section \<open>Properties of every pool\<close>

text \<open>
  C10: the scaling pool refines the task pool: every run shows a sequence of submissions, takes and
  ends of tasks that the abstract pool, a queue, has too, from the empty pool on and from any state
  on.  The submissions of the sequence are the tasks the clients pushed, its takes the tasks popped
  and its ends the tasks that ran, each list in its order; so no task runs that was not submitted,
  none is run again, and tasks are taken in the order of their submission.
\<close>

theorem ScalingThreadPool_refines_task_pool:
  assumes "scaling_reachable c m s pc" and "reachable scaling_machine (\<lambda>cfg. cfg = (s, pc)) (s', pc')"
  shows "\<exists>tr tr'. pool_trace fifo_put fifo_take \<lparr>tk_waiting = [], tk_running = {#}\<rparr> tr (scaling_abs s pc) \<and>
    pool_trace fifo_put fifo_take (scaling_abs s pc) tr' (scaling_abs s' pc') \<and>
    submissions tr = tasks_in (sy_pushed s) \<and> takes tr = tasks_in (sy_popped s) \<and> finishes tr = sy_ran s \<and>
    submissions (tr @ tr') = tasks_in (sy_pushed s') \<and> takes (tr @ tr') = tasks_in (sy_popped s') \<and> finishes (tr @ tr') = sy_ran s'"
proof -
  have popped: "takes tr = tasks_in (sy_popped u)"
    if "scaling_inv c m u k" "pool_trace fifo_put fifo_take \<lparr>tk_waiting = [], tk_running = {#}\<rparr> tr (scaling_abs u k)"
      "submissions tr = tasks_in (sy_pushed u)" for tr u k
    using that fifo_trace [OF that(2)] by (simp add: scaling_inv_def log_ok_def scaling_abs_def)
  have inv: "scaling_inv c m s pc" by (rule scaling.reachable_inv [OF assms(1)])
  from scaling_spec.abs_future [OF assms(2) inv] have inv': "scaling_inv c m s' pc'"
    and run: "pool_run fifo_put fifo_take (scaling_abs s pc) (tasks_in (sy_pushed s)) (sy_ran s)
      (scaling_abs s' pc') (tasks_in (sy_pushed s')) (sy_ran s')" by auto
  obtain tr tr' where tr: "pool_trace fifo_put fifo_take \<lparr>tk_waiting = [], tk_running = {#}\<rparr> tr (scaling_abs s pc)"
    "pool_trace fifo_put fifo_take (scaling_abs s pc) tr' (scaling_abs s' pc')"
    "submissions tr = tasks_in (sy_pushed s)" "finishes tr = sy_ran s"
    "submissions (tr @ tr') = tasks_in (sy_pushed s')" "finishes (tr @ tr') = sy_ran s'"
    using pool_runs_traces [OF scaling_spec.abs_reachable [OF assms(1)] run] by blast
  have "takes tr = tasks_in (sy_popped s)" "takes (tr @ tr') = tasks_in (sy_popped s')"
    by (rule popped [OF inv tr(1,3)], rule popped [OF inv' pool_trace_append [OF tr(1,2)] tr(5)])
  with tr show ?thesis by blast
qed

text \<open>
  C20: the pool never has more threads than \<open>max minThreadSize maxThreadSize\<close>, and its map holds
  each thread once.
\<close>

theorem ScalingThreadPool_size_bounded:
  assumes "scaling_reachable c m s pc"
  shows "distinct (sl_threads (sy_pool s)) \<and> length (sl_threads (sy_pool s)) \<le> max c m"
  using scaling.reachable_inv [OF assms] by (simp add: scaling_inv_def size_ok_def)

text \<open>
  C2: tasks leave the queue in the order in which they were added, each runs at most once, nothing
  else runs, and a task that has left the queue has run or is in the hands of a worker.
\<close>

theorem ScalingThreadPool_tasks_conserved:
  assumes "scaling_reachable c m s pc"
  shows "sy_pushed s = sy_popped s @ sl_queue (sy_pool s) \<and>
    mset (concat (map DoRun (sy_popped s))) = mset (sy_ran s) +
      (\<Sum>t \<in> set (sy_spawned s). if pc t = Worker W_Run then mset (running t s) else {#})"
  using scaling.reachable_inv [OF assms]
  by (simp add: scaling_inv_def log_ok_def runs_ok_def hands_def hand_def running_def cong: if_cong)

text \<open>
  C29: no wake-up of a worker is lost: while the queue is not empty no worker sleeps, and a worker
  inside \<open>PopTimeWait\<close> takes the first task with its next action.
\<close>

theorem ScalingThreadPool_worker_progress:
  assumes "scaling_reachable c m s pc" and "sl_queue (sy_pool s) = x # xs" and "pc t = Worker W_Get"
    and "t \<in> set (sy_spawned s)"
  shows "m_cond (queue_cond s) = [] \<and>
    (\<exists>s'. mstep scaling_machine (Act t (L_Step n sp)) (s, pc) =
       Some (s', pc(t := Worker (case x of EndTask \<Rightarrow> W_Finish S_Stop | FunctorTask f \<Rightarrow> W_Run)))
     \<and> sl_queue (sy_pool s') = xs)"
proof -
  have empty: "m_cond (queue_cond s) = []"
    using scaling_queue.no_lost_wakeup [OF assms(1)] assms(2) by auto
  have "cv_free (bq_mutexCond (sl_taskQueue (sy_pool s)))"
    using scaling.reachable_inv [OF assms(1)] by (simp add: scaling_inv_def pool_ready_def)
  then show ?thesis
    using assms(2-4) empty scaling_sleep.reachable_inv [OF assms(1)]
    by (auto simp: sleepers_ok_def state_cond_def scaling_waiting_def queue_cond_def scaling_act_def worker_act_def
        worker_work_def worker_op_defs sync split: pool_task.splits)
qed

text \<open>
  C31: no wake-up of the monitor is lost: when the queue is too long or a worker is to be removed, and
  no thread has still to notify the monitor, then the monitor does not sleep; if it is inside its wait
  and the guard is free, it goes on with its next action.
\<close>

theorem ScalingThreadPool_monitor_wakes:
  assumes "scaling_reachable c m s pc" and "wants_monitor (sy_pool s)" and "\<forall>t. \<not> notifies_monitor (pc t)"
  shows "m_cond (sy_lock s) = [] \<and> (pc 0 = Monitor M_Wait \<and> cv_free (sy_lock s) \<longrightarrow>
    (\<exists>s'. mstep scaling_machine (Act 0 (L_Step n sp)) (s, pc) = Some (s', pc(0 := Monitor M_Inside))))"
proof -
  have empty: "m_cond (sy_lock s) = []"
    using scaling_monitor.reachable_inv [OF assms(1)] assms(2,3) by (auto simp: monitor_wait_ok_def)
  have ready: "pool_ready (sy_pool s)" using scaling.reachable_inv [OF assms(1)] by (simp add: scaling_inv_def)
  have awake: "\<not> scaling_waiting s 0" if "pc 0 = Monitor M_Wait"
    using that scaling_sleep.reachable_inv [OF assms(1)] empty
    by (auto simp: scaling_waiting_def sleepers_ok_def state_cond_def queue_cond_def sync)
  have "scaling_act (L_Step n sp) 0 (Monitor M_Wait) s = Some (Monitor M_Inside, upd_lock (cv_hold 0) s)" if "cv_free (sy_lock s)"
    using that assms(2) scaling_ops(2) [OF ready, of 0]
    by (simp add: scaling_act_def monitor_act_def ScalingThreadPool_ContraryJudgeFunc_def sync)
  with empty awake show ?thesis by auto
qed

text \<open>
  C33: no wake-up of \<open>ShutDownNow\<close> is lost: when the pool is SHUTDOWN and no worker is about to
  notify, nobody sleeps in \<open>ShutDownNow\<close>, and every thread that is inside its wait returns with its
  next action.
\<close>

theorem ScalingThreadPool_ShutDownNow_wakes:
  assumes "scaling_reachable c m s pc" and "sl_state (sy_pool s) = Scaling_SHUTDOWN"
    and "\<forall>u. pc u \<noteq> Worker (W_Finish S_NotifyShut)" and "pc t = Client U_WaitShut"
  shows "m_cond (sl_stateGuard (sy_pool s)) = [] \<and>
    mstep scaling_machine (Act t (L_Step n sp)) (s, pc) = Some (s, pc(t := Client (U_ShutReturned True)))"
proof -
  have empty: "m_cond (sl_stateGuard (sy_pool s)) = []"
    using scaling_shut.no_waiter_left [OF assms(1,2)] assms(3) by (simp add: waking_def state_cond_def)
  have "cv_free (sl_stateGuard (sy_pool s))"
    using scaling.reachable_inv [OF assms(1)] by (simp add: scaling_inv_def pool_ready_def)
  then show ?thesis
    using assms(2-4) empty scaling_sleep.reachable_inv [OF assms(1)]
    by (auto simp: sleepers_ok_def scaling_waiting_def queue_cond_def scaling_act_def client_act_def
        ScalingThreadPool_DoIsShutDown_def sync)
qed

section \<open>The monitor joins under the guard\<close>

text \<open>
  \<open>SubWorkerThread\<close> joins a worker while the monitor holds \<open>m_addOrSubThreadNumGuard\<close>, and
  that worker takes the same guard before it returns, in order to notify the monitor.
\<close>

definition join_deadlock :: "nat \<Rightarrow> nat \<Rightarrow> tid \<Rightarrow> tid list \<Rightarrow> 'f scaling_sys \<Rightarrow> (tid \<Rightarrow> 'f scaling_pc) \<Rightarrow> bool" where
  "join_deadlock c m w ids s pc \<longleftrightarrow> scaling_inv c m s pc \<and> pc 0 = Monitor (M_Sub (w # ids)) \<and>
     w \<in> set (sl_threads (sy_pool s)) \<and> pc w = Worker (W_Finish S_NotifySub)"

lemma threads_moves:
  "worker_move n t s k k' s' \<Longrightarrow> sl_threads (sy_pool s') = sl_threads (sy_pool s)"
  "client_move n t s d d' s' \<Longrightarrow> sl_threads (sy_pool s') = sl_threads (sy_pool s)"
  by (erule worker_move.cases client_move.cases; simp)+

lemma join_deadlock_act:
  assumes dead: "join_deadlock c m w ids s pc" and act: "scaling_act e t (pc t) s = Some (k, s')"
  shows "join_deadlock c m w ids s' (pc(t := k))"
proof -
  from dead have inv: "scaling_inv c m s pc" and pc: "pc 0 = Monitor (M_Sub (w # ids))"
    and w: "w \<in> set (sl_threads (sy_pool s))" "pc w = Worker (W_Finish S_NotifySub)"
    by (auto simp: join_deadlock_def)
  from inv have ready: "pool_ready (sy_pool s)" and locks: "lock_ok s pc" and pcs: "pcs_ok s pc"
    by (auto simp: scaling_inv_def)
  have "owner s = Some 0" using locks pc holds_simps(8) by (metis lock_ok_def)
  then have taken: "\<not> cv_free (sy_lock s)" by (auto simp: cv_free_def)
  have alive: "w \<notin> set (sy_returned s)" using pcs [unfolded pcs_ok_def, rule_format, of w] w(2) by (auto simp: returned_ok_def)
  have inv': "scaling_inv c m s' (pc(t := k))" by (rule scaling_act_inv [OF inv act])
  have "t \<noteq> 0 \<and> t \<noteq> w \<and> sl_threads (sy_pool s') = sl_threads (sy_pool s)"
    using act ready
  proof (cases rule: scaling_who)
    case (monitor u u')
    have "t = 0" using pcs [unfolded pcs_ok_def, rule_format, of t] monitor(1) by (simp add: role_ok_def)
    with monitor pc w(1) alive have False by (auto elim: monitor_move.cases)
    then show ?thesis ..
  next
    case (worker n u u')
    have "t \<noteq> w" using worker(1,3) w(2) taken by (auto elim: worker_move.cases)
    with worker(1) pc threads_moves(1) [OF worker(3)] show ?thesis by (cases "t = 0") auto
  next
    case (client n u u')
    with pc w(2) threads_moves(2) [OF client(3)] show ?thesis by (cases "t = 0") auto
  qed
  with inv' pc w show ?thesis by (simp add: join_deadlock_def)
qed

lemma join_deadlock_future:
  "machine_invariant scaling_machine (\<lambda>cfg. cfg = (s0, pc0) \<and> join_deadlock c m w ids s0 pc0) (join_deadlock c m w ids)"
proof (unfold_locales, goal_cases)
  case (1 s pc)
  then show ?case by auto
next
  case (2 s pc t e k s')
  then show ?case by (auto intro: join_deadlock_act)
next
  case (3 s pc t)
  then show ?case by (auto simp: join_deadlock_def scaling_unwait_inv) (simp_all add: scaling_unwait_def)
next
  case (4 s pc t k)
  then have "t \<noteq> 0 \<and> t \<noteq> w" by (cases "t = 0"; cases "t = w"; simp add: join_deadlock_def)
  with 4 show ?case
    by (auto simp: join_deadlock_def intro: scaling_timeout_inv) (simp_all add: scaling_unwait_def)
qed

text \<open>
  C30: the deadlock of the pool.  When the monitor joins a worker that has announced its end but has
  not notified yet, neither of them moves in any future: the guard stays taken, so that the monitor
  never adds or removes a worker again and no call that needs the guard returns.
\<close>

theorem monitor_join_deadlock:
  assumes "scaling_reachable c m s pc" and "pc 0 = Monitor (M_Sub (w # ids))" and "w \<in> set (sl_threads (sy_pool s))"
    and "pc w = Worker (W_Finish S_NotifySub)"
    and "reachable scaling_machine (\<lambda>cfg. cfg = (s, pc)) (s', pc')"
  shows "pc' 0 = Monitor (M_Sub (w # ids)) \<and> pc' w = Worker (W_Finish S_NotifySub) \<and> owner s' = Some 0"
proof -
  have dead: "join_deadlock c m w ids s pc"
    using scaling.reachable_inv [OF assms(1)] assms(2-4) by (simp add: join_deadlock_def)
  with assms(5) have "reachable scaling_machine (\<lambda>cfg. cfg = (s, pc) \<and> join_deadlock c m w ids s pc) (s', pc')" by simp
  from machine_invariant.reachable_inv [OF join_deadlock_future this]
  have "join_deadlock c m w ids s' pc'" .
  moreover from this have "owner s' = Some 0"
    using holds_simps(8) by (metis join_deadlock_def lock_ok_def scaling_inv_def)
  ultimately show ?thesis by (simp add: join_deadlock_def)
qed

end
