(* ===== verification/ScalingScenarios.thy ===== *)
theory ScalingScenarios
  imports ScalingInvariant
begin

text \<open>
  Runs of the scaling pool that grow it past its core size.  They need more than
  \<open>TASK_QUEUE_SIZE_THRESHOLD\<close> tasks, so they are built from rounds: the state after each round is
  described by \<open>quiet\<close> (nobody sleeps, nobody was told to close) and the number of queued tasks.
\<close>

definition quiet :: "tid list \<Rightarrow> nat \<Rightarrow> 'f scaling_sys \<Rightarrow> bool" where
  "quiet ts n s \<longleftrightarrow> cv_free (sy_lock s) \<and> m_cond (sy_lock s) = [] \<and> m_cond (sl_stateGuard (sy_pool s)) = [] \<and>
     m_cond (queue_cond s) = [] \<and> \<not> sl_isRequestShutDown (sy_pool s) \<and> \<not> ct_isRequestClose (sl_monitorThread (sy_pool s)) \<and>
     (\<forall>t. \<not> worker_closed (sl_workers (sy_pool s) t)) \<and> sl_subWorkerThreadId (sy_pool s) = [] \<and>
     sl_threads (sy_pool s) = ts \<and> sy_spawned s = ts \<and> length (sl_queue (sy_pool s)) = n \<and> EndTask \<notin> set (sl_queue (sy_pool s)) \<and>
     sl_state (sy_pool s) = Scaling_RUNNING"

abbreviation L :: "tid \<Rightarrow> 'f scaling_ev label" where
  "L t \<equiv> Act t (L_Step 0 False)"

lemmas run_simps = scaling_waiting_def queue_cond_def scaling_act_def client_act_def worker_act_def monitor_act_def
  worker_work_def worker_op_defs closer_defs sync lock_iff monitor_check_def MakeFunctorTask_def client_call_def worker_returns_def
  ScalingThreadPool_ContraryJudgeFunc_def ScalingThreadPool_JudgeFunc_def queue_long_def notify_monitor_def
  ScalingThreadPool_IfMoreThan_def ScalingThreadPool_GetThreadNum_def ScalingThreadPool_AddWorkerThreadIdToSubVector_def
  ScalingThreadPool_SubWorkerThread_def with_sleeper_def ScalingThreadPool_SetState_def
  ScalingThreadPool_CheckIsRequestShutDown_def ScalingThreadPool_DoIsShutDown_def shut_wait_def

lemma notify_none [simp]: "m_cond c = [] \<Longrightarrow> CV_Notify n c = c"
  by (simp add: CV_Notify_def)

lemma add_round:
  assumes "scaling_reachable c m s pc" and "quiet ts n s" and "pc t = Client d" and "ready_client d"
  shows "\<exists>s'. scaling_reachable c m s' (pc(t := Client (U_Added True))) \<and> quiet ts (Suc n) s'"
proof -
  have ready: "pool_ready (sy_pool s)" using scaling.reachable_inv [OF assms(1)] by (simp add: scaling_inv_def)
  have "\<exists>s'. mrun scaling_machine [Act t (CallAddFunctor f), L t, L t, L t] (s, pc) = Some (s', pc(t := Client (U_Added True)))
      \<and> quiet ts (Suc n) s'" for f
    using assms(2-4) pool_readyD [OF ready] by (auto simp: quiet_def run_simps)
  with mrun_reachable [OF assms(1)] show ?thesis by blast
qed

lemma add_rounds:
  assumes "scaling_reachable c m s pc" and "quiet ts n s" and "pc t = Client d" and "ready_client d"
  shows "\<exists>s'. scaling_reachable c m s' (pc(t := Client (U_Added True))) \<and> quiet ts (n + Suc k) s'"
proof (induction k)
  case 0
  show ?case using add_round [OF assms] by (simp only: add_Suc_right add_0_right)
next
  case (Suc k)
  then obtain s' where "scaling_reachable c m s' (pc(t := Client (U_Added True)))" "quiet ts (n + Suc k) s'" by blast
  from add_round [OF this, of t "U_Added True"] show ?case
    by (simp only: add_Suc_right fun_upd_same fun_upd_upd ready_client_def client_pc.case simp_thms)
qed

lemma start_round:
  assumes "scaling_reachable c m s pc" and "quiet ts n s" and "pc t = Worker W_Start" and "t \<in> set ts"
  shows "\<exists>s'. scaling_reachable c m s' (pc(t := Worker W_Get)) \<and> quiet ts n s'"
proof -
  have ready: "pool_ready (sy_pool s)" using scaling.reachable_inv [OF assms(1)] by (simp add: scaling_inv_def)
  have "\<exists>s'. mrun scaling_machine [L t, L t, L t] (s, pc) = Some (s', pc(t := Worker W_Get)) \<and> quiet ts n s'"
    using assms(2-4) pool_readyD [OF ready] by (auto simp: quiet_def run_simps)
  with mrun_reachable [OF assms(1)] show ?thesis by blast
qed

lemma run_round:
  assumes "scaling_reachable c m s pc" and "quiet ts (Suc n) s" and "pc t = Worker W_Get" and "t \<in> set ts"
  shows "\<exists>s'. scaling_reachable c m s' pc \<and> quiet ts n s'"
proof -
  have ready: "pool_ready (sy_pool s)" using scaling.reachable_inv [OF assms(1)] by (simp add: scaling_inv_def)
  obtain f xs where q: "sl_queue (sy_pool s) = FunctorTask f # xs" "length xs = n" "EndTask \<notin> set xs"
    using assms(2) by (cases "sl_queue (sy_pool s)"; cases "hd (sl_queue (sy_pool s))") (auto simp: quiet_def)
  have "\<exists>s'. mrun scaling_machine [L t, L t, L t] (s, pc) = Some (s', pc) \<and> quiet ts n s'"
    using assms(2-4) pool_readyD [OF ready] q by (auto simp: quiet_def run_simps)
  with mrun_reachable [OF assms(1)] show ?thesis by blast
qed

lemma run_rounds:
  assumes "scaling_reachable c m s pc" and "quiet ts n s" and "pc t = Worker W_Get" and "t \<in> set ts"
  shows "\<exists>s'. scaling_reachable c m s' pc \<and> quiet ts 0 s'"
  using assms(1,2)
proof (induction n arbitrary: s)
  case 0
  then show ?case by blast
next
  case (Suc n)
  from run_round [OF Suc.prems assms(3,4)] Suc.IH show ?case by blast
qed

text \<open>The monitor adds a worker.\<close>

lemma grow_round:
  assumes "scaling_reachable c m s pc" and "quiet ts n s" and "pc 0 = Monitor M_Start"
    and "TASK_QUEUE_SIZE_THRESHOLD < n" and "length ts < m"
  shows "\<exists>s'. scaling_reachable c m s' (pc(0 := Monitor M_Check)) \<and> quiet (ts @ [worker_tid (length ts)]) n s'"
proof -
  have ready: "pool_ready (sy_pool s)" and size: "sl_maxThreadSize (sy_pool s) = m"
    using scaling.reachable_inv [OF assms(1)] by (simp_all add: scaling_inv_def size_ok_def)
  have "\<exists>s'. mrun scaling_machine [L 0, L 0, L 0, L 0, L 0, L 0, L 0] (s, pc) = Some (s', pc(0 := Monitor M_Check)) \<and>
      quiet (ts @ [worker_tid (length ts)]) n s'"
    using assms(2-5) pool_readyD [OF ready] size by (auto simp: quiet_def run_simps)
  with mrun_reachable [OF assms(1)] show ?thesis by blast
qed

text \<open>A pool of core size 1 and maximal size 2 whose two workers wait for tasks.\<close>

lemma grown_pool:
  "\<exists>(s :: 'f scaling_sys) pc. scaling_reachable 1 2 s pc \<and> quiet [1, 3] 0 s \<and> pc 0 = Monitor M_Check \<and> pc 1 = Worker W_Get \<and>
     pc 3 = Worker W_Get \<and> pc 2 = Client (U_Added True)"
proof -
  let ?c = "scaling_start 1 2 :: ('f scaling_sys, 'f scaling_pc) config"
  obtain s0 pc0 where start: "?c = (s0, pc0)" by (cases ?c)
  then have r0: "scaling_reachable 1 2 s0 pc0" by (intro reachable.reach_init) (simp add: scaling_init_def)
  have q0: "quiet [1] 0 s0" and p0: "pc0 0 = Monitor M_Start" "pc0 1 = Worker W_Start" "pc0 2 = Client U_Idle" "pc0 3 = Worker W_Start"
    using start by (auto simp: scaling_start_def quiet_def ScalingThreadPool_ctor_def sync BlockingQueue_ctor_def
        ConditionVariable_ctor_def CloseableThread_ctor_def queue_cond_def ScalingThreadPool_AddWorkerThread_def worker_tid_def cv_free_def)
  from add_rounds [OF r0 q0 p0(3), of 1024] obtain s1 where
    r1: "scaling_reachable 1 2 s1 (pc0(2 := Client (U_Added True)))" "quiet [1] 1025 s1" by (auto simp: ready_client_def)
  from grow_round [OF r1] p0(1) obtain s2 where
    r2: "scaling_reachable 1 2 s2 (pc0(2 := Client (U_Added True), 0 := Monitor M_Check))" "quiet [1, 3] 1025 s2"
    by (auto simp: TASK_QUEUE_SIZE_THRESHOLD_def worker_tid_def)
  from start_round [OF r2, of 1] p0(2) obtain s3 where
    r3: "scaling_reachable 1 2 s3 (pc0(2 := Client (U_Added True), 0 := Monitor M_Check, 1 := Worker W_Get))" "quiet [1, 3] 1025 s3"
    by auto
  from run_rounds [OF r3, of 1] obtain s4 where
    r4: "scaling_reachable 1 2 s4 (pc0(2 := Client (U_Added True), 0 := Monitor M_Check, 1 := Worker W_Get))" "quiet [1, 3] 0 s4"
    by auto
  let ?pc = "pc0(2 := Client (U_Added True), 0 := Monitor M_Check, 1 := Worker W_Get, 3 := Worker W_Get)"
  from start_round [OF r4, of 3] p0(4) obtain s5 where "scaling_reachable 1 2 s5 ?pc" "quiet [1, 3] 0 s5" by auto
  then show ?thesis by (intro exI [of _ s5] exI [of _ ?pc]) simp
qed

lemma TASK_QUEUE_SIZE_THRESHOLD_positive: "0 < TASK_QUEUE_SIZE_THRESHOLD"
  by (simp add: TASK_QUEUE_SIZE_THRESHOLD_def)

section \<open>Witnesses\<close>

theorem ScalingThreadPool_size_bounded_witness:
  "\<exists>(s :: nat scaling_sys) pc. scaling_reachable 1 2 s pc \<and> sl_threads (sy_pool s) = [1, 3] \<and>
     distinct (sl_threads (sy_pool s)) \<and> length (sl_threads (sy_pool s)) \<le> 2"
proof -
  obtain s :: "nat scaling_sys" and pc where g: "scaling_reachable 1 2 s pc" "quiet [1, 3] 0 s" using grown_pool by blast
  with ScalingThreadPool_size_bounded [OF g(1)] show ?thesis by (auto simp: quiet_def)
qed

theorem ScalingThreadPool_tasks_conserved_witness:
  "\<exists>(s :: nat scaling_sys) pc. scaling_reachable 1 1 s pc \<and> sy_ran s = [7] \<and> sy_pushed s = sy_popped s @ sl_queue (sy_pool s) \<and>
     length (sl_queue (sy_pool s)) = 1"
proof -
  have "run_check scaling_machine ([Act 2 (CallAddFunctor 7), L 2, L 2, L 2, Act 2 (CallAddFunctor 8), L 2, L 2, L 2] @
        replicate 5 (L 1)) (scaling_start 1 1 :: (nat scaling_sys, nat scaling_pc) config)
      (\<lambda>s pc. sy_ran s = [7] \<and> length (sl_queue (sy_pool s)) = 1)"
    by code_simp
  from run_check_reachable [where init = "scaling_init 1 1", OF this]
  obtain s :: "nat scaling_sys" and pc where
    "scaling_reachable 1 1 s pc" "sy_ran s = [7]" "length (sl_queue (sy_pool s)) = 1" by (auto simp: scaling_init_def)
  with ScalingThreadPool_tasks_conserved show ?thesis by blast
qed

theorem ScalingThreadPool_worker_progress_witness:
  "\<exists>(s :: nat scaling_sys) pc s'. scaling_reachable 1 1 s pc \<and> sl_queue (sy_pool s) = [FunctorTask 7] \<and>
     mstep scaling_machine (Act 1 (L_Step 0 False)) (s, pc) = Some (s', pc(1 := Worker W_Run))"
proof -
  have "run_check scaling_machine ([L 1, L 1, L 1, L 1, Act 2 (CallAddFunctor 7), L 2, L 2, L 2])
      (scaling_start 1 1 :: (nat scaling_sys, nat scaling_pc) config)
      (\<lambda>s pc. sl_queue (sy_pool s) = [FunctorTask 7] \<and> pc 1 = Worker W_Get \<and> sy_spawned s = [1])"
    by code_simp
  from run_check_reachable [where init = "scaling_init 1 1", OF this]
  obtain s :: "nat scaling_sys" and pc where r: "scaling_reachable 1 1 s pc" "sl_queue (sy_pool s) = [FunctorTask 7]"
      "pc 1 = Worker W_Get" "sy_spawned s = [1]"
    by (auto simp: scaling_init_def)
  have "1 \<in> set (sy_spawned s)" using r(4) by simp
  from ScalingThreadPool_worker_progress [OF r(1,2,3) this, of 0 False] r(1,2) show ?thesis
    by (simp del: mstep.simps) blast
qed

theorem ScalingThreadPool_monitor_wakes_witness:
  "\<exists>(s :: nat scaling_sys) pc s'. scaling_reachable 1 1 s pc \<and> sl_subWorkerThreadId (sy_pool s) = [0] \<and>
     mstep scaling_machine (L 0) (s, pc) = Some (s', pc(0 := Monitor M_Inside))"
proof -
  have "run_check scaling_machine (replicate 4 (L 0) @ Act 2 (CallShut False) # replicate 10 (L 2))
      (fst (scaling_start 1 1 :: (nat scaling_sys, nat scaling_pc) config), snd (scaling_start 1 1))
      (\<lambda>s pc. pc 0 = Monitor M_Wait \<and> pc 2 = Client (U_ShutReturned False) \<and> sl_subWorkerThreadId (sy_pool s) = [0] \<and>
        cv_free (sy_lock s))"
    by code_simp
  from run_check_reachable_frame [where init = "scaling_init 1 1", OF this]
  obtain s :: "nat scaling_sys" and pc where r: "scaling_reachable 1 1 s pc" "pc 0 = Monitor M_Wait"
      "pc 2 = Client (U_ShutReturned False)" "sl_subWorkerThreadId (sy_pool s) = [0]" "cv_free (sy_lock s)"
      and frame: "\<forall>t. t \<noteq> 0 \<and> t \<noteq> 2 \<longrightarrow> pc t = snd (scaling_start 1 1) t"
    by (auto simp: scaling_init_def)
  have "\<not> notifies_monitor (pc t)" for t
    using r(2,3) frame by (cases "t = 0"; cases "t = 2") (auto simp: scaling_start_def notifies_monitor_def)
  then show ?thesis
    using ScalingThreadPool_monitor_wakes [OF r(1), of 0 False] r by (simp add: wants_monitor_def del: mstep.simps) blast
qed

theorem ScalingThreadPool_ShutDownNow_wakes_witness:
  "\<exists>(s :: nat scaling_sys) pc. scaling_reachable 1 1 s pc \<and> sl_state (sy_pool s) = Scaling_SHUTDOWN \<and>
     mstep scaling_machine (Act 2 (L_Step 0 False)) (s, pc) = Some (s, pc(2 := Client (U_ShutReturned True)))"
proof -
  have "run_check scaling_machine (Act 2 (CallShut True) # replicate 11 (L 2) @ replicate 9 (L 1))
      (fst (scaling_start 1 1 :: (nat scaling_sys, nat scaling_pc) config), snd (scaling_start 1 1))
      (\<lambda>s pc. sl_state (sy_pool s) = Scaling_SHUTDOWN \<and> pc 1 = Worker W_Done \<and> pc 2 = Client U_WaitShut)"
    by code_simp
  from run_check_reachable_frame [where init = "scaling_init 1 1", OF this]
  obtain s :: "nat scaling_sys" and pc where r: "scaling_reachable 1 1 s pc" "sl_state (sy_pool s) = Scaling_SHUTDOWN"
      "pc 1 = Worker W_Done" "pc 2 = Client U_WaitShut"
      and frame: "\<forall>t. t \<noteq> 1 \<and> t \<noteq> 2 \<longrightarrow> pc t = snd (scaling_start 1 1) t"
    by (auto simp: scaling_init_def)
  have "pc u \<noteq> Worker (W_Finish S_NotifyShut)" for u
    using r(3,4) frame by (cases "u = 1"; cases "u = 2") (auto simp: scaling_start_def)
  then show ?thesis
    using ScalingThreadPool_ShutDownNow_wakes [OF r(1,2) _ r(4), of 0 False] r(1,2) by blast
qed

theorem ScalingThreadPool_refines_task_pool_witness:
  "\<exists>(s :: nat scaling_sys) pc tr. scaling_reachable 1 1 s pc \<and> tk_waiting (scaling_abs s pc) = [8] \<and>
     pool_trace fifo_put fifo_take \<lparr>tk_waiting = [], tk_running = {#}\<rparr> tr (scaling_abs s pc) \<and>
     submissions tr = [7, 8] \<and> takes tr = [7] \<and> finishes tr = [7]"
proof -
  have "run_check scaling_machine ([Act 2 (CallAddFunctor 7), L 2, L 2, L 2, Act 2 (CallAddFunctor 8), L 2, L 2, L 2] @
        replicate 5 (L 1)) (scaling_start 1 1 :: (nat scaling_sys, nat scaling_pc) config)
      (\<lambda>s pc. sy_ran s = [7] \<and> sl_queue (sy_pool s) = [FunctorTask 8] \<and>
        sy_pushed s = [FunctorTask 7, FunctorTask 8] \<and> sy_popped s = [FunctorTask 7])"
    by code_simp
  from run_check_reachable [where init = "scaling_init 1 1", OF this]
  obtain s :: "nat scaling_sys" and pc where
    r: "scaling_reachable 1 1 s pc" "sy_ran s = [7]" "sl_queue (sy_pool s) = [FunctorTask 8]"
      "sy_pushed s = [FunctorTask 7, FunctorTask 8]" "sy_popped s = [FunctorTask 7]" by (auto simp: scaling_init_def)
  obtain tr where "pool_trace fifo_put fifo_take \<lparr>tk_waiting = [], tk_running = {#}\<rparr> tr (scaling_abs s pc)"
    "submissions tr = tasks_in (sy_pushed s)" "takes tr = tasks_in (sy_popped s)" "finishes tr = sy_ran s"
    using ScalingThreadPool_refines_task_pool [OF r(1) reachable.reach_init] by blast
  with r show ?thesis
    by (intro exI [of _ s] exI [of _ pc] exI [of _ tr]) (simp add: scaling_abs_def)
qed

section \<open>Defects\<close>

theorem monitor_join_deadlock_witness:
  "\<exists>(s :: 'f scaling_sys) pc. scaling_reachable 1 2 s pc \<and> pc 0 = Monitor (M_Sub [1]) \<and>
     (\<forall>s' pc'. reachable scaling_machine (\<lambda>cfg. cfg = (s, pc)) (s', pc') \<longrightarrow>
        pc' 0 = Monitor (M_Sub [1]) \<and> pc' 1 = Worker (W_Finish S_NotifySub) \<and> owner s' = Some 0)"
proof -
  obtain s :: "'f scaling_sys" and pc where g: "scaling_reachable 1 2 s pc" "quiet [1, 3] 0 s" "pc 0 = Monitor M_Check"
      "pc 1 = Worker W_Get" using grown_pool by blast
  have ready: "pool_ready (sy_pool s)" and size: "sl_corePoolSize (sy_pool s) = 1"
    using scaling.reachable_inv [OF g(1)] by (simp_all add: scaling_inv_def size_ok_def)
  have "\<exists>s'. mrun scaling_machine ([L 1, Timeout 1] @ replicate 6 (L 1) @ replicate 4 (L 0)) (s, pc) =
      Some (s', pc(1 := Worker (W_Finish S_NotifySub), 0 := Monitor (M_Sub [1]))) \<and> sl_threads (sy_pool s') = [1, 3]"
    using g(2-4) pool_readyD [OF ready] size
    by (auto simp: quiet_def run_simps eval_nat_numeral scaling_unwait_def)
  with mrun_reachable [OF g(1)] obtain s' where
    r: "scaling_reachable 1 2 s' (pc(1 := Worker (W_Finish S_NotifySub), 0 := Monitor (M_Sub [1])))" "sl_threads (sy_pool s') = [1, 3]"
    by blast
  let ?pc = "pc(1 := Worker (W_Finish S_NotifySub), 0 := Monitor (M_Sub [1]))"
  have "pc' 0 = Monitor (M_Sub [1]) \<and> pc' 1 = Worker (W_Finish S_NotifySub) \<and> owner t = Some 0"
    if "reachable scaling_machine (\<lambda>cfg. cfg = (s', ?pc)) (t, pc')" for t pc'
    by (rule monitor_join_deadlock [OF r(1) _ _ _ that]) (simp_all add: r(2))
  with r(1) show ?thesis by (intro exI [of _ s'] exI [of _ ?pc]) simp
qed

text \<open>
  Idle workers do not stop at the core size: both workers of a pool of core size 1 can find it
  too large before one of them is removed, and both leave.  The pool then has no worker and no
  shutdown was requested; a task that is added stays in the queue, and the monitor sleeps.
\<close>

theorem pool_below_core_size:
  "\<exists>(s :: 'f scaling_sys) pc f. scaling_reachable 1 2 s pc \<and> sl_threads (sy_pool s) = [] \<and>
     \<not> sl_isRequestShutDown (sy_pool s) \<and> sl_queue (sy_pool s) = [FunctorTask f] \<and>
     pc 2 = Client (U_Added True) \<and> cv_waiting (sy_lock s) 0"
proof -
  obtain s :: "'f scaling_sys" and pc where g: "scaling_reachable 1 2 s pc" "quiet [1, 3] 0 s" "pc 0 = Monitor M_Check"
      "pc 1 = Worker W_Get" "pc 3 = Worker W_Get" "pc 2 = Client (U_Added True)" using grown_pool by blast
  have ready: "pool_ready (sy_pool s)" and size: "sl_corePoolSize (sy_pool s) = 1"
    using scaling.reachable_inv [OF g(1)] by (simp_all add: scaling_inv_def size_ok_def)
  have "\<exists>s' pc'. mrun scaling_machine ([L 1, L 3, Timeout 1, Timeout 3] @ concat (replicate 9 [L 1, L 3]) @ replicate 9 (L 0) @
        [Act 2 (CallAddFunctor f), L 2, L 2, L 2]) (s, pc) = Some (s', pc') \<and>
      sl_threads (sy_pool s') = [] \<and> \<not> sl_isRequestShutDown (sy_pool s') \<and> sl_queue (sy_pool s') = [FunctorTask f] \<and>
      pc' 2 = Client (U_Added True) \<and> cv_waiting (sy_lock s') 0" for f
    using g(2-6) pool_readyD [OF ready] size TASK_QUEUE_SIZE_THRESHOLD_positive
    by (auto simp: quiet_def run_simps worker_free_def ready_client_def eval_nat_numeral scaling_unwait_def)
  with mrun_reachable [OF g(1)] show ?thesis by blast
qed

lemma stop_overwrites_shutdown:
  "\<exists>(s :: 'f scaling_sys) pc. scaling_reachable 1 2 s pc \<and> sl_state (sy_pool s) = Scaling_STOP \<and>
     pc 1 = Worker W_Done \<and> pc 3 = Worker W_Done \<and> sy_spawned s = [1, 3] \<and> cv_waiting (sl_stateGuard (sy_pool s)) 2"
proof -
  obtain s :: "'f scaling_sys" and pc where g: "scaling_reachable 1 2 s pc" "quiet [1, 3] 0 s" "pc 0 = Monitor M_Check"
      "pc 1 = Worker W_Get" "pc 3 = Worker W_Get" "pc 2 = Client (U_Added True)" using grown_pool by blast
  have ready: "pool_ready (sy_pool s)" and size: "sl_corePoolSize (sy_pool s) = 1"
    using scaling.reachable_inv [OF g(1)] by (simp_all add: scaling_inv_def size_ok_def)
  have "\<exists>s' pc'. mrun scaling_machine ([L 1, L 3, Timeout 1, Timeout 3] @ concat (replicate 4 [L 1, L 3]) @ replicate 5 (L 1) @
        replicate 6 (L 0) @ [Act 2 (CallShut True), L 2] @ replicate 7 (L 3) @ replicate 10 (L 2)) (s, pc) = Some (s', pc') \<and>
      sl_state (sy_pool s') = Scaling_STOP \<and> pc' 1 = Worker W_Done \<and> pc' 3 = Worker W_Done \<and> sy_spawned s' = [1, 3] \<and>
      cv_waiting (sl_stateGuard (sy_pool s')) 2"
    using g(2-6) pool_readyD [OF ready] size TASK_QUEUE_SIZE_THRESHOLD_positive
    by (auto simp: quiet_def run_simps worker_free_def ready_client_def eval_nat_numeral scaling_unwait_def)
  with mrun_reachable [OF g(1)] show ?thesis by blast
qed

text \<open>
  Three ways in which \<open>ShutDownNow\<close> waits for ever.  A pool of no threads has no worker that could
  report the end; and a worker that was taken out by a task that threw never reports: the only
  worker is gone, the pool stays in state STOP and the client sleeps; and the last worker
  can report SHUTDOWN before \<open>ShutDown\<close> sets STOP, which overwrites it.
\<close>

theorem ScalingThreadPool_ShutDownNow_may_hang:
  "(\<exists>(s :: nat scaling_sys) pc. scaling_reachable 0 0 s pc \<and> sl_state (sy_pool s) = Scaling_STOP \<and>
      sy_spawned s = [] \<and> pc 0 = Monitor M_Done \<and> cv_waiting (sl_stateGuard (sy_pool s)) 2) \<and>
   (\<exists>(s :: nat scaling_sys) pc. scaling_reachable 1 1 s pc \<and> sl_state (sy_pool s) = Scaling_STOP \<and>
      sy_spawned s = [1] \<and> pc 1 = Worker W_Threw \<and> cv_waiting (sl_stateGuard (sy_pool s)) 2) \<and>
   (\<exists>(s :: nat scaling_sys) pc. scaling_reachable 1 2 s pc \<and> sl_state (sy_pool s) = Scaling_STOP \<and>
      pc 1 = Worker W_Done \<and> pc 3 = Worker W_Done \<and> sy_spawned s = [1, 3] \<and> cv_waiting (sl_stateGuard (sy_pool s)) 2)"
proof (intro conjI)
  have "run_check scaling_machine (Act 2 (CallShut True) # replicate 9 (L 2) @ replicate 4 (L 0))
      (scaling_start 0 0 :: (nat scaling_sys, nat scaling_pc) config)
      (\<lambda>s pc. sl_state (sy_pool s) = Scaling_STOP \<and> sy_spawned s = [] \<and> pc 0 = Monitor M_Done \<and>
        cv_waiting (sl_stateGuard (sy_pool s)) 2)"
    by code_simp
  from run_check_reachable [where init = "scaling_init 0 0", OF this]
  show "\<exists>(s :: nat scaling_sys) pc. scaling_reachable 0 0 s pc \<and> sl_state (sy_pool s) = Scaling_STOP \<and>
      sy_spawned s = [] \<and> pc 0 = Monitor M_Done \<and> cv_waiting (sl_stateGuard (sy_pool s)) 2"
    by (simp add: scaling_init_def)
next
  have "run_check scaling_machine ([Act 2 (CallAddFunctor 7), L 2, L 2, L 2, L 1, L 1, L 1, L 1, Act 1 TaskThrows] @
        Act 2 (CallShut True) # replicate 11 (L 2))
      (scaling_start 1 1 :: (nat scaling_sys, nat scaling_pc) config)
      (\<lambda>s pc. sl_state (sy_pool s) = Scaling_STOP \<and> sy_spawned s = [1] \<and> pc 1 = Worker W_Threw \<and>
        cv_waiting (sl_stateGuard (sy_pool s)) 2)"
    by code_simp
  from run_check_reachable [where init = "scaling_init 1 1", OF this]
  show "\<exists>(s :: nat scaling_sys) pc. scaling_reachable 1 1 s pc \<and> sl_state (sy_pool s) = Scaling_STOP \<and>
      sy_spawned s = [1] \<and> pc 1 = Worker W_Threw \<and> cv_waiting (sl_stateGuard (sy_pool s)) 2"
    by (simp add: scaling_init_def)
qed (rule stop_overwrites_shutdown)

end
