(* ===== verification/FixedThreadPool.thy ===== *)
theory FixedThreadPool
  imports ScalingScenarios
begin

text \<open>
  \<open>include/empool/FixedThreadPool.h\<close>, \<open>src/FixedThreadPool.cpp\<close>: a scaling pool whose core size is
  its maximal size.  Every method forwards to the scaling pool, so its runs are those of the machine of
  theory \<open>ScalingThreadPool\<close> from \<open>FixedThreadPool_ctor\<close>; what is proved here needs the two sizes
  to be equal.
\<close>

section \<open>The pool\<close>

type_synonym 'f fixed_pool = "'f scaling_pool"

definition FixedThreadPool_ctor :: "nat \<Rightarrow> 'f fixed_pool" where
  "FixedThreadPool_ctor threadNum = ScalingThreadPool_ctor threadNum threadNum"

definition FixedThreadPool_GetThreadNum :: "tid \<Rightarrow> 'f fixed_pool \<Rightarrow> (nat \<times> 'f fixed_pool) option" where
  "FixedThreadPool_GetThreadNum t p = ScalingThreadPool_GetThreadNum t p"

definition FixedThreadPool_AddTask :: "nat \<Rightarrow> tid \<Rightarrow> 'f client_pc \<Rightarrow> 'f scaling_sys \<Rightarrow>
    ('f client_pc \<times> 'f scaling_sys) option" where
  "FixedThreadPool_AddTask = ScalingThreadPool_DoAddTask"

definition FixedThreadPool_ShutDown :: "nat \<Rightarrow> bool \<Rightarrow> tid \<Rightarrow> 'f client_pc \<Rightarrow> 'f scaling_sys \<Rightarrow>
    ('f client_pc \<times> 'f scaling_sys) option" where
  "FixedThreadPool_ShutDown = ScalingThreadPool_ShutDown"

definition FixedThreadPool_IsShutDown :: "tid \<Rightarrow> 'f fixed_pool \<Rightarrow> (bool \<times> 'f fixed_pool) option" where
  "FixedThreadPool_IsShutDown t p = ScalingThreadPool_IsShutDown t p"

abbreviation fixed_reachable :: "nat \<Rightarrow> 'f scaling_sys \<Rightarrow> (tid \<Rightarrow> 'f scaling_pc) \<Rightarrow> bool" where
  "fixed_reachable n \<equiv> scaling_reachable n n"

lemma fixed_start: "sy_pool (fst (scaling_start n n)) = FixedThreadPool_ctor n"
  by (simp add: scaling_start_def FixedThreadPool_ctor_def)

section \<open>The invariant\<close>

text \<open>Some worker was told to stop, in either of the two ways.\<close>

definition started :: "'f scaling_sys \<Rightarrow> bool" where
  "started s \<longleftrightarrow> (\<exists>i. worker_closed (sl_workers (sy_pool s) i)) \<or> EndTask \<in> set (sy_pushed s)"

definition early :: "'f scaling_pc \<Rightarrow> bool" where
  "early k \<longleftrightarrow> (case k of Client c \<Rightarrow> (case c of U_SetStop _ \<Rightarrow> True | U_Lock _ \<Rightarrow> True | _ \<Rightarrow> False) | _ \<Rightarrow> False)"

definition closing :: "'f scaling_pc \<Rightarrow> bool" where
  "closing k \<longleftrightarrow> (case k of Client c \<Rightarrow> needs_request (Client c) | _ \<Rightarrow> False)"

definition counted :: "'f scaling_pc \<Rightarrow> bool" where
  "counted k \<longleftrightarrow> (case k of Worker w \<Rightarrow> (case w of W_Finish f \<Rightarrow> f \<notin> {S_Stop, S_PushSub, S_NotifySub, S_Count}
     | W_SetFinished \<Rightarrow> True | W_NotifyClosed \<Rightarrow> True | W_Done \<Rightarrow> True | _ \<Rightarrow> False) | _ \<Rightarrow> False)"

text \<open>What holds at one program counter.\<close>

definition fixed_pc :: "nat \<Rightarrow> 'f scaling_sys \<Rightarrow> 'f scaling_pc \<Rightarrow> bool" where
  "fixed_pc n s k \<longleftrightarrow>
     (\<forall>ids. k = Monitor (M_Sub ids) \<longrightarrow> set ids \<subseteq> {0}) \<and>
     k \<notin> {Worker W_AsyncClose, Worker W_Recheck, Worker (W_Finish S_PushSub), Worker (W_Finish S_NotifySub),
       Client (U_Push EndTask), Client (U_Load (Some EndTask))} \<and>
     (\<forall>f. k = Worker (W_Finish f) \<longrightarrow> started s) \<and>
     (\<forall>m. k = Worker (W_Finish (S_Compare m)) \<longrightarrow> m \<le> sl_stoppedThreadNum (sy_pool s)) \<and>
     (k \<in> {Worker (W_Finish S_SetShut), Worker (W_Finish S_NotifyShut)} \<longrightarrow> n \<le> sl_stoppedThreadNum (sy_pool s)) \<and>
     (k = Client (U_ShutReturned True) \<longrightarrow> sl_state (sy_pool s) = Scaling_SHUTDOWN)"

definition fixed_threads :: "nat \<Rightarrow> 'f scaling_sys \<Rightarrow> bool" where
  "fixed_threads n s \<longleftrightarrow> sl_threads (sy_pool s) = map worker_tid [0..<n] \<and> sy_spawned s = map worker_tid [0..<n] \<and>
     set (sl_subWorkerThreadId (sy_pool s)) \<subseteq> {0}"

definition fixed_state :: "nat \<Rightarrow> 'f scaling_sys \<Rightarrow> bool" where
  "fixed_state n s \<longleftrightarrow> (started s \<longrightarrow> sl_isRequestShutDown (sy_pool s)) \<and>
     (0 < sl_stoppedThreadNum (sy_pool s) \<longrightarrow> started s) \<and>
     (sl_state (sy_pool s) = Scaling_SHUTDOWN \<longrightarrow> started s \<and> n \<le> sl_stoppedThreadNum (sy_pool s))"

definition closers_ok :: "'f scaling_sys \<Rightarrow> (tid \<Rightarrow> 'f scaling_pc) \<Rightarrow> bool" where
  "closers_ok s pc \<longleftrightarrow> (\<forall>t u. closing (pc t) \<and> closing (pc u) \<longrightarrow> t = u) \<and> (\<forall>t. early (pc t) \<longrightarrow> \<not> started s)"

definition count_ok :: "nat \<Rightarrow> 'f scaling_sys \<Rightarrow> (tid \<Rightarrow> 'f scaling_pc) \<Rightarrow> bool" where
  "count_ok n s pc \<longleftrightarrow> sl_stoppedThreadNum (sy_pool s) = card {t \<in> set (sy_spawned s). counted (pc t)} \<and>
     (0 < n \<and> n \<le> sl_stoppedThreadNum (sy_pool s) \<longrightarrow> sl_state (sy_pool s) = Scaling_SHUTDOWN \<or>
        (\<exists>t. (\<exists>m \<ge> n. pc t = Worker (W_Finish (S_Compare m))) \<or> pc t = Worker (W_Finish S_SetShut)))"

definition fixed_inv :: "nat \<Rightarrow> 'f scaling_sys \<Rightarrow> (tid \<Rightarrow> 'f scaling_pc) \<Rightarrow> bool" where
  "fixed_inv n s pc \<longleftrightarrow> scaling_inv n n s pc \<and> fixed_threads n s \<and> fixed_state n s \<and> (\<forall>t. fixed_pc n s (pc t)) \<and>
     closers_ok s pc \<and> count_ok n s pc"

lemma fixed_pc_mono:
  assumes "fixed_pc n s k" and "started s \<longrightarrow> started s'"
    and "sl_stoppedThreadNum (sy_pool s) \<le> sl_stoppedThreadNum (sy_pool s')"
    and "sl_state (sy_pool s) = Scaling_SHUTDOWN \<longrightarrow> sl_state (sy_pool s') = Scaling_SHUTDOWN"
  shows "fixed_pc n s' k"
  using assms unfolding fixed_pc_def by (metis order_trans)

text \<open>The monitor neither adds nor removes workers.\<close>

lemma fixed_monitor:
  assumes "monitor_move t s k k' s'" and "fixed_threads n s" and "fixed_pc n s (Monitor k)"
    and "size_ok n n s"
  shows "fixed_threads n s' \<and> fixed_pc n s' (Monitor k') \<and> started s' = started s \<and>
    sl_stoppedThreadNum (sy_pool s') = sl_stoppedThreadNum (sy_pool s) \<and> sl_state (sy_pool s') = sl_state (sy_pool s) \<and>
    sy_spawned s' = sy_spawned s"
  using assms(1)
proof cases
  case grow
  then show ?thesis using assms(2,4) by (simp add: size_ok_def fixed_threads_def)
next
  case (sub_join i ids)
  then have "i = 0" using assms(3) by (simp add: fixed_pc_def)
  with sub_join assms(2) show ?thesis by (auto simp: fixed_threads_def)
qed (use assms(2,3) in \<open>auto simp: fixed_threads_def fixed_pc_def started_def\<close>)

lemma worker_closed_same:
  "worker_move m t s k k' s' \<Longrightarrow> k \<noteq> W_AsyncClose \<Longrightarrow>
     worker_closed (sl_workers (sy_pool s') i) = worker_closed (sl_workers (sy_pool s) i) \<and> sy_pushed s' = sy_pushed s"
  by (erule worker_move.cases; simp)

lemma worker_fields_moves:
  "worker_move m t s k k' s' \<Longrightarrow> sl_threads (sy_pool s') = sl_threads (sy_pool s) \<and> sy_spawned s' = sy_spawned s \<and>
     sl_isRequestShutDown (sy_pool s') = sl_isRequestShutDown (sy_pool s)"
  "worker_move m t s k k' s' \<Longrightarrow> k \<noteq> W_Finish S_PushSub \<Longrightarrow>
     sl_subWorkerThreadId (sy_pool s') = sl_subWorkerThreadId (sy_pool s)"
  "worker_move m t s k k' s' \<Longrightarrow> sl_stoppedThreadNum (sy_pool s') =
     (if k = W_Finish S_Count then Suc (sl_stoppedThreadNum (sy_pool s)) else sl_stoppedThreadNum (sy_pool s))"
  "worker_move m t s k k' s' \<Longrightarrow> sl_state (sy_pool s') =
     (if k = W_Finish S_SetShut then Scaling_SHUTDOWN else sl_state (sy_pool s))"
  by (erule worker_move.cases; auto)+

lemma worker_frames:
  assumes "worker_move m t s k k' s'" and "fixed_pc n s (Worker k)"
  shows "started s' = started s" "sl_threads (sy_pool s') = sl_threads (sy_pool s)" "sy_spawned s' = sy_spawned s"
    "sl_subWorkerThreadId (sy_pool s') = sl_subWorkerThreadId (sy_pool s)"
    "sl_isRequestShutDown (sy_pool s') = sl_isRequestShutDown (sy_pool s)"
  using worker_closed_same [OF assms(1)] worker_fields_moves(1,2) [OF assms(1)] assms(2)
  by (simp_all add: fixed_pc_def started_def)

lemma worker_exit_started:
  assumes "worker_move m t s k (W_Finish f) s'" and "log_ok s" and "fixed_pc n s (Worker k)"
  shows "started s"
  using assms(1) by cases (use assms(2,3) in \<open>auto simp: started_def log_ok_def fixed_pc_def\<close>)

lemma fixed_worker_pc:
  assumes "worker_move m t s k k' s'" and "fixed_pc n s (Worker k)" and "log_ok s" and "fixed_state n s"
    and "length (sl_threads (sy_pool s)) = n" and "sl_corePoolSize (sy_pool s) = n"
  shows "fixed_pc n s' (Worker k')"
proof -
  have "started s'" if "k' = W_Finish f" for f
    using worker_exit_started [of m t s k f s' n] worker_frames(1) [OF assms(1,2)] assms(1-3) that by simp
  moreover have "k' \<notin> {W_AsyncClose, W_Recheck, W_Finish S_PushSub, W_Finish S_NotifySub}"
    using assms(1) by cases (use assms(2,4-6) in \<open>auto simp: fixed_pc_def fixed_state_def\<close>)
  moreover have "x \<le> sl_stoppedThreadNum (sy_pool s')" if "k' = W_Finish (S_Compare x)" for x
    using assms(1) by cases (use that in auto)
  moreover have "n \<le> sl_stoppedThreadNum (sy_pool s')" if "k' \<in> {W_Finish S_SetShut, W_Finish S_NotifyShut}"
    using assms(1) by cases (use assms(2,5) that in \<open>auto simp: fixed_pc_def\<close>)
  ultimately show ?thesis by (auto simp: fixed_pc_def)
qed

lemma fixed_worker_state:
  assumes "worker_move m t s k k' s'" and "fixed_pc n s (Worker k)" and "fixed_state n s"
  shows "fixed_state n s'"
  using assms(2,3) worker_fields_moves(3,4) [OF assms(1)]
  by (auto simp: fixed_state_def worker_frames [OF assms(1,2)] fixed_pc_def)

text \<open>The clients.\<close>

lemma client_closes:
  "client_move m t s k k' s' \<Longrightarrow> worker_closed (sl_workers (sy_pool s) i) \<Longrightarrow> worker_closed (sl_workers (sy_pool s') i)"
  "client_move m t s k k' s' \<Longrightarrow> set (sy_pushed s) \<subseteq> set (sy_pushed s')"
  "client_move m t s k k' s' \<Longrightarrow> \<not> closing (Client k) \<or> early (Client k') \<Longrightarrow>
     worker_closed (sl_workers (sy_pool s') i) \<Longrightarrow> worker_closed (sl_workers (sy_pool s) i)"
  "client_move m t s k k' s' \<Longrightarrow> \<not> closing (Client k) \<or> early (Client k') \<Longrightarrow> k \<noteq> U_Push EndTask \<Longrightarrow>
     EndTask \<in> set (sy_pushed s') \<Longrightarrow> EndTask \<in> set (sy_pushed s)"
  by (erule client_move.cases; auto simp: closing_def early_def needs_request_def shut_wait_def split: if_splits)+

lemma client_fields_moves:
  "client_move m t s k k' s' \<Longrightarrow> sl_threads (sy_pool s') = sl_threads (sy_pool s) \<and> sy_spawned s' = sy_spawned s \<and>
     sl_stoppedThreadNum (sy_pool s') = sl_stoppedThreadNum (sy_pool s)"
  "client_move m t s k k' s' \<Longrightarrow> set (sl_subWorkerThreadId (sy_pool s')) \<subseteq> insert 0 (set (sl_subWorkerThreadId (sy_pool s)))"
  "client_move m t s k k' s' \<Longrightarrow> sl_state (sy_pool s') = (if (\<exists>b. k = U_SetStop b) then Scaling_STOP else sl_state (sy_pool s))"
  "client_move m t s k k' s' \<Longrightarrow> closing (Client k') \<Longrightarrow> closing (Client k) \<or> \<not> sl_isRequestShutDown (sy_pool s)"
  "client_move m t s k k' s' \<Longrightarrow> early (Client k') \<Longrightarrow> early (Client k) \<or> (\<not> sl_isRequestShutDown (sy_pool s) \<and> \<not> closing (Client k))"
  by (erule client_move.cases; auto simp: closing_def early_def needs_request_def shut_wait_def ready_client_def split: if_splits)+

lemma not_closing [simp]: "\<not> closing (Worker w)" "\<not> closing (Monitor m)"
  by (simp_all add: closing_def)

lemma early_closing: "early k \<Longrightarrow> closing k"
  by (auto simp: early_def closing_def needs_request_def split: scaling_pc.splits client_pc.splits)

lemma client_started:
  assumes "client_move m t s k k' s'" and "fixed_pc n s (Client k)"
  shows "started s \<longrightarrow> started s'" and "started s' \<longrightarrow> started s \<or> (closing (Client k) \<and> \<not> early (Client k'))"
proof -
  show "started s \<longrightarrow> started s'" using client_closes(1,2) [OF assms(1)] unfolding started_def by blast
  show "started s' \<longrightarrow> started s \<or> (closing (Client k) \<and> \<not> early (Client k'))"
    using client_closes(3,4) [OF assms(1)] assms(2) unfolding started_def fixed_pc_def by blast
qed

lemma fixed_client_pc:
  assumes "client_move m t s k k' s'" and "fixed_pc n s (Client k)"
  shows "fixed_pc n s' (Client k')"
  using assms(1) by cases (use assms(2) in \<open>auto simp: fixed_pc_def shut_wait_def\<close>)

lemma fixed_client:
  assumes "client_move m t s k k' s'" and "fixed_pc n s (Client k)" and "fixed_threads n s" and "fixed_state n s"
    and "notify_ok s (Client k)" and "early (Client k) \<Longrightarrow> \<not> started s"
  shows "fixed_threads n s' \<and> fixed_state n s' \<and>
    (sl_state (sy_pool s) = Scaling_SHUTDOWN \<longrightarrow> sl_state (sy_pool s') = Scaling_SHUTDOWN)"
proof -
  have shut: "sl_state (sy_pool s) = Scaling_SHUTDOWN \<longrightarrow> \<not> (\<exists>b. k = U_SetStop b)"
    using assms(4,6) by (auto simp: fixed_state_def early_def)
  have "started s' \<longrightarrow> sl_isRequestShutDown (sy_pool s')"
    using client_started(2) [OF assms(1,2)] assms(4,5) request_moves(3) [OF assms(1)]
    by (auto simp: fixed_state_def notify_ok_def closing_def)
  then show ?thesis
    using client_fields_moves(1-3) [OF assms(1)] client_started(1) [OF assms(1,2)] assms(3,4) shut
    by (auto simp: fixed_threads_def fixed_state_def)
qed

section \<open>Closers and the count\<close>

lemma closers_client:
  assumes "client_move m t s k k' s'" and "closers_ok s pc" and "pc t = Client k" and "fixed_pc n s (Client k)"
    and "fixed_state n s" and "\<And>u. notify_ok s (pc u)"
  shows "closers_ok s' (pc(t := Client k'))"
proof -
  have req: "sl_isRequestShutDown (sy_pool s)" if "closing (pc u)" for u
    using assms(6) [of u] that by (auto simp: closing_def notify_ok_def split: scaling_pc.splits)
  have uniq: "u = t" if "closing (Client k')" "closing (pc u)" for u
    using client_fields_moves(4) [OF assms(1) that(1)] req [OF that(2)] assms(2,3) that(2) by (auto simp: closers_ok_def)
  have other: "\<not> started s'" if "u \<noteq> t" "early (pc u)" for u
    using client_started(2) [OF assms(1,4)] assms(2,3) that early_closing [OF that(2)] unfolding closers_ok_def by metis
  have self: "\<not> started s'" if "early (Client k')"
    using client_started(2) [OF assms(1,4)] client_fields_moves(5) [OF assms(1) that] assms(2,3,5) that
    unfolding closers_ok_def fixed_state_def by metis
  show ?thesis
    using uniq other self assms(2) unfolding closers_ok_def by (metis fun_upd_apply)
qed

lemma closers_same:
  assumes "closers_ok s pc" and "started s' = started s" and "\<not> closing k"
  shows "closers_ok s' (pc(t := k))"
  using assms early_closing unfolding closers_ok_def by (metis fun_upd_apply)

lemma count_same:
  assumes "count_ok n s pc" and "sy_spawned s' = sy_spawned s"
    and "sl_stoppedThreadNum (sy_pool s') = sl_stoppedThreadNum (sy_pool s)"
    and "sl_state (sy_pool s) = Scaling_SHUTDOWN \<longrightarrow> sl_state (sy_pool s') = Scaling_SHUTDOWN"
    and "\<not> counted k" and "\<not> counted (pc t)"
  shows "count_ok n s' (pc(t := k))"
proof -
  have "{u \<in> set (sy_spawned s). counted ((pc(t := k)) u)} = {u \<in> set (sy_spawned s). counted (pc u)}"
    using assms(5,6) by auto
  moreover have "u \<noteq> t" if "(\<exists>m \<ge> n. pc u = Worker (W_Finish (S_Compare m))) \<or> pc u = Worker (W_Finish S_SetShut)" for u
    using that assms(6) by (auto simp: counted_def)
  ultimately show ?thesis
    using assms(1-4) unfolding count_ok_def by (metis fun_upd_other)
qed

lemma counted_moves:
  "worker_move m t s k k' s' \<Longrightarrow> k \<notin> {W_AsyncClose, W_Recheck, W_Finish S_PushSub, W_Finish S_NotifySub} \<Longrightarrow>
     counted (Worker k') \<longleftrightarrow> counted (Worker k) \<or> k = W_Finish S_Count"
  by (erule worker_move.cases; auto simp: counted_def)

lemma count_worker_card:
  assumes mv: "worker_move m t s k k' s'" and count: "count_ok n s pc" and pc: "pc t = Worker k"
    and ok: "fixed_pc n s (Worker k)" and t: "t \<in> set (sy_spawned s)"
  shows "card {u \<in> set (sy_spawned s). counted ((pc(t := Worker k')) u)} = sl_stoppedThreadNum (sy_pool s')"
proof -
  have c: "counted (Worker k') \<longleftrightarrow> counted (Worker k) \<or> k = W_Finish S_Count"
    using counted_moves [OF mv] ok by (auto simp: fixed_pc_def)
  show ?thesis
  proof (cases "k = W_Finish S_Count")
    case True
    then have "t \<notin> {u \<in> set (sy_spawned s). counted (pc u)}" using pc by (simp add: counted_def)
    moreover have "{u \<in> set (sy_spawned s). counted ((pc(t := Worker k')) u)} = insert t {u \<in> set (sy_spawned s). counted (pc u)}"
      using True t c by auto
    ultimately show ?thesis using count worker_fields_moves(3) [OF mv] True by (simp add: count_ok_def)
  next
    case False
    then have "{u \<in> set (sy_spawned s). counted ((pc(t := Worker k')) u)} = {u \<in> set (sy_spawned s). counted (pc u)}"
      using c pc by auto
    then show ?thesis using count worker_fields_moves(3) [OF mv] False by (simp add: count_ok_def)
  qed
qed

lemma count_worker_state:
  assumes mv: "worker_move m t s k k' s'" and count: "count_ok n s pc" and pc: "pc t = Worker k"
    and len: "length (sl_threads (sy_pool s)) = n" and some: "0 < n" "n \<le> sl_stoppedThreadNum (sy_pool s')"
  shows "sl_state (sy_pool s') = Scaling_SHUTDOWN \<or>
      (\<exists>u. (\<exists>m \<ge> n. (pc(t := Worker k')) u = Worker (W_Finish (S_Compare m))) \<or> (pc(t := Worker k')) u = Worker (W_Finish S_SetShut))"
proof (cases "k = W_Finish S_Count")
  case True
  then have "k' = W_Finish (S_Compare (sl_stoppedThreadNum (sy_pool s')))"
    using mv by (auto elim: worker_move.cases)
  with some(2) show ?thesis
    by (intro disjI2 exI [of _ t] disjI1 exI [of _ "sl_stoppedThreadNum (sy_pool s')"]) simp
next
  case False
  then have "n \<le> sl_stoppedThreadNum (sy_pool s)" using some(2) worker_fields_moves(3) [OF mv] by simp
  with count some(1) consider "sl_state (sy_pool s) = Scaling_SHUTDOWN"
    | u where "u \<noteq> t" "(\<exists>m \<ge> n. pc u = Worker (W_Finish (S_Compare m))) \<or> pc u = Worker (W_Finish S_SetShut)"
    | m where "m \<ge> n" "k = W_Finish (S_Compare m)" | "k = W_Finish S_SetShut"
    unfolding count_ok_def using pc by (metis scaling_pc.inject(2))
  then show ?thesis
  proof cases
    case 1
    then show ?thesis using worker_fields_moves(4) [OF mv] by simp
  next
    case 2
    then show ?thesis by (intro disjI2) (rule exI [of _ u], simp)
  next
    case 3
    then have "k' = W_Finish S_SetShut" using mv len by (auto elim: worker_move.cases)
    then show ?thesis by (intro disjI2 exI [of _ t]) simp
  next
    case 4
    then show ?thesis using worker_fields_moves(4) [OF mv] by simp
  qed
qed

lemma count_worker:
  assumes mv: "worker_move m t s k k' s'" and count: "count_ok n s pc" and pc: "pc t = Worker k"
    and ok: "fixed_pc n s (Worker k)" and t: "t \<in> set (sy_spawned s)" and len: "length (sl_threads (sy_pool s)) = n"
  shows "count_ok n s' (pc(t := Worker k'))"
  using count_worker_card [OF mv count pc ok t] count_worker_state [OF mv count pc len] worker_fields_moves(1) [OF mv]
  by (simp add: count_ok_def)

section \<open>The invariant is kept\<close>

lemma fixed_act_inv:
  assumes inv: "fixed_inv n s pc" and act: "scaling_act e t (pc t) s = Some (k, s')"
  shows "fixed_inv n s' (pc(t := k))"
proof -
  from inv have sc: "scaling_inv n n s pc" and ths: "fixed_threads n s" and st: "fixed_state n s"
    and pcs: "\<And>u. fixed_pc n s (pc u)" and cl: "closers_ok s pc" and cnt: "count_ok n s pc"
    by (auto simp: fixed_inv_def)
  from sc have ready: "pool_ready (sy_pool s)" and size: "size_ok n n s" and log: "log_ok s"
    and notify: "\<And>u. notify_ok s (pc u)" by (auto simp: scaling_inv_def pcs_ok_def)
  have sc': "scaling_inv n n s' (pc(t := k))" by (rule scaling_act_inv [OF sc act])
  have len: "length (sl_threads (sy_pool s)) = n" using ths by (simp add: fixed_threads_def)
  note pct = pcs [of t]
  from act ready show ?thesis
  proof (cases rule: scaling_who)
    case (monitor w w')
    note f = fixed_monitor [OF monitor(3) ths pct [unfolded monitor(1)] size]
    have "fixed_pc n s' (pc u)" for u by (rule fixed_pc_mono [OF pcs]) (simp_all add: f)
    moreover have "closers_ok s' (pc(t := k))" using closers_same [OF cl] f monitor(2) by (simp add: closing_def)
    moreover have "count_ok n s' (pc(t := k))"
      using count_same [OF cnt] f monitor(1,2) by (simp add: counted_def)
    moreover have "fixed_state n s'" using st f request_moves(1) [OF monitor(3)] by (simp add: fixed_state_def)
    ultimately show ?thesis using sc' f monitor(2) by (simp add: fixed_inv_def)
  next
    case (worker m w w')
    note mv = worker(3) and ok = pct [unfolded worker(1)]
    have "fixed_pc n s' (pc u)" for u
      by (rule fixed_pc_mono [OF pcs]) (simp_all add: worker_frames [OF mv ok] worker_fields_moves(3,4) [OF mv])
    moreover have "fixed_pc n s' k"
      using fixed_worker_pc [OF mv ok log st len] size worker(2) by (simp add: size_ok_def)
    moreover have "closers_ok s' (pc(t := k))"
      using closers_same [OF cl] worker_frames(1) [OF mv ok] worker(2) by (simp add: closing_def)
    moreover have "count_ok n s' (pc(t := k))"
      unfolding worker(2) by (rule count_worker [OF mv cnt worker(1) ok worker(4) len])
    moreover have "fixed_threads n s'" using ths by (simp add: fixed_threads_def worker_frames [OF mv ok])
    ultimately show ?thesis using sc' fixed_worker_state [OF mv ok st] by (simp add: fixed_inv_def)
  next
    case (client m c c')
    note mv = client(3) and ok = pct [unfolded client(1)]
    have f: "fixed_threads n s' \<and> fixed_state n s' \<and>
        (sl_state (sy_pool s) = Scaling_SHUTDOWN \<longrightarrow> sl_state (sy_pool s') = Scaling_SHUTDOWN)"
      using fixed_client [OF mv ok ths st] notify [of t] cl client(1) by (metis closers_ok_def)
    have "fixed_pc n s' (pc u)" for u
      by (rule fixed_pc_mono [OF pcs]) (use f client_started(1) [OF mv ok] client_fields_moves(1) [OF mv] in simp_all)
    moreover have "closers_ok s' (pc(t := k))"
      unfolding client(2) by (rule closers_client [OF mv cl client(1) ok st notify])
    moreover have "count_ok n s' (pc(t := k))"
      using count_same [OF cnt] client_fields_moves(1) [OF mv] f client(1,2) by (simp add: counted_def)
    ultimately show ?thesis using sc' f fixed_client_pc [OF mv ok] client(2) by (simp add: fixed_inv_def)
  qed
qed

lemma started_unwait [simp]: "started (scaling_unwait t s) = started s"
  by (simp add: started_def scaling_unwait_def)

lemma fixed_unwait_parts [simp]:
  "fixed_pc n (scaling_unwait t s) k = fixed_pc n s k" "fixed_threads n (scaling_unwait t s) = fixed_threads n s"
  "fixed_state n (scaling_unwait t s) = fixed_state n s" "closers_ok (scaling_unwait t s) pc = closers_ok s pc"
  "count_ok n (scaling_unwait t s) pc = count_ok n s pc"
  unfolding fixed_pc_def fixed_threads_def fixed_state_def closers_ok_def count_ok_def started_unwait
  by (simp_all add: scaling_unwait_def)

lemma fixed_unwait_inv: "fixed_inv n s pc \<Longrightarrow> fixed_inv n (scaling_unwait t s) pc"
  by (simp add: fixed_inv_def scaling_unwait_inv)

lemma fixed_timeout_inv:
  assumes "fixed_inv n s pc" and "scaling_expire (pc t) = Some k"
  shows "fixed_inv n (scaling_unwait t s) (pc(t := k))"
proof -
  have k: "\<not> closing k" "\<not> counted k" "\<not> counted (pc t)" "fixed_pc n s k"
    using assms(2) by (cases "pc t" rule: scaling_expire.cases; auto simp: closing_def counted_def fixed_pc_def)+
  with assms show ?thesis
    using scaling_timeout_inv [of n n s pc t k] closers_same [of s pc s k t] count_same [of n s pc s k t]
    by (simp add: fixed_inv_def)
qed

lemma ctor_workers:
  "sl_workers p = (\<lambda>_. WorkerThread_Init new_mutex) \<Longrightarrow>
     sl_workers (fold ScalingThreadPool_AddWorkerThread is p) = (\<lambda>_. WorkerThread_Init new_mutex)"
  "sl_stoppedThreadNum (fold ScalingThreadPool_AddWorkerThread is p) = sl_stoppedThreadNum p"
  "sl_subWorkerThreadId (fold ScalingThreadPool_AddWorkerThread is p) = sl_subWorkerThreadId p"
  by (induction "is" arbitrary: p) (auto simp: fun_upd_idem)

lemma fixed_start_inv:
  assumes "scaling_start n n = (s, pc)"
  shows "fixed_inv n s pc"
proof -
  from assms have s: "s = \<lparr>sy_pool = ScalingThreadPool_ctor n n, sy_spawned = map worker_tid [0..<n],
      sy_returned = [], sy_pushed = [], sy_popped = [], sy_ran = []\<rparr>" and pc: "pc = snd (scaling_start n n)"
    by (auto simp: scaling_start_def)
  have pool: "\<not> worker_closed (sl_workers (ScalingThreadPool_ctor n n) i)" "sl_stoppedThreadNum (ScalingThreadPool_ctor n n) = 0"
      "sl_subWorkerThreadId (ScalingThreadPool_ctor n n) = []" "sl_state (ScalingThreadPool_ctor n n) = Scaling_RUNNING" for i
    by (simp_all add: ScalingThreadPool_ctor_def ctor_workers)
  have k: "\<not> closing (pc t)" "\<not> counted (pc t)" "fixed_pc n s (pc t)" for t
    by (auto simp: pc scaling_start_def closing_def counted_def fixed_pc_def needs_request_def)
  show ?thesis
    using scaling_start_inv [OF assms] k early_closing
    by (auto simp: fixed_inv_def fixed_threads_def fixed_state_def closers_ok_def count_ok_def started_def s pool ctor_pool)
qed

interpretation fixed_size: machine_invariant scaling_machine "scaling_init n n" "fixed_inv n" for n
proof (unfold_locales, goal_cases)
  case (1 s pc)
  then show ?case by (auto simp: scaling_init_def intro: fixed_start_inv)
next
  case (2 s pc t e k s')
  then show ?case by (auto intro: fixed_act_inv)
next
  case (3 s pc t)
  then show ?case by (simp add: fixed_unwait_inv)
next
  case (4 s pc t k)
  then show ?case by (auto intro: fixed_timeout_inv)
qed

section \<open>End tasks\<close>

text \<open>
  \<open>ShutDown\<close> adds one end task per worker, and a worker that took one leaves its loop: so a worker
  that is still in its loop after \<open>ShutDown\<close> finds a non-empty queue.
\<close>

abbreviation end_tasks :: "'f pool_task list \<Rightarrow> nat" where
  "end_tasks xs \<equiv> count_list xs EndTask"

definition left_loop :: "'f scaling_pc \<Rightarrow> bool" where
  "left_loop k \<longleftrightarrow> (case k of Worker w \<Rightarrow> (case w of W_Finish _ \<Rightarrow> True | W_SetFinished \<Rightarrow> True | W_NotifyClosed \<Rightarrow> True
     | W_Done \<Rightarrow> True | _ \<Rightarrow> False) | _ \<Rightarrow> False)"

fun ends_pc :: "nat \<Rightarrow> nat \<Rightarrow> 'f client_pc \<Rightarrow> bool" where
  "ends_pc n e (U_SetStop now) = (e = 0)"
| "ends_pc n e (U_Lock now) = (e = 0)"
| "ends_pc n e (U_CloseEach now ids) = (e = 0)"
| "ends_pc n e (U_PushEnds now k) = (e + k = n)"
| "ends_pc n e (U_CloseMonitor now) = (e = n)"
| "ends_pc n e (U_PushSub0 now) = (e = n)"
| "ends_pc n e (U_NotifySub0 now) = (e = n)"
| "ends_pc n e c = True"

definition ends_ok :: "nat \<Rightarrow> 'f scaling_sys \<Rightarrow> (tid \<Rightarrow> 'f scaling_pc) \<Rightarrow> bool" where
  "ends_ok n s pc \<longleftrightarrow> end_tasks (sy_popped s) \<le> card {t \<in> set (sy_spawned s). left_loop (pc t)} \<and>
     (\<forall>t c. pc t = Client c \<longrightarrow> ends_pc n (end_tasks (sy_pushed s)) c) \<and>
     (\<not> sl_isRequestShutDown (sy_pool s) \<longrightarrow> end_tasks (sy_pushed s) = 0) \<and>
     (sl_isRequestShutDown (sy_pool s) \<and> (\<forall>t. \<not> closing (pc t)) \<longrightarrow> end_tasks (sy_pushed s) = n)"

lemma ends_pc_free: "\<not> closing (Client c) \<Longrightarrow> ends_pc n e c"
  by (cases c) (auto simp: closing_def needs_request_def)

lemma ends_same:
  assumes "ends_ok n s pc" and "sy_spawned s' = sy_spawned s" and "sy_popped s' = sy_popped s" and "sy_pushed s' = sy_pushed s"
    and "sl_isRequestShutDown (sy_pool s') = sl_isRequestShutDown (sy_pool s)"
    and "left_loop (pc t) \<longrightarrow> left_loop k" and "\<not> closing k" and "\<not> closing (pc t)"
  shows "ends_ok n s' (pc(t := k))"
proof -
  have "card {u \<in> set (sy_spawned s). left_loop (pc u)} \<le> card {u \<in> set (sy_spawned s). left_loop ((pc(t := k)) u)}"
    using assms(6) by (intro card_mono) auto
  moreover have "(\<forall>u. \<not> closing ((pc(t := k)) u)) \<longleftrightarrow> (\<forall>u. \<not> closing (pc u))" using assms(7,8) by auto
  moreover have "ends_pc n e c" if "k = Client c" for e c using ends_pc_free assms(7) that by blast
  ultimately show ?thesis
    using assms(1-5) unfolding ends_ok_def by (auto simp del: fun_upd_apply simp: fun_upd_def)
qed

lemma ends_workers:
  "worker_move m t s k k' s' \<Longrightarrow> sy_pushed s' = sy_pushed s"
  "worker_move m t (s :: 'f scaling_sys) k k' s' \<Longrightarrow> left_loop (Worker k :: 'f scaling_pc) \<Longrightarrow>
     left_loop (Worker k' :: 'f scaling_pc) \<and> sy_popped s' = sy_popped s"
  "worker_move m t (s :: 'f scaling_sys) k k' s' \<Longrightarrow>
     end_tasks (sy_popped s') \<le> end_tasks (sy_popped s) + (if left_loop (Worker k' :: 'f scaling_pc) then 1 else 0)"
  by (erule worker_move.cases; auto simp: left_loop_def)+

lemma ends_worker:
  assumes mv: "worker_move m t s k k' s'" and ok: "ends_ok n s pc" and pc: "pc t = Worker k" and t: "t \<in> set (sy_spawned s)"
  shows "ends_ok n s' (pc(t := Worker k'))"
proof -
  let ?L = "{u \<in> set (sy_spawned s). left_loop (pc u)}" and ?L' = "{u \<in> set (sy_spawned s). left_loop ((pc(t := Worker k')) u)}"
  have "end_tasks (sy_popped s') \<le> card ?L'"
  proof (cases "left_loop (pc t)")
    case True
    with pc have left: "left_loop ((pc(t := Worker k')) t) \<and> sy_popped s' = sy_popped s"
      using ends_workers(2) [OF mv] by simp
    then have "?L' = ?L" using True by auto
    then show ?thesis using left ok by (simp add: ends_ok_def)
  next
    case False
    let ?b = "left_loop ((pc(t := Worker k')) t)"
    have "?L' = (if ?b then insert t ?L else ?L)" and "t \<notin> ?L" using False t by auto
    then have "card ?L' = card ?L + (if ?b then 1 else 0)" by simp
    then show ?thesis using ok ends_workers(3) [OF mv] unfolding ends_ok_def by simp
  qed
  moreover have "(\<forall>u. \<not> closing ((pc(t := Worker k')) u)) \<longleftrightarrow> (\<forall>u. \<not> closing (pc u))"
    using pc not_closing by (metis fun_upd_apply)
  ultimately show ?thesis
    using ok ends_workers(1) [OF mv] worker_fields_moves(1) [OF mv] by (auto simp: ends_ok_def)
qed

lemma ready_free: "ready_client c \<Longrightarrow> \<not> closing (Client c)"
  by (cases c) (auto simp: ready_client_def closing_def needs_request_def)

lemma ends_clients:
  "client_move m t s k k' s' \<Longrightarrow> sy_popped s' = sy_popped s"
  "client_move m t s k k' s' \<Longrightarrow> k \<noteq> U_Push EndTask \<Longrightarrow> \<not> closing (Client k) \<Longrightarrow> end_tasks (sy_pushed s') = end_tasks (sy_pushed s)"
  "client_move m t s k k' s' \<Longrightarrow> k \<noteq> U_Push EndTask \<Longrightarrow> length (sl_threads (sy_pool s)) = n \<Longrightarrow>
     (\<not> sl_isRequestShutDown (sy_pool s) \<longrightarrow> end_tasks (sy_pushed s) = 0) \<Longrightarrow> ends_pc n (end_tasks (sy_pushed s)) k \<Longrightarrow>
     ends_pc n (end_tasks (sy_pushed s')) k'"
  "client_move m t s k k' s' \<Longrightarrow> \<not> closing (Client k) \<Longrightarrow> \<not> closing (Client k') \<Longrightarrow>
     sl_isRequestShutDown (sy_pool s') = sl_isRequestShutDown (sy_pool s)"
  "client_move m t s k k' s' \<Longrightarrow> closing (Client k) \<Longrightarrow> \<not> closing (Client k') \<Longrightarrow> ends_pc n (end_tasks (sy_pushed s)) k \<Longrightarrow>
     end_tasks (sy_pushed s') = n"
  by (erule client_move.cases; use ready_free [of k] in \<open>auto simp: closing_def needs_request_def shut_wait_def\<close>)+

lemma ends_client:
  assumes mv: "client_move m t s k k' s'" and ok: "ends_ok n s pc" and pc: "pc t = Client k" and cl: "closers_ok s pc"
    and k: "fixed_pc n s (Client k)" and len: "length (sl_threads (sy_pool s)) = n" and notify: "\<And>u. notify_ok s (pc u)"
    and t: "t \<notin> set (sy_spawned s)"
  shows "ends_ok n s' (pc(t := Client k'))"
proof -
  have noend: "k \<noteq> U_Push EndTask" using k by (auto simp: fixed_pc_def)
  have req: "sl_isRequestShutDown (sy_pool s)" if "closing (Client k)"
    using that notify [of t] pc by (auto simp: closing_def notify_ok_def)
  have "{u \<in> set (sy_spawned s). left_loop ((pc(t := Client k')) u)} = {u \<in> set (sy_spawned s). left_loop (pc u)}"
    using t by auto
  moreover have "ends_pc n (end_tasks (sy_pushed s')) c" if "(pc(t := Client k')) u = Client c" for u c
  proof (cases "u = t")
    case True
    then show ?thesis
      using that ends_clients(3) [OF mv noend len] ok pc by (auto simp: ends_ok_def)
  next
    case False
    then have u: "pc u = Client c" using that by simp
    show ?thesis
    proof (cases "closing (Client k)")
      case True
      then have "\<not> closing (Client c)" using cl pc u False unfolding closers_ok_def by metis
      then show ?thesis by (rule ends_pc_free)
    next
      case notcl: False
      then show ?thesis using ends_clients(2) [OF mv noend] ok u by (simp add: ends_ok_def)
    qed
  qed
  moreover have "end_tasks (sy_pushed s') = 0" if "\<not> sl_isRequestShutDown (sy_pool s')"
  proof -
    have off: "\<not> sl_isRequestShutDown (sy_pool s)" using that request_moves(3) [OF mv] by blast
    then have "\<not> closing (Client k)" using req by blast
    with off ends_clients(2) [OF mv noend] ok show ?thesis by (simp add: ends_ok_def)
  qed
  moreover have "end_tasks (sy_pushed s') = n" if "sl_isRequestShutDown (sy_pool s')" "\<forall>u. \<not> closing ((pc(t := Client k')) u)"
  proof (cases "closing (Client k)")
    case True
    then show ?thesis using ends_clients(5) [OF mv True] that(2) ok pc by (auto simp: ends_ok_def dest: spec [of _ t])
  next
    case False
    with that(2) pc have "\<forall>u. \<not> closing (pc u)" "\<not> closing (Client k')" by (metis fun_upd_apply)+
    then show ?thesis
      using ok that(1) ends_clients(2) [OF mv noend False] ends_clients(4) [OF mv False] by (simp add: ends_ok_def)
  qed
  ultimately show ?thesis
    using ok ends_clients(1) [OF mv] client_fields_moves(1) [OF mv] by (simp add: ends_ok_def)
qed

lemma ends_unwait [simp]: "ends_ok n (scaling_unwait t s) pc = ends_ok n s pc"
  by (simp add: ends_ok_def scaling_unwait_def)

interpretation fixed_ends: machine_invariant scaling_machine "scaling_init n n" "\<lambda>s pc. fixed_inv n s pc \<and> ends_ok n s pc" for n
proof (unfold_locales, goal_cases)
  case (1 s pc)
  then show ?case
    using fixed_size.init_inv [OF 1]
    by (auto simp: scaling_init_def scaling_start_def ends_ok_def ctor_pool split: if_splits)
next
  case (2 s pc t e k s')
  then have act: "scaling_act e t (pc t) s = Some (k, s')" and inv: "fixed_inv n s pc" and ends: "ends_ok n s pc" by auto
  from inv have ready: "pool_ready (sy_pool s)" and ths: "fixed_threads n s" and pcs: "\<And>u. fixed_pc n s (pc u)"
    and cl: "closers_ok s pc" and ok: "pcs_ok s pc" by (auto simp: fixed_inv_def scaling_inv_def)
  from ok have notify: "notify_ok s (pc u)" and fresh: "fresh_ok s u (pc u)" for u by (simp_all add: pcs_ok_def)
  from act ready have "ends_ok n s' (pc(t := k))"
  proof (cases rule: scaling_who)
    case (monitor w w')
    have "sy_spawned s' = sy_spawned s"
      using fixed_monitor [OF monitor(3) ths pcs [of t, unfolded monitor(1)]] inv by (simp add: fixed_inv_def scaling_inv_def)
    moreover have "sy_pushed s' = sy_pushed s" using monitor(3) by cases simp_all
    ultimately show ?thesis
      using ends_same [OF ends, of s' t k] monitor_frame [OF monitor(3)] request_moves(1) [OF monitor(3)] monitor(1,2)
      by (simp add: left_loop_def closing_def)
  next
    case (worker m w w')
    then show ?thesis using ends_worker [OF worker(3) ends] by simp
  next
    case (client m c c')
    have "t \<notin> set (sy_spawned s)" using fresh [of t] client(1) by (auto simp: fresh_ok_def split: if_splits)
    then show ?thesis
      using ends_client [OF client(3) ends client(1) cl pcs [of t, unfolded client(1)] _ notify] ths client(2)
      by (simp add: fixed_threads_def)
  qed
  with fixed_act_inv [OF inv act] show ?case by simp
next
  case (3 s pc t)
  then show ?case by (simp add: fixed_unwait_inv)
next
  case (4 s pc t k)
  then have ex: "scaling_expire (pc t) = Some k" by simp
  then have "\<not> closing k" "left_loop k = left_loop (pc t)" "\<not> closing (pc t)"
    by (cases "pc t" rule: scaling_expire.cases; auto simp: closing_def left_loop_def)+
  with 4 ends_same [of n s pc s t k] fixed_timeout_inv [of n s pc t k] show ?case by simp
qed

section \<open>The end of the workers\<close>

text \<open>
  \<open>drain_rank\<close> together with the length of the queue bounds the actions that are left to a worker
  once the shutdown has been requested.
\<close>

fun drain_rank :: "stop_pc worker_pc \<Rightarrow> nat" where
  "drain_rank W_Start = 12" | "drain_rank W_GetExpired = 11" | "drain_rank W_Check0 = 10" | "drain_rank W_Judge = 10"
| "drain_rank W_Run = 10" | "drain_rank W_Check = 9" | "drain_rank W_Get = 8" | "drain_rank (W_Finish S_Stop) = 7"
| "drain_rank (W_Finish S_Count) = 6" | "drain_rank (W_Finish (S_Compare _)) = 5" | "drain_rank (W_Finish S_SetShut) = 4"
| "drain_rank (W_Finish S_NotifyShut) = 3" | "drain_rank W_SetFinished = 2" | "drain_rank W_NotifyClosed = 1"
| "drain_rank _ = 0"

definition drain_measure :: "'f scaling_sys \<Rightarrow> stop_pc worker_pc \<Rightarrow> nat" where
  "drain_measure s k = 4 * length (sl_queue (sy_pool s)) + drain_rank k"

lemma drain_moves:
  assumes "worker_move m t s k k' s'" and "sl_isRequestShutDown (sy_pool s)" and "fixed_pc n s (Worker k)"
    and "length (sl_threads (sy_pool s)) \<le> sl_corePoolSize (sy_pool s)" and "k = W_Get \<Longrightarrow> sl_queue (sy_pool s) \<noteq> []"
  shows "drain_measure s' k' < drain_measure s k"
  using assms(1) by cases (use assms(2-5) in \<open>auto simp: drain_measure_def fixed_pc_def\<close>)

lemma drain_enabled:
  assumes "fixed_pc n s (Worker k)" and "pool_ready (sy_pool s)" and "t \<in> set (sy_spawned s)"
    and "k \<notin> {W_Done, W_Threw}" and "k = W_Judge \<Longrightarrow> cv_free (sy_lock s)"
  shows "\<exists>k' s'. scaling_act (L_Step m sp) t (Worker k) s = Some (Worker k', s')"
proof (cases "\<exists>f. k = W_Finish f")
  case True
  then obtain f where f: "k = W_Finish f" ..
  have "\<exists>r. ScalingThreadPool_NotifyWhenThreadsStop m t f (sy_pool s) = Some r"
    using pool_readyD [OF assms(2)] scaling_ops [OF assms(2)] assms(1) f by (cases f) (auto simp: fixed_pc_def sync Let_def)
  then show ?thesis using assms(3) f by (auto simp: scaling_act_def worker_act_def)
next
  case False
  then consider "k \<in> {W_Start, W_Check0, W_SetFinished, W_NotifyClosed}"
    | "k \<in> {W_Check, W_Get, W_GetExpired, W_Judge, W_AsyncClose, W_Recheck, W_Run}"
    using assms(4) by (cases k) auto
  then show ?thesis
  proof cases
    case 1
    then show ?thesis
      using assms(3) thread_act [OF pool_readyD(4) [OF assms(2), of t], of S_Stop t]
      by (auto simp: scaling_act_def worker_act_def worker_work_def simp del: WorkerThread_thread.simps)
  next
    case 2
    have "\<exists>j. (if k = W_Judge then ScalingThreadPool_IfMoreThan t (sy_pool s) else Some (False, sy_pool s)) =
        Some (j, sy_pool s)"
      using assms(5) scaling_ops(4) [OF assms(2), of t] by (cases "k = W_Judge") auto
    then obtain j where j: "(if k = W_Judge then ScalingThreadPool_IfMoreThan t (sy_pool s) else Some (False, sy_pool s)) =
        Some (j, sy_pool s)" ..
    from work_enabled [OF pool_readyD(2) [OF assms(2)] 2] obtain r where
      "WorkerThread_WorkFunction S_Stop j sp t k (sl_taskQueue (sy_pool s)) (sl_workers (sy_pool s) t) = Some r" by blast
    with j have "\<exists>r. worker_work sp t k s = Some r" by (cases r) (simp add: worker_work_def)
    then show ?thesis using assms(3) 2 by (auto simp: scaling_act_def worker_act_def)
  qed
qed

lemma spawned_card: "fixed_inv n s pc \<Longrightarrow> card (set (sy_spawned s)) = n"
  by (simp add: fixed_inv_def fixed_threads_def card_image inj_on_def)

lemma end_task_left:
  assumes "fixed_inv n s pc" and "ends_ok n s pc" and "sl_isRequestShutDown (sy_pool s)" and "\<forall>u. \<not> closing (pc u)"
    and "t \<in> set (sy_spawned s)" and "\<not> left_loop (pc t)"
  shows "sl_queue (sy_pool s) \<noteq> []"
proof
  assume empty: "sl_queue (sy_pool s) = []"
  have "card {u \<in> set (sy_spawned s). left_loop (pc u)} < card (set (sy_spawned s))"
    using assms(5,6) by (intro psubset_card_mono) auto
  moreover have "sy_pushed s = sy_popped s" using assms(1) empty by (simp add: fixed_inv_def scaling_inv_def log_ok_def)
  ultimately show False using assms(2-4) spawned_card [OF assms(1)] by (simp add: ends_ok_def)
qed

section \<open>Properties\<close>

text \<open>
  The size of the pool is constant: at any time it has exactly the workers that the constructor
  made, and \<open>GetThreadNum\<close> answers \<open>threadNum\<close> whenever the guard is free.
\<close>

theorem FixedThreadPool_size_constant:
  assumes "fixed_reachable n s pc" and "cv_free (sl_addOrSub (sy_pool s))"
  shows "sl_threads (sy_pool s) = map worker_tid [0..<n] \<and> sy_spawned s = map worker_tid [0..<n] \<and>
    FixedThreadPool_GetThreadNum t (sy_pool s) = Some (n, sy_pool s)"
  using fixed_size.reachable_inv [OF assms(1)] assms(2)
  by (simp add: fixed_inv_def fixed_threads_def FixedThreadPool_GetThreadNum_def ScalingThreadPool_GetThreadNum_def sync)

text \<open>
  Shutdown ends.  Once \<open>ShutDown\<close> has closed the workers and queued the end tasks, a worker never
  sleeps and never waits for a task in vain: each of its actions is enabled (an idle check waits for the
  guard at most) and decreases a measure made of the length of the queue and its program counter.
\<close>

theorem FixedThreadPool_ShutDown_ends:
  assumes "fixed_reachable n s pc" and "sl_isRequestShutDown (sy_pool s)" and "\<forall>u. \<not> closing (pc u)"
    and "t \<in> set (sy_spawned s)" and "pc t = Worker k" and "k \<notin> {W_Done, W_Threw}" and "k = W_Judge \<Longrightarrow> cv_free (sy_lock s)"
  shows "\<exists>k' s'. mstep scaling_machine (Act t (L_Step m sp)) (s, pc) = Some (s', pc(t := Worker k')) \<and>
    drain_measure s' k' < drain_measure s k"
proof -
  from fixed_ends.reachable_inv [OF assms(1)] have inv: "fixed_inv n s pc" and ends: "ends_ok n s pc" by auto
  then have ready: "pool_ready (sy_pool s)" and ok: "fixed_pc n s (Worker k)" and size: "size_ok n n s" and ths: "fixed_threads n s"
    using assms(5) by (auto simp: fixed_inv_def scaling_inv_def dest: spec [of _ t])
  have queue: "sl_queue (sy_pool s) \<noteq> []" if "k = W_Get"
    using end_task_left [OF inv ends assms(2-4)] assms(5) that by (simp add: left_loop_def)
  then have "m_cond (queue_cond s) = []" if "k = W_Get" using scaling_queue.no_lost_wakeup [OF assms(1)] that by auto
  then have awake: "\<not> scaling_waiting s t"
    using scaling_sleep.reachable_inv [OF assms(1)] assms(5)
    by (auto simp: scaling_waiting_def sleepers_ok_def state_cond_def queue_cond_def sync)
  obtain k' s' where act: "scaling_act (L_Step m sp) t (pc t) s = Some (Worker k', s')"
    using drain_enabled [OF ok ready assms(4,6,7)] assms(5) by metis
  from act ready obtain x where mv: "worker_move x t s k k' s'" by (cases rule: scaling_who) (use assms(5) in auto)
  have "length (sl_threads (sy_pool s)) \<le> sl_corePoolSize (sy_pool s)" using size ths by (simp add: size_ok_def fixed_threads_def)
  from drain_moves [OF mv assms(2) ok this queue] act awake show ?thesis by auto
qed

lemma client_state_advances:
  assumes "client_move m t s k k' s'" and "fixed_state n s" and "early (Client k) \<longrightarrow> \<not> started s"
  shows "sl_state (sy_pool s) \<le> sl_state (sy_pool s')"
  using client_fields_moves(3) [OF assms(1)] assms(2,3) by (auto simp: fixed_state_def early_def)

lemma state_advances:
  assumes inv: "fixed_inv n s pc" and act: "scaling_act e t (pc t) s = Some (k, s')"
  shows "sl_state (sy_pool s) \<le> sl_state (sy_pool s')"
proof -
  from inv have ready: "pool_ready (sy_pool s)" and st: "fixed_state n s" and cl: "early (pc t) \<longrightarrow> \<not> started s"
    by (auto simp: fixed_inv_def scaling_inv_def closers_ok_def)
  from act ready show ?thesis
  proof (cases rule: scaling_who)
    case (monitor w w')
    then show ?thesis using state_moves(1) [OF monitor(3)] by simp
  next
    case (worker m w w')
    then show ?thesis using worker_fields_moves(4) [OF worker(3)] by simp
  next
    case (client m c c')
    then show ?thesis using client_state_advances [OF client(3) st] cl by simp
  qed
qed

lemma shut_counted:
  assumes "fixed_inv n s pc" and "sl_state (sy_pool s) = Scaling_SHUTDOWN" and "t \<in> set (sy_spawned s)"
  shows "counted (pc t)"
proof (rule ccontr)
  assume "\<not> counted (pc t)"
  with assms(3) have "card {u \<in> set (sy_spawned s). counted (pc u)} < card (set (sy_spawned s))"
    by (intro psubset_card_mono) auto
  with spawned_card [OF assms(1)] assms(1,2) show False by (auto simp: fixed_inv_def count_ok_def fixed_state_def)
qed

lemma shut_ran: "worker_move m t s k k' s' \<Longrightarrow> k \<noteq> W_Run \<Longrightarrow> sy_ran s' = sy_ran s"
  by (erule worker_move.cases; simp)

lemma shut_act:
  assumes inv: "fixed_inv n s pc" and shut: "sl_state (sy_pool s) = Scaling_SHUTDOWN"
    and act: "scaling_act e t (pc t) s = Some (k, s')"
  shows "sl_state (sy_pool s') = Scaling_SHUTDOWN \<and> sy_ran s' = sy_ran s"
proof -
  from inv have ready: "pool_ready (sy_pool s)" and ths: "fixed_threads n s" and pcs: "\<And>u. fixed_pc n s (pc u)"
    and st: "fixed_state n s" and size: "size_ok n n s" and notify: "notify_ok s (pc t)"
    and cl: "early (pc t) \<longrightarrow> \<not> started s" by (auto simp: fixed_inv_def scaling_inv_def pcs_ok_def closers_ok_def)
  from act ready show ?thesis
  proof (cases rule: scaling_who)
    case (monitor w w')
    then show ?thesis
      using fixed_monitor [OF monitor(3) ths pcs [of t, unfolded monitor(1)] size] monitor_frame [OF monitor(3)] shut by simp
  next
    case (worker m w w')
    then have "w \<noteq> W_Run" using shut_counted [OF inv shut worker(4)] by (auto simp: counted_def)
    then show ?thesis using shut_ran [OF worker(3)] worker_fields_moves(4) [OF worker(3)] shut by simp
  next
    case (client m c c')
    then show ?thesis
      using fixed_client [OF client(3) pcs [of t, unfolded client(1)] ths st] notify cl client_frame [OF client(3)] shut by simp
  qed
qed

lemma shut_future:
  "machine_invariant scaling_machine (\<lambda>cfg. cfg = (s0, pc0) \<and> fixed_inv n s0 pc0 \<and> sl_state (sy_pool s0) = Scaling_SHUTDOWN)
     (\<lambda>s pc. fixed_inv n s pc \<and> sl_state (sy_pool s) = Scaling_SHUTDOWN \<and> sy_ran s = sy_ran s0)"
proof (unfold_locales, goal_cases)
  case (1 s pc)
  then show ?case by auto
next
  case (2 s pc t e k s')
  then have act: "scaling_act e t (pc t) s = Some (k, s')" and inv: "fixed_inv n s pc"
    and shut: "sl_state (sy_pool s) = Scaling_SHUTDOWN" by auto
  show ?case using shut_act [OF inv shut act] fixed_act_inv [OF inv act] 2 by simp
next
  case (3 s pc t)
  then show ?case by (simp add: fixed_unwait_inv) (simp add: scaling_unwait_def)
next
  case (4 s pc t k)
  then show ?case by (simp add: fixed_timeout_inv) (simp add: scaling_unwait_def)
qed

text \<open>
  C16: shutdown is final: once \<open>IsShutDown\<close> answers true, or \<open>ShutDownNow\<close> has returned after its wait,
  every worker has left its loop and been counted, and no task runs in any future.
\<close>

theorem FixedThreadPool_shutdown_is_final:
  assumes "fixed_reachable n s pc"
    and "FixedThreadPool_IsShutDown u (sy_pool s) = Some (True, p) \<or> pc u = Client (U_ShutReturned True)"
    and "reachable scaling_machine (\<lambda>cfg. cfg = (s, pc)) (s', pc')"
  shows "sy_ran s' = sy_ran s \<and> (\<forall>i < n. counted (pc' (worker_tid i)))"
proof -
  have inv: "fixed_inv n s pc" by (rule fixed_size.reachable_inv [OF assms(1)])
  then have "fixed_pc n s (pc u)" "pool_ready (sy_pool s)" by (auto simp: fixed_inv_def scaling_inv_def)
  with assms(2) have "sl_state (sy_pool s) = Scaling_SHUTDOWN"
    by (auto simp: fixed_pc_def FixedThreadPool_IsShutDown_def ScalingThreadPool_IsShutDown_def ScalingThreadPool_DoIsShutDown_def
        pool_readyD sync)
  with inv assms(3) machine_invariant.reachable_inv [OF shut_future [of s pc n], of s' pc']
  have fin: "fixed_inv n s' pc'" "sl_state (sy_pool s') = Scaling_SHUTDOWN" "sy_ran s' = sy_ran s" by simp_all
  have "worker_tid i \<in> set (sy_spawned s')" if "i < n" for i
    using fin(1) that by (auto simp: fixed_inv_def fixed_threads_def)
  with fin shut_counted [OF fin(1,2)] show ?thesis by blast
qed

text \<open>
  The state of the pool only advances: RUNNING, STOP, SHUTDOWN in this order, whatever the
  threads do (a scaling pool can go back from SHUTDOWN to STOP).
\<close>

theorem FixedThreadPool_state_advances:
  assumes "fixed_reachable n s pc" and "step scaling_machine (s, pc) (s', pc')"
  shows "sl_state (sy_pool s) \<le> sl_state (sy_pool s')"
  using assms(2)
proof (cases rule: step.cases)
  case (step_act t e k)
  then show ?thesis using state_advances [OF fixed_size.reachable_inv [OF assms(1)]] by simp
qed (simp_all add: scaling_unwait_def)

text \<open>
  C28: when every worker of a pool of \<open>n\<close> threads, \<open>0 < n\<close>, has left its work function normally (none was
  ended by a task that threw), the pool is SHUTDOWN and \<open>ShutDownNow\<close> returns: a client that waits in it
  is awake and returns with its next action.  Without the two conditions it may wait for ever (lemma
  \<open>ScalingThreadPool_ShutDownNow_may_hang\<close>).
\<close>

theorem FixedThreadPool_ShutDownNow_returns:
  assumes "fixed_reachable n s pc" and "0 < n" and "\<forall>i < n. pc (worker_tid i) = Worker W_Done" and "pc t = Client U_WaitShut"
  shows "sl_state (sy_pool s) = Scaling_SHUTDOWN \<and> m_cond (sl_stateGuard (sy_pool s)) = [] \<and>
    mstep scaling_machine (Act t (L_Step m sp)) (s, pc) = Some (s, pc(t := Client (U_ShutReturned True)))"
proof -
  have inv: "fixed_inv n s pc" by (rule fixed_size.reachable_inv [OF assms(1)])
  then have ready: "pool_ready (sy_pool s)" and fresh: "\<And>u. fresh_ok s u (pc u)" and ths: "fixed_threads n s"
    and cnt: "count_ok n s pc" by (auto simp: fixed_inv_def scaling_inv_def pcs_ok_def)
  have ended: "pc u = Worker W_Done" if "u \<in> set (sy_spawned s)" for u
    using that ths assms(3) by (auto simp: fixed_threads_def)
  have quiet: "pc u = Worker W_Start \<or> pc u = Worker W_Done \<or> (\<forall>w. pc u \<noteq> Worker w)" for u
    using fresh [of u] ended [of u] by (auto simp: fresh_ok_def split: if_splits)
  have "{u \<in> set (sy_spawned s). counted (pc u)} = set (sy_spawned s)" using ended by (auto simp: counted_def)
  then have "sl_stoppedThreadNum (sy_pool s) = n" using cnt spawned_card [OF inv] by (simp add: count_ok_def)
  moreover have "pc u \<noteq> Worker (W_Finish f)" for u f using quiet [of u] by auto
  ultimately have shut: "sl_state (sy_pool s) = Scaling_SHUTDOWN"
    using cnt assms(2) by (auto simp: count_ok_def)
  have "pc u \<noteq> Worker (W_Finish S_NotifyShut)" for u using quiet [of u] by auto
  then have "m_cond (state_cond s) = []"
    using scaling_shut.no_waiter_left [OF assms(1)] shut by (simp add: waking_def)
  then show ?thesis
    using shut assms(4) scaling_sleep.reachable_inv [OF assms(1)] pool_readyD(1) [OF ready]
    by (auto simp: sleepers_ok_def state_cond_def scaling_waiting_def queue_cond_def scaling_act_def client_act_def
        ScalingThreadPool_DoIsShutDown_def sync)
qed

section \<open>Witnesses\<close>

theorem FixedThreadPool_size_constant_witness:
  "\<exists>(s :: nat scaling_sys) pc. fixed_reachable 2 s pc \<and> sl_isRequestShutDown (sy_pool s) \<and>
     FixedThreadPool_GetThreadNum 4 (sy_pool s) = Some (2, sy_pool s)"
proof -
  have "run_check scaling_machine [Act 2 (CallShut True), L 2]
      (scaling_start 2 2 :: (nat scaling_sys, nat scaling_pc) config)
      (\<lambda>s pc. sl_isRequestShutDown (sy_pool s) \<and> cv_free (sl_addOrSub (sy_pool s)))"
    by code_simp
  from run_check_reachable [where init = "scaling_init 2 2", OF this]
  obtain s :: "nat scaling_sys" and pc where
    "fixed_reachable 2 s pc" "sl_isRequestShutDown (sy_pool s)" "cv_free (sl_addOrSub (sy_pool s))" by (auto simp: scaling_init_def)
  with FixedThreadPool_size_constant [of 2 s pc 4] show ?thesis by blast
qed

theorem FixedThreadPool_ShutDown_ends_witness:
  "\<exists>(s :: nat scaling_sys) pc k' s'. fixed_reachable 1 s pc \<and>
     mstep scaling_machine (L 1) (s, pc) = Some (s', pc(1 := Worker k')) \<and> drain_measure s' k' < drain_measure s W_Get"
proof -
  have "run_check scaling_machine ([L 1, L 1, L 1, L 1] @ Act 2 (CallShut True) # replicate 11 (L 2))
      (fst (scaling_start 1 1 :: (nat scaling_sys, nat scaling_pc) config), snd (scaling_start 1 1))
      (\<lambda>s pc. sl_isRequestShutDown (sy_pool s) \<and> pc 1 = Worker W_Get \<and> pc 2 = Client U_WaitShut \<and> sy_spawned s = [1])"
    by code_simp
  from run_check_reachable_frame [where init = "scaling_init 1 1", OF this]
  obtain s :: "nat scaling_sys" and pc where r: "fixed_reachable 1 s pc" "sl_isRequestShutDown (sy_pool s)"
      "pc 1 = Worker W_Get" "pc 2 = Client U_WaitShut" "sy_spawned s = [1]"
      and frame: "\<forall>t. t \<noteq> 1 \<and> t \<noteq> 2 \<longrightarrow> pc t = snd (scaling_start 1 1) t"
    by (auto simp: scaling_init_def)
  have "\<not> closing (pc u)" for u
    using r(3,4) frame by (cases "u = 1"; cases "u = 2") (auto simp: scaling_start_def closing_def needs_request_def)
  with FixedThreadPool_ShutDown_ends [OF r(1,2) _ _ r(3), of 0 False] r(1,5) show ?thesis
    by (simp del: mstep.simps) blast
qed

theorem FixedThreadPool_shutdown_is_final_witness:
  "\<exists>(s :: nat scaling_sys) pc. fixed_reachable 1 s pc \<and> sy_ran s = [7] \<and> sl_queue (sy_pool s) = [EndTask] \<and>
     (\<forall>s' pc'. reachable scaling_machine (\<lambda>cfg. cfg = (s, pc)) (s', pc') \<longrightarrow> sy_ran s' = [7] \<and> counted (pc' 1))"
proof -
  have "run_check scaling_machine ([Act 2 (CallAddFunctor 7), L 2, L 2, L 2, L 1, L 1, L 1, L 1, L 1] @
        Act 2 (CallShut True) # replicate 11 (L 2) @ replicate 8 (L 1) @ [L 2])
      (scaling_start 1 1 :: (nat scaling_sys, nat scaling_pc) config)
      (\<lambda>s pc. pc 2 = Client (U_ShutReturned True) \<and> sy_ran s = [7] \<and> sl_queue (sy_pool s) = [EndTask])"
    by code_simp
  from run_check_reachable [where init = "scaling_init 1 1", OF this]
  obtain s :: "nat scaling_sys" and pc where r: "fixed_reachable 1 s pc" "pc 2 = Client (U_ShutReturned True)"
      "sy_ran s = [7]" "sl_queue (sy_pool s) = [EndTask]" by (auto simp: scaling_init_def)
  then have "sy_ran s' = [7] \<and> counted (pc' 1)" if "reachable scaling_machine (\<lambda>cfg. cfg = (s, pc)) (s', pc')" for s' pc'
    using FixedThreadPool_shutdown_is_final [OF r(1) _ that, of 2] by (auto simp: worker_tid_def)
  with r show ?thesis by blast
qed

theorem FixedThreadPool_state_advances_witness:
  "\<exists>(s :: nat scaling_sys) pc s'. fixed_reachable 1 s pc \<and> mstep scaling_machine (L 2) (s, pc) = Some (s', pc(2 := Client (U_Lock True))) \<and>
     Scaling_RUNNING = sl_state (sy_pool s) \<and> Scaling_RUNNING \<le> sl_state (sy_pool s')"
proof -
  have "run_check scaling_machine [Act 2 (CallShut True), L 2] (scaling_start 1 1 :: (nat scaling_sys, nat scaling_pc) config)
      (\<lambda>s pc. pc 2 = Client (U_SetStop True) \<and> sl_state (sy_pool s) = Scaling_RUNNING \<and> \<not> scaling_waiting s 2)"
    by code_simp
  from run_check_reachable [where init = "scaling_init 1 1", OF this]
  obtain s :: "nat scaling_sys" and pc where r: "fixed_reachable 1 s pc" "pc 2 = Client (U_SetStop True)"
      "sl_state (sy_pool s) = Scaling_RUNNING" "\<not> scaling_waiting s 2" by (auto simp: scaling_init_def)
  have ready: "pool_ready (sy_pool s)" using scaling.reachable_inv [OF r(1)] by (simp add: scaling_inv_def)
  obtain s' where s': "mstep scaling_machine (L 2) (s, pc) = Some (s', pc(2 := Client (U_Lock True)))"
    using r(2,4) scaling_ops(6) [OF ready, of 2 Scaling_STOP] by (auto simp: scaling_act_def client_act_def)
  from FixedThreadPool_state_advances [OF r(1) mstep_step [OF s']] r(1,3) s' show ?thesis by metis
qed

theorem FixedThreadPool_ShutDownNow_returns_witness:
  "\<exists>(s :: nat scaling_sys) pc. fixed_reachable 1 s pc \<and>
     mstep scaling_machine (L 2) (s, pc) = Some (s, pc(2 := Client (U_ShutReturned True)))"
proof -
  have "run_check scaling_machine (Act 2 (CallShut True) # replicate 11 (L 2) @ replicate 9 (L 1))
      (scaling_start 1 1 :: (nat scaling_sys, nat scaling_pc) config)
      (\<lambda>s pc. pc 1 = Worker W_Done \<and> pc 2 = Client U_WaitShut)"
    by code_simp
  from run_check_reachable [where init = "scaling_init 1 1", OF this]
  obtain s :: "nat scaling_sys" and pc where r: "fixed_reachable 1 s pc" "pc 1 = Worker W_Done" "pc 2 = Client U_WaitShut"
    by (auto simp: scaling_init_def)
  have "\<forall>i < 1. pc (worker_tid i) = Worker W_Done" using r(2) by (simp add: worker_tid_def)
  with FixedThreadPool_ShutDownNow_returns [OF r(1) _ _ r(3), of 0 False] r(1) show ?thesis
    by (simp del: mstep.simps) blast
qed

end
