(* ===== verification/FutureTask.thy ===== *)
theory FutureTask
  imports Sync
begin

text \<open>
  \<open>include/empool/FutureTask.h\<close>, \<open>include/empool/FunctorFutureTask.h\<close>: a task whose body computes a
  value, and \<open>GetResult\<close>, which waits for it.  \<open>DoRun\<close> holds the mutex of the result while \<open>Call\<close>
  computes.  \<open>TryGetResult\<close> has no model: it locks a \<open>ConditionVariable\<close> with a \<open>MutexLocker\<close>, whose
  constructor takes a \<open>Mutex\<close>, so it does not compile when it is used.
\<close>

section \<open>The task\<close>

text \<open>\<open>m_result\<close> has no value of its own before the first run.\<close>

record 'v future_task =
  ft_result :: "'v option"
  ft_isResultReturned :: bool
  ft_resultCondition :: condition_variable

definition FutureTask_ctor :: "mutex \<Rightarrow> 'v future_task" where
  "FutureTask_ctor m = \<lparr>ft_result = None, ft_isResultReturned = False, ft_resultCondition = ConditionVariable_ctor m\<rparr>"

definition IsResultReturned :: "'v future_task \<Rightarrow> bool" where
  "IsResultReturned p = ft_isResultReturned p"

text \<open>
  The actions of \<open>DoRun\<close>: take the lock and notify, \<open>m_result = Call()\<close>, set the flag and leave the
  scope; when \<open>Call\<close> throws, the destructor of the locker gives the mutex back.
\<close>

datatype 'v future_pc = F_Idle | F_Lock | F_Call | F_Flag | F_Ran | F_Threw | F_Get | F_Got "'v option"

datatype 'v future_ev = CallRun | CallGetResult | F_Step | Call_returns 'v | Call_throws

fun FutureTask_DoRun :: "'v future_ev \<Rightarrow> tid \<Rightarrow> 'v future_pc \<Rightarrow> 'v future_task \<Rightarrow>
    ('v future_pc \<times> 'v future_task) option" where
  "FutureTask_DoRun F_Step t F_Lock p =
     do { l \<leftarrow> ConditionNotifyAllLocker t (\<not> IsResultReturned p) (ft_resultCondition p);
          Some (F_Call, p\<lparr>ft_resultCondition := l\<rparr>) }"
| "FutureTask_DoRun (Call_returns v) t F_Call p = Some (F_Flag, p\<lparr>ft_result := Some v\<rparr>)"
| "FutureTask_DoRun Call_throws t F_Call p =
     Some (F_Threw, p\<lparr>ft_resultCondition := ConditionNotifyAllLocker_dtor (ft_resultCondition p)\<rparr>)"
| "FutureTask_DoRun F_Step t F_Flag p =
     Some (F_Ran, p\<lparr>ft_isResultReturned := True,
                    ft_resultCondition := ConditionNotifyAllLocker_dtor (ft_resultCondition p)\<rparr>)"
| "FutureTask_DoRun _ _ _ _ = None"

definition FutureTask_GetResult :: "tid \<Rightarrow> 'v future_task \<Rightarrow> ('v option attempt \<times> 'v future_task) option" where
  "FutureTask_GetResult t p =
     do { (slept, l) \<leftarrow> ConditionWaitLocker t (\<not> IsResultReturned p) (ft_resultCondition p);
          Some (if slept then (Slept, p\<lparr>ft_resultCondition := l\<rparr>)
                else (Returned (ft_result p), p\<lparr>ft_resultCondition := ConditionWaitLocker_dtor l\<rparr>)) }"

text \<open>
  \<open>MakeFunctorFutureTask\<close> returns what \<open>MakeFunctorFutureTask\<close> returns: the call never ends.
\<close>

datatype ('f, 'v) functor_future_task = FunctorFutureTask (future_functor: 'f) (future_base: "'v future_task")

definition FunctorFutureTask_ctor :: "mutex \<Rightarrow> 'f \<Rightarrow> ('f, 'v) functor_future_task" where
  "FunctorFutureTask_ctor m f = FunctorFutureTask f (FutureTask_ctor m)"

text \<open>\<open>Call\<close> applies the functor; \<open>apply_functor\<close> says what that gives.\<close>

definition FunctorFutureTask_Call :: "('f \<Rightarrow> 'v) \<Rightarrow> ('f, 'v) functor_future_task \<Rightarrow> 'v" where
  "FunctorFutureTask_Call apply_functor p = apply_functor (future_functor p)"

partial_function (option) MakeFunctorFutureTask :: "'f \<Rightarrow> ('f, 'v) functor_future_task option" where
  "MakeFunctorFutureTask f = MakeFunctorFutureTask f"

lemma MakeFunctorFutureTask_None: "MakeFunctorFutureTask f = Some p \<Longrightarrow> False"
  by (rule MakeFunctorFutureTask.raw_induct [of "\<lambda>_ _. False"]) auto

section \<open>Any number of runs and readers\<close>

text \<open>\<open>fs_calls\<close> logs what the completed calls have returned.\<close>

record 'v future_sys =
  fs_task :: "'v future_task"
  fs_calls :: "'v list"

definition future_ready :: "'v future_pc \<Rightarrow> bool" where
  "future_ready k \<longleftrightarrow> (case k of F_Idle \<Rightarrow> True | F_Ran \<Rightarrow> True | F_Threw \<Rightarrow> True | F_Got _ \<Rightarrow> True | _ \<Rightarrow> False)"

definition future_act :: "'v future_ev \<Rightarrow> tid \<Rightarrow> 'v future_pc \<Rightarrow> 'v future_sys \<Rightarrow>
    ('v future_pc \<times> 'v future_sys) option" where
  "future_act e t k s =
     (if e = CallRun then (if future_ready k then Some (F_Lock, s) else None)
      else if e = CallGetResult then (if future_ready k then Some (F_Get, s) else None)
      else if k = F_Get then
        (if e = F_Step then
           map_option (\<lambda>(r, p). (case r of Slept \<Rightarrow> F_Get | Returned v \<Rightarrow> F_Got v, s\<lparr>fs_task := p\<rparr>))
             (FutureTask_GetResult t (fs_task s))
         else None)
      else map_option (\<lambda>(k', p). (k', s\<lparr>fs_task := p,
             fs_calls := fs_calls s @ (case e of Call_returns v \<Rightarrow> [v] | _ \<Rightarrow> [])\<rparr>)) (FutureTask_DoRun e t k (fs_task s)))"

definition future_waiting :: "'v future_sys \<Rightarrow> tid \<Rightarrow> bool" where
  "future_waiting s t \<longleftrightarrow> cv_waiting (ft_resultCondition (fs_task s)) t"

definition future_unwait :: "tid \<Rightarrow> 'v future_sys \<Rightarrow> 'v future_sys" where
  "future_unwait t s = s\<lparr>fs_task := (fs_task s)\<lparr>ft_resultCondition := cv_unwait t (ft_resultCondition (fs_task s))\<rparr>\<rparr>"

definition future_machine :: "('v future_sys, 'v future_pc, 'v future_ev) machine" where
  "future_machine = \<lparr>act = future_act, waiting = future_waiting, unwait = future_unwait, expire = (\<lambda>_. None)\<rparr>"

definition future_start :: "('v future_sys, 'v future_pc) config" where
  "future_start = (\<lparr>fs_task = FutureTask_ctor \<lparr>m_isInit = True, m_owner = None\<rparr>, fs_calls = []\<rparr>, \<lambda>_. F_Idle)"

definition future_init :: "('v future_sys, 'v future_pc) config \<Rightarrow> bool" where
  "future_init c \<longleftrightarrow> c = future_start"

abbreviation future_reachable :: "'v future_sys \<Rightarrow> (tid \<Rightarrow> 'v future_pc) \<Rightarrow> bool" where
  "future_reachable s pc \<equiv> reachable future_machine future_init (s, pc)"

section \<open>The invariant\<close>

abbreviation future_cond :: "'v future_sys \<Rightarrow> condition_variable" where
  "future_cond s \<equiv> ft_resultCondition (fs_task s)"

abbreviation future_owner :: "'v future_sys \<Rightarrow> tid option" where
  "future_owner s \<equiv> m_owner (cv_mutex (future_cond s))"

definition running_call :: "'v future_pc \<Rightarrow> bool" where
  "running_call k \<longleftrightarrow> k = F_Call \<or> k = F_Flag"

text \<open>What holds at one program counter.\<close>

definition future_pc_ok :: "'v future_sys \<Rightarrow> 'v future_pc \<Rightarrow> bool" where
  "future_pc_ok s k \<longleftrightarrow> (\<forall>r. k = F_Got r \<longrightarrow> (\<exists>v \<in> set (fs_calls s). r = Some v)) \<and>
     (running_call k \<longrightarrow> m_cond (future_cond s) = [] \<or> ft_isResultReturned (fs_task s)) \<and>
     (k = F_Flag \<longrightarrow> fs_calls s \<noteq> [])"

definition future_inv :: "'v future_sys \<Rightarrow> (tid \<Rightarrow> 'v future_pc) \<Rightarrow> bool" where
  "future_inv s pc \<longleftrightarrow> m_isInit (cv_mutex (future_cond s)) \<and>
     (\<forall>t. running_call (pc t) \<longleftrightarrow> future_owner s = Some t) \<and> (\<forall>t. future_pc_ok s (pc t)) \<and>
     (\<forall>t. cv_waiting (future_cond s) t \<longrightarrow> pc t = F_Get) \<and>
     (ft_isResultReturned (fs_task s) \<longrightarrow> fs_calls s \<noteq> []) \<and>
     ft_result (fs_task s) = (if fs_calls s = [] then None else Some (last (fs_calls s)))"

inductive future_move :: "tid \<Rightarrow> 'v future_sys \<Rightarrow> 'v future_pc \<Rightarrow> 'v future_pc \<Rightarrow> 'v future_sys \<Rightarrow> bool"
  for t :: tid and s :: "'v future_sys" where
  call: "future_ready k \<Longrightarrow> k' \<in> {F_Lock, F_Get} \<Longrightarrow> future_move t s k k' s"
| lock: "cv_free (future_cond s) \<Longrightarrow> future_move t s F_Lock F_Call (s\<lparr>fs_task := (fs_task s)\<lparr>ft_resultCondition :=
     cv_hold t (if ft_isResultReturned (fs_task s) then future_cond s else CV_NotifyAll (future_cond s))\<rparr>\<rparr>)"
| compute: "future_move t s F_Call F_Flag (s\<lparr>fs_task := (fs_task s)\<lparr>ft_result := Some v\<rparr>, fs_calls := fs_calls s @ [v]\<rparr>)"
| thrown: "future_move t s F_Call F_Threw (s\<lparr>fs_task := (fs_task s)\<lparr>ft_resultCondition := CV_Unlock (future_cond s)\<rparr>\<rparr>)"
| flag: "future_move t s F_Flag F_Ran (s\<lparr>fs_task := (fs_task s)\<lparr>ft_isResultReturned := True,
     ft_resultCondition := CV_Unlock (future_cond s)\<rparr>\<rparr>)"
| sleep: "cv_free (future_cond s) \<Longrightarrow> \<not> ft_isResultReturned (fs_task s) \<Longrightarrow> future_move t s F_Get F_Get
     (s\<lparr>fs_task := (fs_task s)\<lparr>ft_resultCondition := (future_cond s)\<lparr>m_cond := m_cond (future_cond s) @ [t]\<rparr>\<rparr>\<rparr>)"
| got: "cv_free (future_cond s) \<Longrightarrow> ft_isResultReturned (fs_task s) \<Longrightarrow> future_move t s F_Get (F_Got (ft_result (fs_task s))) s"

lemma future_locks:
  assumes "m_isInit (cv_mutex c)"
  shows "ConditionNotifyAllLocker t f c = (if cv_free c then Some (cv_hold t (if f then CV_NotifyAll c else c)) else None)"
    and "ConditionWaitLocker t f c =
      (if cv_free c then Some (if f then (True, c\<lparr>m_cond := m_cond c @ [t]\<rparr>) else (False, cv_hold t c)) else None)"
proof -
  have "CV_Lock t c = (if cv_free c then Some (cv_hold t c) else None)"
    using assms by (auto simp: cv_defs)
  then show "ConditionNotifyAllLocker t f c = (if cv_free c then Some (cv_hold t (if f then CV_NotifyAll c else c)) else None)"
    and "ConditionWaitLocker t f c =
      (if cv_free c then Some (if f then (True, c\<lparr>m_cond := m_cond c @ [t]\<rparr>) else (False, cv_hold t c)) else None)"
    by (simp_all add: locker_defs sync)
qed

lemma future_act_move:
  assumes "future_act e t k s = Some (k', s')" and "m_isInit (cv_mutex (future_cond s))"
  shows "future_move t s k k' s'"
proof -
  have "future_move t s k k' s'" if "k = F_Get" "e = F_Step"
    using assms that future_move.intros(6,7) [where t = t and s = s]
    by (auto simp: future_act_def FutureTask_GetResult_def IsResultReturned_def future_locks
      ConditionWaitLocker_dtor_def sync split: if_splits)
  moreover have "future_move t s k k' s'" if "k \<noteq> F_Get" "e \<noteq> CallRun" "e \<noteq> CallGetResult"
    using assms that future_move.intros(2-5) [where t = t and s = s]
    by (cases e; cases k)
       (auto simp: future_act_def IsResultReturned_def future_locks ConditionNotifyAllLocker_dtor_def sync split: if_splits)
  ultimately show ?thesis
    using assms(1) by (auto simp: future_act_def intro: future_move.intros split: if_splits)
qed

text \<open>The three kinds of facts, one lemma each: the lock, the moving thread, the other threads.\<close>

lemma future_move_lock:
  "future_move t s k k' s' \<Longrightarrow> m_isInit (cv_mutex (future_cond s)) \<Longrightarrow> m_isInit (cv_mutex (future_cond s')) \<and>
     (running_call k' = running_call k \<and> future_owner s' = future_owner s
      \<or> \<not> running_call k \<and> running_call k' \<and> future_owner s = None \<and> future_owner s' = Some t
      \<or> running_call k \<and> \<not> running_call k' \<and> future_owner s' = None)"
  by (erule future_move.cases; auto simp: running_call_def future_ready_def cv_defs)

lemma future_move_results:
  "future_move t s k k' s' \<Longrightarrow> (\<exists>vs. fs_calls s' = fs_calls s @ vs) \<and>
     (ft_isResultReturned (fs_task s) \<longrightarrow> ft_isResultReturned (fs_task s'))"
  by (erule future_move.cases; simp)

lemma future_move_result:
  assumes "future_move t s k k' s'"
    and "ft_result (fs_task s) = (if fs_calls s = [] then None else Some (last (fs_calls s)))"
    and "ft_isResultReturned (fs_task s) \<longrightarrow> fs_calls s \<noteq> []" and "future_pc_ok s k"
  shows "ft_result (fs_task s') = (if fs_calls s' = [] then None else Some (last (fs_calls s')))"
    and "ft_isResultReturned (fs_task s') \<longrightarrow> fs_calls s' \<noteq> []"
    and "\<forall>r. k' = F_Got r \<longrightarrow> (\<exists>v \<in> set (fs_calls s'). r = Some v)" and "k' = F_Flag \<longrightarrow> fs_calls s' \<noteq> []"
  using assms(1) by (cases; use assms(2-4) in \<open>auto simp: future_pc_ok_def\<close>)+

lemma future_move_cond:
  "future_move t s k k' s' \<Longrightarrow> cv_waiting (future_cond s') u \<Longrightarrow> cv_waiting (future_cond s) u \<or> u = t \<and> k' = F_Get"
  "future_move t s k k' s' \<Longrightarrow> future_pc_ok s k \<Longrightarrow> running_call k' \<Longrightarrow>
     m_cond (future_cond s') = [] \<or> ft_isResultReturned (fs_task s')"
  "future_move t s k k' s' \<Longrightarrow> \<not> cv_free (future_cond s) \<Longrightarrow> m_cond (future_cond s') = m_cond (future_cond s)"
  by (erule future_move.cases; auto simp: running_call_def future_pc_ok_def future_ready_def sync CV_Unlock_def split: if_splits)+

lemma future_act_inv:
  assumes inv: "future_inv s pc" and act: "future_act e t (pc t) s = Some (k, s')" and awake: "\<not> future_waiting s t"
  shows "future_inv s' (pc(t := k))"
proof -
  from inv have init: "m_isInit (cv_mutex (future_cond s))" and own: "\<And>u. running_call (pc u) \<longleftrightarrow> future_owner s = Some u"
    and ok: "\<And>u. future_pc_ok s (pc u)" and wait: "\<And>u. cv_waiting (future_cond s) u \<Longrightarrow> pc u = F_Get"
    and ret: "ft_isResultReturned (fs_task s) \<longrightarrow> fs_calls s \<noteq> []"
    and res: "ft_result (fs_task s) = (if fs_calls s = [] then None else Some (last (fs_calls s)))"
    by (auto simp: future_inv_def)
  note mv = future_act_move [OF act init]
  note r = future_move_result [OF mv res ret ok] and lock = future_move_lock [OF mv init] and grow = future_move_results [OF mv]
  have "running_call ((pc(t := k)) u) \<longleftrightarrow> future_owner s' = Some u" for u
    using lock own [of u] own [of t] by (cases "u = t") auto
  moreover have "future_pc_ok s' k"
    using r(3,4) future_move_cond(2) [OF mv ok] by (simp add: future_pc_ok_def)
  moreover have "future_pc_ok s' (pc u)" if "u \<noteq> t" for u
  proof -
    have "m_cond (future_cond s') = [] \<or> ft_isResultReturned (fs_task s')" if run: "running_call (pc u)"
    proof -
      from run own have "\<not> cv_free (future_cond s)" by (simp add: cv_free_def)
      with future_move_cond(3) [OF mv] grow ok [of u] run show ?thesis by (auto simp: future_pc_ok_def)
    qed
    then show ?thesis using ok [of u] grow by (auto simp: future_pc_ok_def)
  qed
  moreover have "(pc(t := k)) u = F_Get" if "cv_waiting (future_cond s') u" for u
    using future_move_cond(1) [OF mv that] wait [of u] awake by (auto simp: future_waiting_def)
  ultimately show ?thesis using r(1,2) lock by (simp add: future_inv_def)
qed

lemma future_unwait_inv: "future_inv s pc \<Longrightarrow> future_inv (future_unwait t s) pc"
  by (auto simp: future_inv_def future_unwait_def future_pc_ok_def cv_unwait_def sync)

lemma future_start_inv: "future_init (s, pc) \<Longrightarrow> future_inv s pc"
  by (auto simp: future_init_def future_start_def future_inv_def FutureTask_ctor_def ConditionVariable_ctor_def
      running_call_def future_pc_ok_def sync)

interpretation future: guarded_wait future_machine future_init future_inv future_cond "\<lambda>s. \<not> ft_isResultReturned (fs_task s)"
proof (unfold_locales, goal_cases)
  case (1 s pc)
  then show ?case by (rule future_start_inv)
next
  case (2 s pc t e k s')
  then show ?case by (auto simp: future_machine_def intro: future_act_inv)
next
  case (3 s pc t)
  then show ?case by (simp add: future_machine_def future_unwait_inv)
next
  case (4 s pc t k)
  then show ?case by (simp add: future_machine_def)
next
  case (5 s pc)
  then show ?case by (auto simp: future_init_def future_start_def FutureTask_ctor_def ConditionVariable_ctor_def)
next
  case (6 s pc t e k s')
  then have act: "future_act e t (pc t) s = Some (k, s')" and inv: "future_inv s pc" by (simp_all add: future_machine_def)
  then have init: "m_isInit (cv_mutex (future_cond s))" and ok: "future_pc_ok s (pc t)" by (auto simp: future_inv_def)
  from future_act_move [OF act init] show ?case
    by cases (use ok in \<open>auto simp: future_pc_ok_def running_call_def sync CV_Unlock_def\<close>)
next
  case (7 s pc t)
  then show ?case by (auto simp: future_machine_def future_unwait_def sync)
qed

section \<open>Properties\<close>

text \<open>
  Whatever \<open>GetResult\<close> returns was computed by a completed \<open>Call\<close>, whoever runs the task and
  however often; in particular the uninitialised \<open>m_result\<close> is never read.
\<close>

theorem FutureTask_GetResult_value:
  assumes "future_reachable s pc" and "pc t = F_Got r"
  shows "\<exists>v \<in> set (fs_calls s). r = Some v"
  using future.reachable_inv [OF assms(1)] assms(2) by (auto simp: future_inv_def future_pc_ok_def)

text \<open>
  No wake-up of \<open>GetResult\<close> is lost, although \<open>DoRun\<close> notifies before it computes the result:
  once the flag is set nobody sleeps, and when nobody holds the mutex a thread inside \<open>GetResult\<close>
  returns the latest result with its next action.
\<close>

theorem FutureTask_no_lost_wakeup:
  assumes "future_reachable s pc" and "ft_isResultReturned (fs_task s)" and "pc t = F_Get"
    and "cv_free (ft_resultCondition (fs_task s))"
  shows "m_cond (ft_resultCondition (fs_task s)) = [] \<and> fs_calls s \<noteq> [] \<and>
    mstep future_machine (Act t F_Step) (s, pc) = Some (s, pc(t := F_Got (Some (last (fs_calls s)))))"
proof -
  have "m_cond (future_cond s) = []" using future.no_lost_wakeup [OF assms(1)] assms(2) by auto
  then show ?thesis
    using future.reachable_inv [OF assms(1)] assms(2-4)
    by (auto simp: future_inv_def future_machine_def future_waiting_def future_act_def FutureTask_GetResult_def
        IsResultReturned_def sync)
qed

text \<open>When \<open>Call\<close> throws, the readers are woken for nothing and sleep again.\<close>

lemma throwing_Call_strands_reader:
  "\<exists>(s :: nat future_sys) pc. future_reachable s pc \<and> pc 1 = F_Threw \<and> \<not> ft_isResultReturned (fs_task s) \<and>
     cv_waiting (ft_resultCondition (fs_task s)) 2"
proof -
  have "run_check future_machine [Act 2 CallGetResult, Act 2 F_Step, Act 1 CallRun, Act 1 F_Step, Act 1 Call_throws, Act 2 F_Step]
      (future_start :: (nat future_sys, nat future_pc) config)
      (\<lambda>s pc. pc 1 = F_Threw \<and> \<not> ft_isResultReturned (fs_task s) \<and> cv_waiting (ft_resultCondition (fs_task s)) 2)"
    by code_simp
  from run_check_reachable [where init = future_init, OF this] show ?thesis by (simp add: future_init_def)
qed

section \<open>Witnesses\<close>

theorem FutureTask_GetResult_value_witness:
  "\<exists>(s :: nat future_sys) pc. future_reachable s pc \<and> fs_calls s = [7, 9] \<and> (\<exists>v \<in> set (fs_calls s). pc 2 = F_Got (Some v))"
proof -
  have "run_check future_machine [Act 2 CallGetResult, Act 2 F_Step, Act 1 CallRun, Act 1 F_Step, Act 1 (Call_returns 7),
        Act 1 F_Step, Act 2 F_Step, Act 1 CallRun, Act 1 F_Step, Act 1 (Call_returns 9)]
      (future_start :: (nat future_sys, nat future_pc) config)
      (\<lambda>s pc. pc 2 = F_Got (Some 7) \<and> fs_calls s = [7, 9])"
    by code_simp
  from run_check_reachable [where init = future_init, OF this]
  obtain s :: "nat future_sys" and pc where r: "future_reachable s pc" "pc 2 = F_Got (Some 7)" "fs_calls s = [7, 9]"
    by (auto simp: future_init_def)
  from FutureTask_GetResult_value [OF r(1,2)] r show ?thesis by blast
qed

theorem FutureTask_no_lost_wakeup_witness:
  "\<exists>(s :: nat future_sys) pc. future_reachable s pc \<and>
     mstep future_machine (Act 2 F_Step) (s, pc) = Some (s, pc(2 := F_Got (Some 7)))"
proof -
  have "run_check future_machine [Act 2 CallGetResult, Act 2 F_Step, Act 1 CallRun, Act 1 F_Step, Act 1 (Call_returns 7), Act 1 F_Step]
      (future_start :: (nat future_sys, nat future_pc) config)
      (\<lambda>s pc. pc 2 = F_Get \<and> fs_calls s = [7] \<and> ft_isResultReturned (fs_task s) \<and> cv_free (ft_resultCondition (fs_task s)))"
    by code_simp
  from run_check_reachable [where init = future_init, OF this]
  obtain s :: "nat future_sys" and pc where r: "future_reachable s pc" "pc 2 = F_Get" "fs_calls s = [7]"
      "ft_isResultReturned (fs_task s)" "cv_free (ft_resultCondition (fs_task s))"
    by (auto simp: future_init_def)
  from FutureTask_no_lost_wakeup [OF r(1,4,2,5)] r show ?thesis by (simp del: mstep.simps) blast
qed

end
