(* ===== verification/NoBlockingTaskQueue.thy ===== *)
theory NoBlockingTaskQueue
  imports Prelude
begin

text \<open>
  \<open>include/empool/NoBlockingTaskQueue.h\<close>, \<open>src/NoBlockingTaskQueue.cpp\<close>: a queue of task pointers over
  \<open>boost::lockfree::queue\<close>, which is not part of the repository: its operations \<open>push\<close>, \<open>pop\<close> and
  \<open>is_empty\<close> are arguments of the definitions.  A pointer is an option, \<open>None\<close> the null pointer.
\<close>

datatype assertion_failure = Null_task

definition NoBlockingTaskQueue_Push :: "('a option \<Rightarrow> 'q \<Rightarrow> bool \<times> 'q) \<Rightarrow> 'a option \<Rightarrow> 'q \<Rightarrow> 'q" where
  "NoBlockingTaskQueue_Push push task q = snd (push task q)"

definition NoBlockingTaskQueue_Empty :: "('q \<Rightarrow> bool) \<Rightarrow> 'q \<Rightarrow> bool" where
  "NoBlockingTaskQueue_Empty is_empty q = is_empty q"

text \<open>
  \<open>Pop\<close> tries again until \<open>pop\<close> succeeds; \<open>env n\<close> is what the other threads do to the queue after
  the attempt number \<open>n\<close>.  \<open>None\<close>: the loop never ends.
\<close>

partial_function (option) NoBlockingTaskQueue_Pop ::
    "('q \<Rightarrow> ('a option \<times> 'q) option) \<Rightarrow> (nat \<Rightarrow> 'q \<Rightarrow> 'q) \<Rightarrow> nat \<Rightarrow> 'q \<Rightarrow> ((assertion_failure + 'a) \<times> 'q) option" where
  "NoBlockingTaskQueue_Pop pop env n q =
     (case pop q of
        None \<Rightarrow> NoBlockingTaskQueue_Pop pop env (Suc n) (env n q)
      | Some (p, q') \<Rightarrow> Some (case p of None \<Rightarrow> Inl Null_task | Some task \<Rightarrow> Inr task, q'))"

text \<open>The queue that the attempt number \<open>n + k\<close> finds.\<close>

primrec found_at :: "(nat \<Rightarrow> 'q \<Rightarrow> 'q) \<Rightarrow> nat \<Rightarrow> 'q \<Rightarrow> nat \<Rightarrow> 'q" where
  "found_at env n q 0 = q"
| "found_at env n q (Suc k) = env (n + k) (found_at env n q k)"

lemma found_at_Suc: "found_at env (Suc n) (env n q) k = found_at env n q (Suc k)"
  by (induction k) simp_all

text \<open>What the documentation of the lock-free queue promises of one operation; \<open>content\<close> is its content.\<close>

definition lockfree_fifo :: "('q \<Rightarrow> 'a option list) \<Rightarrow> ('a option \<Rightarrow> 'q \<Rightarrow> bool \<times> 'q) \<Rightarrow> ('q \<Rightarrow> ('a option \<times> 'q) option) \<Rightarrow>
    ('q \<Rightarrow> bool) \<Rightarrow> bool" where
  "lockfree_fifo content push pop is_empty \<longleftrightarrow>
     (\<forall>p q. content (snd (push p q)) = (if fst (push p q) then content q @ [p] else content q)) \<and>
     (\<forall>q. case content q of [] \<Rightarrow> pop q = None | p # ps \<Rightarrow> \<exists>q'. pop q = Some (p, q') \<and> content q' = ps) \<and>
     (\<forall>q. is_empty q \<longleftrightarrow> content q = [])"

lemma lockfree_popD:
  assumes "lockfree_fifo content push pop is_empty"
  shows "content q = [] \<Longrightarrow> pop q = None" and "content q = p # ps \<Longrightarrow> \<exists>q'. pop q = Some (p, q') \<and> content q' = ps"
  using assms unfolding lockfree_fifo_def by (auto dest: spec [of _ q])

lemma Pop_found:
  assumes fifo: "lockfree_fifo content push pop is_empty"
  shows "(\<forall>i < k. content (found_at env n q i) = []) \<Longrightarrow> content (found_at env n q k) = p # ps \<Longrightarrow>
    \<exists>q'. NoBlockingTaskQueue_Pop pop env n q = Some (case p of None \<Rightarrow> Inl Null_task | Some task \<Rightarrow> Inr task, q') \<and> content q' = ps"
proof (induction k arbitrary: n q)
  case 0
  then obtain q' where "pop q = Some (p, q')" "content q' = ps" using lockfree_popD(2) [OF fifo, of q] by auto
  then show ?case by (subst NoBlockingTaskQueue_Pop.simps) simp
next
  case (Suc k)
  have "content q = []" using Suc.prems(1) by (metis found_at.simps(1) zero_less_Suc)
  then have "pop q = None" by (rule lockfree_popD(1) [OF fifo])
  moreover have "\<forall>i < k. content (found_at env (Suc n) (env n q) i) = []" "content (found_at env (Suc n) (env n q) k) = p # ps"
    unfolding found_at_Suc using Suc.prems by auto
  ultimately show ?case using Suc.IH by (subst NoBlockingTaskQueue_Pop.simps) simp
qed

lemma Pop_returned:
  assumes fifo: "lockfree_fifo content push pop is_empty" and "NoBlockingTaskQueue_Pop pop env n q = Some r"
  shows "\<exists>k. content (found_at env n q k) \<noteq> []"
proof -
  let ?P = "\<lambda>pop0 env0 n q (_ :: (assertion_failure + 'b) \<times> 'a). pop0 = pop \<longrightarrow> (\<exists>k. content (found_at env0 n q k) \<noteq> [])"
  have "?P pop env n q r"
  proof (rule NoBlockingTaskQueue_Pop.raw_induct [of ?P, OF _ assms(2)])
    fix f pop0 env0 n q r
    assume IH: "\<And>pop env n q r. f pop env n q = Some r \<Longrightarrow> ?P pop env n q r"
      and body: "(case pop0 q of None \<Rightarrow> f pop0 env0 (Suc n) (env0 n q)
        | Some (p, q') \<Rightarrow> Some (case p of None \<Rightarrow> Inl Null_task | Some task \<Rightarrow> Inr task, q')) = Some r"
    show "?P pop0 env0 n q r"
    proof (cases "pop0 q")
      case None
      with body IH [of pop0 env0 "Suc n" "env0 n q" r]
      have "pop0 = pop \<longrightarrow> (\<exists>k. content (found_at env0 n q (Suc k)) \<noteq> [])" by (simp only: found_at_Suc) simp
      then show ?thesis by blast
    next
      case (Some r')
      then have "pop0 = pop \<longrightarrow> content (found_at env0 n q 0) \<noteq> []" using lockfree_popD(1) [OF fifo, of q] by auto
      then show ?thesis by blast
    qed
  qed
  then show ?thesis by simp
qed

text \<open>
  C40: \<open>Pop\<close> returns exactly when one of its attempts finds the queue non-empty, and then with the
  first pointer of the first such queue, which it removes (a null pointer is an assertion failure);
  when the queue stays empty it spins for ever.
\<close>

theorem NoBlockingTaskQueue_Pop_spec:
  assumes "lockfree_fifo content push pop is_empty"
  shows "case NoBlockingTaskQueue_Pop pop env n q of
      None \<Rightarrow> (\<forall>k. NoBlockingTaskQueue_Empty is_empty (found_at env n q k))
    | Some (r, q') \<Rightarrow> (\<exists>k p. (\<forall>i < k. NoBlockingTaskQueue_Empty is_empty (found_at env n q i)) \<and>
        content (found_at env n q k) = p # content q' \<and> r = (case p of None \<Rightarrow> Inl Null_task | Some task \<Rightarrow> Inr task))"
proof -
  have empty: "NoBlockingTaskQueue_Empty is_empty q \<longleftrightarrow> content q = []" for q
    using assms by (simp add: lockfree_fifo_def NoBlockingTaskQueue_Empty_def)
  show ?thesis
  proof (cases "\<exists>k. content (found_at env n q k) \<noteq> []")
    case True
    then obtain k where k: "content (found_at env n q k) \<noteq> []" "\<forall>i < k. content (found_at env n q i) = []"
      using exists_least_iff [of "\<lambda>k. content (found_at env n q k) \<noteq> []"] by auto
    then obtain p ps where p: "content (found_at env n q k) = p # ps" by (cases "content (found_at env n q k)") auto
    obtain q' where "NoBlockingTaskQueue_Pop pop env n q = Some (case p of None \<Rightarrow> Inl Null_task | Some task \<Rightarrow> Inr task, q')"
        "content q' = ps" using Pop_found [OF assms k(2) p] by blast
    with k p show ?thesis by (auto simp: empty intro!: exI [of _ k] exI [of _ p])
  next
    case False
    then have "NoBlockingTaskQueue_Pop pop env n q = None" 
      by (cases "NoBlockingTaskQueue_Pop pop env n q") (auto dest: Pop_returned [OF assms])
    with False show ?thesis by (simp add: empty)
  qed
qed

text \<open>
  The laws hold of a list, and another thread's \<open>Push\<close> after the second attempt lets \<open>Pop\<close> return.
\<close>

definition list_pop :: "'a list \<Rightarrow> ('a \<times> 'a list) option" where
  "list_pop q = (case q of [] \<Rightarrow> None | p # ps \<Rightarrow> Some (p, ps))"

lemma list_lockfree: "lockfree_fifo (\<lambda>q. q) (\<lambda>p q. (True, q @ [p])) list_pop (\<lambda>q. q = [])"
  by (auto simp: lockfree_fifo_def list_pop_def split: list.splits)

theorem NoBlockingTaskQueue_Pop_spec_witness:
  "NoBlockingTaskQueue_Pop list_pop (\<lambda>n q. if n = 1 then NoBlockingTaskQueue_Push (\<lambda>p q. (True, q @ [p])) (Some (7 :: nat)) q else q) 0 []
     = Some (Inr 7, []) \<and>
   (\<exists>k p. found_at (\<lambda>n q. if n = 1 then NoBlockingTaskQueue_Push (\<lambda>p q. (True, q @ [p])) (Some (7 :: nat)) q else q) 0 [] k = [p])"
proof -
  let ?env = "\<lambda>n q. if n = 1 then NoBlockingTaskQueue_Push (\<lambda>p q. (True, q @ [p])) (Some (7 :: nat)) q else q"
  have "NoBlockingTaskQueue_Pop list_pop ?env 0 [] = Some (Inr 7, [])"
    by (simp add: NoBlockingTaskQueue_Pop.simps list_pop_def NoBlockingTaskQueue_Push_def)
  with NoBlockingTaskQueue_Pop_spec [OF list_lockfree, of ?env 0 "[]"] show ?thesis by auto
qed

end
