(* ===== verification/ThreadPoolManager.thy ===== *)
theory ThreadPoolManager
  imports FixedThreadPool ScheduledThreadPool SingleThreadPool
begin

text \<open>
  \<open>include/empool/ThreadPoolManager.h\<close>: the factory functions.  They take their sizes as \<open>int\<close>, the
  constructors as \<open>size_t\<close>.
\<close>

text \<open>The implicit conversion from \<open>int\<close> to \<open>size_t\<close>.\<close>

definition size_of_int :: "32 word \<Rightarrow> nat" where
  "size_of_int n = unat (scast n :: 64 word)"

definition newFixedThreadPool :: "32 word \<Rightarrow> 'f fixed_pool" where
  "newFixedThreadPool threadNum = FixedThreadPool_ctor (size_of_int threadNum)"

definition newScalingThreadPool :: "32 word \<Rightarrow> 32 word \<Rightarrow> 'f scaling_pool" where
  "newScalingThreadPool minThreadSize maxThreadSize =
     ScalingThreadPool_ctor (size_of_int minThreadSize) (size_of_int maxThreadSize)"

definition newScheduledThreadPool :: "tid \<Rightarrow> 'h \<Rightarrow> 32 word \<Rightarrow> 'h scheduled_pool option" where
  "newScheduledThreadPool t new_handler threadNum = ScheduledThreadPool_ctor t (size_of_int threadNum) new_handler"

definition newSingleThreadPool :: "run_mode \<Rightarrow> mutex \<Rightarrow> 'f single_pool" where
  "newSingleThreadPool mode m = SingleThreadPool_ctor mode m"

lemma size_of_int_eq: "size_of_int n = nat (sint n mod 2 ^ 64)"
  unfolding size_of_int_def unat_eq_nat_uint scast_eq uint_word_of_int_eq take_bit_eq_mod by simp

lemma size_of_int_cases: "size_of_int n = (if 0 \<le> sint n then nat (sint n) else nat (sint n + 2 ^ 64))"
proof -
  have "- (2 ^ 31) \<le> sint n" "sint n < 2 ^ 31" using sint_range_size [of n] by (simp_all add: word_size)
  moreover have "sint n mod 2 ^ 64 = sint n + 2 ^ 64" if "sint n < 0" "- (2 ^ 31) \<le> sint n"
    using that by (subst mod_add_self2 [symmetric], intro mod_pos_pos_trivial) simp_all
  ultimately show ?thesis by (auto simp: size_of_int_eq)
qed

lemma ScheduledThreadPool_ctor_Some:
  "ScheduledThreadPool_ctor t n h = Some \<lparr>sc_state = Sched_RUNNING, sc_index = 0, sc_stateGuard = free_mutex,
     sc_isRequestShutDown = False, sc_handlerGuard = free_mutex, sc_handlers = replicate n (Some h)\<rparr>"
  by (simp add: ScheduledThreadPool_ctor_def ScheduledThreadPool_SetState_def map_replicate_const
      MutexLocker_free MutexLocker_dtor_def Mutex_Unlock_def)

text \<open>
  The pools have as many threads as was asked for when the size is not negative.  A negative
  size is not refused: it asks for \<open>2 ^ 64\<close> minus its absolute value threads.
\<close>

theorem ThreadPoolManager_sizes:
  "length (sl_threads (newFixedThreadPool n)) = (if 0 \<le> sint n then nat (sint n) else nat (sint n + 2 ^ 64)) \<and>
   length (sl_threads (newScalingThreadPool n m)) = length (sl_threads (newFixedThreadPool n)) \<and>
   sl_maxThreadSize (newScalingThreadPool n m) = (if 0 \<le> sint m then nat (sint m) else nat (sint m + 2 ^ 64)) \<and>
   map_option ScheduledThreadPool_GetThreadNum (newScheduledThreadPool t h n) = Some (length (sl_threads (newFixedThreadPool n)))"
  by (simp add: newFixedThreadPool_def newScalingThreadPool_def newScheduledThreadPool_def FixedThreadPool_ctor_def ctor_pool
      ScheduledThreadPool_ctor_Some ScheduledThreadPool_GetThreadNum_def size_of_int_cases)

end
