(* ===== verification/Projection.thy ===== *)
theory Projection
  imports Prelude
begin

text \<open>
  Projections of machines: when a machine is the composition of parts, each of its steps is, seen from
  one part, a step of that part or nothing at all.  The locale \<open>view_projection\<close> says so of the whole
  configuration and carries reachability over, so that every theorem about the part holds of the
  composition; \<open>machine_projection\<close> gives the step condition action by action, for a part that has the
  same threads.
\<close>

locale view_projection = machine_invariant M init Inv
  for M :: "('s, 'k, 'e) machine"
    and init :: "('s, 'k) config \<Rightarrow> bool"
    and Inv :: "'s \<Rightarrow> (tid \<Rightarrow> 'k) \<Rightarrow> bool" +
  fixes N :: "('a, 'b, 'g) machine"
    and view :: "('s, 'k) config \<Rightarrow> ('a, 'b) config"
  assumes view_step: "Inv s pc \<Longrightarrow> step M (s, pc) (s', pc') \<Longrightarrow> (step N)\<^sup>=\<^sup>= (view (s, pc)) (view (s', pc'))"
begin

lemma view_reachable_config:
  assumes "reachable M I c" and "\<And>c. I c \<Longrightarrow> J (view c)" and "\<And>c. I c \<Longrightarrow> Inv (fst c) (snd c)"
  shows "Inv (fst c) (snd c) \<and> reachable N J (view c)"
  using assms(1)
proof (induction rule: reachable.induct)
  case (reach_init c)
  then show ?case by (auto intro: reachable.reach_init assms(2,3))
next
  case (reach_step c c')
  obtain s pc s' pc' where c: "c = (s, pc)" "c' = (s', pc')" by (cases c; cases c')
  with reach_step have inv: "Inv s pc" and r: "reachable N J (view (s, pc))" by auto
  from reach_step(2) c have "(step N)\<^sup>=\<^sup>= (view (s, pc)) (view (s', pc'))" "Inv s' pc'"
    using view_step [OF inv] step_inv [OF _ inv] by auto
  with r c show ?case by (auto intro: reachable.reach_step)
qed

lemma view_reachable:
  assumes "reachable M init (s, pc)" and "\<And>c. init c \<Longrightarrow> J (view c)"
  shows "reachable N J (view (s, pc))"
proof -
  have "Inv (fst c) (snd c)" if "init c" for c using that init_inv by (cases c) simp
  with view_reachable_config [of init "(s, pc)" J, OF assms] show ?thesis by simp
qed

lemma view_future:
  assumes "reachable M init (s, pc)" and "reachable M (\<lambda>c. c = (s, pc)) (s', pc')"
  shows "reachable N (\<lambda>c. c = view (s, pc)) (view (s', pc'))"
proof -
  have "Inv s pc" by (rule reachable_inv [OF assms(1)])
  with view_reachable_config [of "\<lambda>c. c = (s, pc)" "(s', pc')" "\<lambda>c. c = view (s, pc)", OF assms(2)]
  show ?thesis by simp
qed

end

definition proj :: "('s \<Rightarrow> 'a) \<Rightarrow> ('k \<Rightarrow> 'b) \<Rightarrow> ('s, 'k) config \<Rightarrow> ('a, 'b) config" where
  "proj sv kv c = (sv (fst c), kv \<circ> snd c)"

lemma proj_pair [simp]: "proj sv kv (s, pc) = (sv s, kv \<circ> pc)"
  by (simp add: proj_def)

lemma proj_upd [simp]: "kv \<circ> pc(t := k) = (kv \<circ> pc)(t := kv k)"
  by (rule fun_upd_comp)

locale machine_projection = machine_invariant M init Inv
  for M :: "('s, 'k, 'e) machine"
    and init :: "('s, 'k) config \<Rightarrow> bool"
    and Inv :: "'s \<Rightarrow> (tid \<Rightarrow> 'k) \<Rightarrow> bool" +
  fixes N :: "('a, 'b, 'g) machine"
    and sv :: "'s \<Rightarrow> 'a"
    and kv :: "'k \<Rightarrow> 'b"
  assumes proj_act: "Inv s pc \<Longrightarrow> \<not> waiting M s t \<Longrightarrow> act M e t (pc t) s = Some (k, s') \<Longrightarrow>
      sv s' = sv s \<and> kv k = kv (pc t) \<or> step N (sv s, kv \<circ> pc) (sv s', (kv \<circ> pc)(t := kv k))"
    and proj_unwait: "Inv s pc \<Longrightarrow> waiting M s t \<Longrightarrow>
      sv (unwait M t s) = (if waiting N (sv s) t then unwait N t (sv s) else sv s)"
    and proj_expire: "Inv s pc \<Longrightarrow> waiting M s t \<Longrightarrow> expire M (pc t) = Some k \<Longrightarrow>
      if waiting N (sv s) t then expire N (kv (pc t)) = Some (kv k) else kv k = kv (pc t)"
begin

lemma proj_step:
  assumes "step M (s, pc) (s', pc')" and "Inv s pc"
  shows "(step N)\<^sup>=\<^sup>= (sv s, kv \<circ> pc) (sv s', kv \<circ> pc')"
  using assms(1)
proof (cases rule: step.cases)
  case (step_act t e k)
  have "(kv \<circ> pc)(t := kv (pc t)) = kv \<circ> pc" by auto
  with step_act proj_act [OF assms(2) step_act(2,3)] show ?thesis by auto
next
  case (step_wakeup t)
  then show ?thesis
    using proj_unwait [OF assms(2), of t] by (auto intro: step.step_wakeup)
next
  case (step_timeout t k)
  have "(kv \<circ> pc)(t := kv (pc t)) = kv \<circ> pc" by auto
  then show ?thesis
    using step_timeout proj_unwait [OF assms(2), of t] proj_expire [OF assms(2) step_timeout(3,4)]
    by (cases "waiting N (sv s) t") (auto intro: step.step_timeout)
qed

end

sublocale machine_projection \<subseteq> view: view_projection M init Inv N "proj sv kv"
proof (unfold_locales, goal_cases)
  case (1 s pc s' pc')
  from proj_step [OF 1(2,1)] show ?case by (simp only: proj_pair)
qed

context machine_projection begin

lemma proj_reachable:
  assumes "reachable M init (s, pc)" and "\<And>s pc. init (s, pc) \<Longrightarrow> J (sv s, kv \<circ> pc)"
  shows "reachable N J (sv s, kv \<circ> pc)"
proof -
  have "J (proj sv kv c)" if "init c" for c using that assms(2) by (cases c) simp
  from view.view_reachable [OF assms(1), of J, OF this] show ?thesis by simp
qed

lemma proj_future:
  assumes "reachable M init (s, pc)" and "reachable M (\<lambda>c. c = (s, pc)) (s', pc')"
  shows "reachable N (\<lambda>c. c = (sv s, kv \<circ> pc)) (sv s', kv \<circ> pc')"
  using view.view_future [OF assms] by simp

end

end
