(* ===== verification/PoolTasks.thy ===== *)
theory PoolTasks
  imports FixedThreadPool TaskBase Projection
begin

text \<open>
  The scaling pool together with the tasks it runs: \<open>WorkerThread::WorkFunction\<close> calls
  \<open>m_runningTask->Run()\<close>, and clients call \<open>Cancel\<close> on the tasks they have added.  The pool of
  \<open>ScalingThreadPool\<close> runs a task in one action; here the worker goes through the actions of
  \<open>TaskBase::Run\<close> one by one, beside the threads that wait in \<open>Cancel\<close>.  Two projections take every
  execution of the composition to one of the pool and, when clients add no task object twice (\<open>once\<close>),
  for each task to one of \<open>task_machine\<close>, so that the properties of the parts hold of the whole.
\<close>

section \<open>The composition\<close>

text \<open>
  Tasks are objects on the heap: the \<open>i\<close>th object is \<open>pk_tasks ! i\<close> and the pool's tasks are
  \<open>FunctorTask i\<close>.  \<open>pk_added\<close> (the calls of \<open>AddTask\<close>), \<open>pk_bodies\<close> (the bodies started) and
  \<open>pk_over\<close> (the calls of \<open>Run\<close> that have left the critical parts) are logs.
\<close>

record pool_tasks =
  pk_sys :: "nat scaling_sys"
  pk_tasks :: "task_base list"
  pk_added :: "nat list"
  pk_bodies :: "nat list"
  pk_over :: "nat list"

text \<open>
  A thread is in the pool's code, inside \<open>Run\<close> of a task, or inside \<open>Cancel\<close> of a task, called where
  the client stood.
\<close>

datatype pool_task_pc = InPool "nat scaling_pc" | InRun nat task_pc | InCancel nat task_pc "nat client_pc"

datatype pool_task_ev = PoolEv "nat scaling_ev" | NewTask | CallCancel nat | TaskEv task_ev

text \<open>The tasks that a call of \<open>AddTask\<close> passes; \<open>AddTask(f)\<close> makes a new object.\<close>

fun added_by :: "nat scaling_ev \<Rightarrow> nat list" where
  "added_by (CallAddTask (Some x)) = DoRun x"
| "added_by (CallAddFunctor i) = [i]"
| "added_by _ = []"

fun makes_task :: "nat scaling_ev \<Rightarrow> bool" where
  "makes_task (CallAddFunctor i) = True"
| "makes_task _ = False"

definition new_task_object :: task_base where
  "new_task_object = TaskBase_ctor new_mutex"

text \<open>
  Which calls the clients make; \<open>AddTask\<close> itself tests nothing of this.  A call passes a \<open>shared_ptr\<close> to an
  object that exists (or that \<open>AddTask(f)\<close> makes), for a name of no object stands for no pointer; and
  \<open>once\<close> is an assumption on the clients: they add no object twice.
\<close>

definition objects_exist :: "nat scaling_ev \<Rightarrow> pool_tasks \<Rightarrow> bool" where
  "objects_exist e s \<longleftrightarrow> (case e of CallAddFunctor i \<Rightarrow> i = length (pk_tasks s) | _ \<Rightarrow> True) \<and>
     (\<forall>i \<in> set (added_by e). i < length (pk_tasks s) + (if makes_task e then 1 else 0))"

definition call_ok :: "bool \<Rightarrow> nat scaling_ev \<Rightarrow> pool_tasks \<Rightarrow> bool" where
  "call_ok once e s \<longleftrightarrow> objects_exist e s \<and> (once \<longrightarrow> (\<forall>i \<in> set (added_by e). i \<notin> set (pk_added s)))"

text \<open>A worker that has fetched a task calls its \<open>Run\<close>.\<close>

definition enter :: "tid \<Rightarrow> nat scaling_sys \<Rightarrow> nat scaling_pc \<Rightarrow> pool_task_pc" where
  "enter t s k = (if k = Worker W_Run
     then InRun (task_functor (the (wt_runningTask (sl_workers (sy_pool s) t)))) T_RunCheck else InPool k)"

definition in_pool_act :: "bool \<Rightarrow> pool_task_ev \<Rightarrow> tid \<Rightarrow> nat scaling_pc \<Rightarrow> pool_tasks \<Rightarrow>
    (pool_task_pc \<times> pool_tasks) option" where
  "in_pool_act once e t k s =
     (case e of
        PoolEv e' \<Rightarrow>
          (if k = Worker W_Run \<or> \<not> call_ok once e' s then None
           else map_option (\<lambda>(k', sys). (enter t sys k',
               s\<lparr>pk_sys := sys, pk_tasks := pk_tasks s @ (if makes_task e' then [new_task_object] else []),
                 pk_added := pk_added s @ added_by e'\<rparr>)) (scaling_act e' t k (pk_sys s)))
      | NewTask \<Rightarrow>
          (case k of
             Client c \<Rightarrow> if ready_client c then Some (InPool k, s\<lparr>pk_tasks := pk_tasks s @ [new_task_object]\<rparr>) else None
           | _ \<Rightarrow> None)
      | CallCancel i \<Rightarrow>
          (case k of
             Client c \<Rightarrow>
               if ready_client c \<and> i < length (pk_tasks s)
               then map_option (\<lambda>(k', tb). (InCancel i k' c, s\<lparr>pk_tasks := (pk_tasks s)[i := tb]\<rparr>))
                 (TaskBase_Cancel E_Cancel t T_Idle (pk_tasks s ! i))
               else None
           | _ \<Rightarrow> None)
      | TaskEv _ \<Rightarrow> None)"

text \<open>
  Inside \<open>Run\<close>.  When it has returned the worker goes on with its loop; an exception that leaves it
  unwinds the work function up to \<open>Thread::ThreadFunction\<close> in the same action.
\<close>

definition in_run_act :: "pool_task_ev \<Rightarrow> tid \<Rightarrow> nat \<Rightarrow> task_pc \<Rightarrow> pool_tasks \<Rightarrow>
    (pool_task_pc \<times> pool_tasks) option" where
  "in_run_act e t i k s =
     (case e of
        TaskEv te \<Rightarrow>
          do { (k', tb) \<leftarrow> TaskBase_Run te t k (pk_tasks s ! i);
               (_, sys) \<leftarrow> (if k' = T_RunThrew then scaling_act TaskThrows t (Worker W_Run) (pk_sys s)
                            else Some (Worker W_Run, pk_sys s));
               Some (InRun i k', s\<lparr>pk_sys := sys, pk_tasks := (pk_tasks s)[i := tb],
                 pk_bodies := pk_bodies s @ (if k = T_SetRunning then [i] else []),
                 pk_over := pk_over s @ (if k' = T_RunDone \<or> k' = T_RunThrew then [i] else [])\<rparr>) }
      | PoolEv (L_Step n sp) \<Rightarrow>
          (if k = T_RunDone
           then map_option (\<lambda>(k', sys). (InPool k', s\<lparr>pk_sys := sys\<rparr>)) (scaling_act (L_Step n sp) t (Worker W_Run) (pk_sys s))
           else None)
      | _ \<Rightarrow> None)"

definition in_cancel_act :: "pool_task_ev \<Rightarrow> tid \<Rightarrow> nat \<Rightarrow> task_pc \<Rightarrow> nat client_pc \<Rightarrow> pool_tasks \<Rightarrow>
    (pool_task_pc \<times> pool_tasks) option" where
  "in_cancel_act e t i k c s =
     (case e of
        TaskEv te \<Rightarrow>
          (if k = T_CancelReturned then (if te = E_Step then Some (InPool (Client c), s) else None)
           else map_option (\<lambda>(k', tb). (InCancel i k' c, s\<lparr>pk_tasks := (pk_tasks s)[i := tb]\<rparr>))
             (TaskBase_Cancel te t k (pk_tasks s ! i)))
      | _ \<Rightarrow> None)"

definition pool_task_act :: "bool \<Rightarrow> pool_task_ev \<Rightarrow> tid \<Rightarrow> pool_task_pc \<Rightarrow> pool_tasks \<Rightarrow>
    (pool_task_pc \<times> pool_tasks) option" where
  "pool_task_act once e t k s =
     (case k of
        InPool b \<Rightarrow> in_pool_act once e t b s
      | InRun i r \<Rightarrow> in_run_act e t i r s
      | InCancel i r c \<Rightarrow> in_cancel_act e t i r c s)"

fun pool_task_expire :: "pool_task_pc \<Rightarrow> pool_task_pc option" where
  "pool_task_expire (InPool k) = map_option InPool (scaling_expire k)"
| "pool_task_expire _ = None"

definition task_unwait :: "tid \<Rightarrow> task_base \<Rightarrow> task_base" where
  "task_unwait t tb = tb\<lparr>tb_cancelCondition := cv_unwait t (tb_cancelCondition tb)\<rparr>"

definition pool_task_machine :: "bool \<Rightarrow> (pool_tasks, pool_task_pc, pool_task_ev) machine" where
  "pool_task_machine once = \<lparr>act = pool_task_act once,
     waiting = (\<lambda>s t. scaling_waiting (pk_sys s) t \<or> (\<exists>tb \<in> set (pk_tasks s). cv_waiting (tb_cancelCondition tb) t)),
     unwait = (\<lambda>t s. s\<lparr>pk_sys := scaling_unwait t (pk_sys s), pk_tasks := map (task_unwait t) (pk_tasks s)\<rparr>),
     expire = pool_task_expire\<rparr>"

definition pool_task_start :: "nat \<Rightarrow> nat \<Rightarrow> (pool_tasks, pool_task_pc) config" where
  "pool_task_start c m = (\<lparr>pk_sys = fst (scaling_start c m), pk_tasks = [], pk_added = [], pk_bodies = [], pk_over = []\<rparr>,
     \<lambda>t. InPool (snd (scaling_start c m) t))"

text \<open>Where the pool sees a thread.\<close>

fun pool_view :: "pool_task_pc \<Rightarrow> nat scaling_pc" where
  "pool_view (InPool k) = k"
| "pool_view (InRun i k) = Worker (if k = T_RunThrew then W_Threw else W_Run)"
| "pool_view (InCancel i k c) = Client c"

text \<open>Where task \<open>i\<close> sees a thread.\<close>

fun task_view :: "nat \<Rightarrow> pool_task_pc \<Rightarrow> task_pc" where
  "task_view i (InPool k) = T_Idle"
| "task_view i (InRun j k) = (if j = i then k else T_Idle)"
| "task_view i (InCancel j k c) = (if j = i then k else T_Idle)"

section \<open>The effects of one action\<close>

lemma Run_effect:
  assumes "TaskBase_Run e t k tb = Some (k', tb')" and "cv_free (tb_cancelCondition tb)"
  shows "in_run k" "in_run k' \<or> k' = T_RunDone \<or> k' = T_RunThrew" "cv_free (tb_cancelCondition tb')"
    "set (m_cond (tb_cancelCondition tb')) \<subseteq> set (m_cond (tb_cancelCondition tb))"
  using assms
  by (cases e; cases k; auto simp: sync TaskBase_CheckCancellation_def TaskBase_IsRequestCancel_def split: if_splits)+

lemma Run_in_run: "TaskBase_Run e t k tb = Some (k', tb') \<Longrightarrow> in_run k"
  by (cases e; cases k) auto

lemma Run_throws: "TaskBase_Run e t k tb = Some (T_RunThrew, tb') \<longleftrightarrow> e = E_BodyThrow \<and> k = T_Body \<and> tb' = tb"
  by (cases e; cases k) (auto simp: TaskBase_CheckCancellation_def split: if_splits bind_splits)

lemma Cancel_effect:
  assumes "TaskBase_Cancel e t k tb = Some (k', tb')" and "cv_free (tb_cancelCondition tb)" and "k \<noteq> T_Idle"
  shows "k = T_CancelWait" "k' = T_CancelWait \<or> k' = T_CancelReturned" "cv_free (tb_cancelCondition tb')"
    "set (m_cond (tb_cancelCondition tb')) \<subseteq>
      (if k' = T_CancelWait then insert t else id) (set (m_cond (tb_cancelCondition tb)))"
  using assms by (cases e; cases k; auto simp: sync split: if_splits)+

lemma W_Run_step:
  "scaling_act (L_Step n sp) t (Worker W_Run) s = (if t \<in> set (sy_spawned s)
     then Some (Worker W_Check, s\<lparr>sy_ran := sy_ran s @ running t s\<rparr>) else None)"
  by (simp add: scaling_act_def worker_act_def worker_work_def running_def)

lemma W_Run_throws:
  "scaling_act TaskThrows t (Worker W_Run) s = (if t \<in> set (sy_spawned s)
     then Some (Worker W_Threw, s\<lparr>sy_ran := sy_ran s @ running t s, sy_returned := sy_returned s @ [t]\<rparr>) else None)"
  by (simp add: scaling_act_def worker_act_def worker_returns_def running_def)

text \<open>The kinds of action of the composition.\<close>

lemma pool_task_who:
  assumes "pool_task_act once e t k s = Some (k', s')"
  obtains (pool) e' b b' sys where "k = InPool b" "b \<noteq> Worker W_Run" "call_ok once e' s"
      "scaling_act e' t b (pk_sys s) = Some (b', sys)" "k' = enter t sys b'"
      "s' = s\<lparr>pk_sys := sys, pk_tasks := pk_tasks s @ (if makes_task e' then [new_task_object] else []),
         pk_added := pk_added s @ added_by e'\<rparr>"
    | (makes) c where "k = InPool (Client c)" "k' = k" "s' = s\<lparr>pk_tasks := pk_tasks s @ [new_task_object]\<rparr>"
    | (cancel) i c where "k = InPool (Client c)" "ready_client c" "i < length (pk_tasks s)" "k' = InCancel i T_CancelWait c"
      "s' = s\<lparr>pk_tasks := (pk_tasks s)[i := (pk_tasks s ! i)\<lparr>tb_isRequestCancel := True\<rparr>]\<rparr>"
    | (run) i r te r' tb where "k = InRun i r" "TaskBase_Run te t r (pk_tasks s ! i) = Some (r', tb)" "r' \<noteq> T_RunThrew"
      "k' = InRun i r'" "s' = s\<lparr>pk_tasks := (pk_tasks s)[i := tb], pk_bodies := pk_bodies s @ (if r = T_SetRunning then [i] else []),
         pk_over := pk_over s @ (if r' = T_RunDone then [i] else [])\<rparr>"
    | (threw) i sys where "k = InRun i T_Body" "k' = InRun i T_RunThrew"
      "scaling_act TaskThrows t (Worker W_Run) (pk_sys s) = Some (Worker W_Threw, sys)"
      "s' = s\<lparr>pk_sys := sys, pk_over := pk_over s @ [i]\<rparr>"
    | (finished) i n sp sys where "k = InRun i T_RunDone" "k' = InPool (Worker W_Check)"
      "scaling_act (L_Step n sp) t (Worker W_Run) (pk_sys s) = Some (Worker W_Check, sys)" "s' = s\<lparr>pk_sys := sys\<rparr>"
    | (waits) i r te r' tb c where "k = InCancel i r c" "r \<noteq> T_CancelReturned"
      "TaskBase_Cancel te t r (pk_tasks s ! i) = Some (r', tb)" "k' = InCancel i r' c"
      "s' = s\<lparr>pk_tasks := (pk_tasks s)[i := tb]\<rparr>"
    | (leaves) i c where "k = InCancel i T_CancelReturned c" "k' = InPool (Client c)" "s' = s"
proof (cases k)
  case (InPool b)
  with assms pool makes cancel show ?thesis
    by (cases e) (auto simp: pool_task_act_def in_pool_act_def split: if_splits scaling_pc.splits)
next
  case (InRun i r)
  with assms run threw finished show ?thesis
    by (cases e) (auto simp: pool_task_act_def in_run_act_def Run_throws W_Run_step W_Run_throws
      split: if_splits scaling_ev.splits option.splits bind_splits)
next
  case (InCancel i r c)
  with assms waits leaves show ?thesis
    by (cases e) (auto simp: pool_task_act_def in_cancel_act_def split: if_splits)
qed

section \<open>The invariant of the composition\<close>

definition task_ids :: "nat pool_task list \<Rightarrow> nat list" where
  "task_ids xs = concat (map DoRun xs)"

lemma task_ids_simps [simp]:
  "task_ids [] = []" "task_ids (xs @ ys) = task_ids xs @ task_ids ys" "task_ids (x # xs) = DoRun x @ task_ids xs"
  by (simp_all add: task_ids_def)

text \<open>The task that a call of \<open>AddTask\<close> has still to push.\<close>

definition pending :: "nat scaling_pc \<Rightarrow> nat list" where
  "pending k = (case k of Client c \<Rightarrow> (case c of U_Load (Some x) \<Rightarrow> DoRun x | U_Push x \<Rightarrow> DoRun x | _ \<Rightarrow> []) | _ \<Rightarrow> [])"

lemma pending_simps [pc_simps]:
  "pending (Worker w) = []" "pending (Monitor m) = []" "ready_client c \<Longrightarrow> pending (Client c) = []"
  "pending (Client (U_Load None)) = []" "pending (Client (U_Load (Some x))) = DoRun x" "pending (Client (U_Push x)) = DoRun x"
  "pending (Client (U_ShutDown b)) = []"
  by (auto simp: pending_def ready_client_def split: client_pc.splits)

lemma call_effect:
  assumes "scaling_act e t k s = Some (k', s')" and "added_by e \<noteq> []"
  shows "s' = s \<and> pending k = [] \<and> pending k' = added_by e"
  using assms
  by (cases e rule: added_by.cases; cases k)
     (auto simp: scaling_act_def client_act_def client_call_def MakeFunctorTask_def monitor_act_def worker_act_def pc_simps
       split: if_splits)

lemma client_ids:
  assumes "client_move n t s c c' s'" and "\<not> ready_client c"
  shows "task_ids (sy_pushed s') = task_ids (sy_pushed s) \<and> (pending (Client c') = pending (Client c) \<or> pending (Client c') = []) \<or>
    task_ids (sy_pushed s') = task_ids (sy_pushed s) @ pending (Client c) \<and> pending (Client c') = []"
  using assms by (cases rule: client_move.cases) (auto simp: pending_def shut_wait_def)

lemma other_effect:
  assumes "scaling_act e t k s = Some (k', s')" and "pool_ready (sy_pool s)" and "added_by e = []"
  shows "task_ids (sy_pushed s') = task_ids (sy_pushed s) \<and> (pending k' = pending k \<or> pending k' = []) \<or>
    task_ids (sy_pushed s') = task_ids (sy_pushed s) @ pending k \<and> pending k' = []"
  using assms(1,2)
proof (cases rule: scaling_who [of e t "\<lambda>_. k"])
  case (monitor w w')
  then show ?thesis by (auto simp: pc_simps elim: monitor_move.cases)
next
  case (worker n w w')
  then show ?thesis by (auto simp: pc_simps elim: worker_move.cases)
next
  case (client n c c')
  show ?thesis
  proof (cases "ready_client c")
    case True
    have "e \<noteq> L_Step m sp" for m sp
      using assms(1) client(1) True by (cases c) (auto simp: scaling_act_def client_act_def ready_client_def)
    then have "s' = s \<and> pending k' = []"
      using assms(1,3) client(1) True
      by (cases e rule: added_by.cases)
         (auto simp: scaling_act_def client_act_def client_call_def pc_simps split: if_splits)
    then show ?thesis by simp
  next
    case False
    with client client_ids show ?thesis by simp
  qed
qed

text \<open>Fetching a task is the only action that brings a worker to \<open>Run\<close>.\<close>

lemma fetch_effect:
  assumes "scaling_act e t k s = Some (k', s')" and "pool_ready (sy_pool s)" and "k \<noteq> Worker W_Run"
  shows "(k' = Worker W_Run \<longrightarrow> (\<exists>f. wt_runningTask (sl_workers (sy_pool s') t) = Some (FunctorTask f) \<and>
      task_ids (sy_popped s') = task_ids (sy_popped s) @ [f] \<and> sy_pushed s' = sy_pushed s)) \<and>
    (k' \<noteq> Worker W_Run \<longrightarrow> task_ids (sy_popped s') = task_ids (sy_popped s))"
  using assms(1,2)
proof (cases rule: scaling_who [of e t "\<lambda>_. k"])
  case (worker n w w')
  from worker(3) show ?thesis unfolding worker(1,2) by cases (use assms(3) worker(1) in auto)
qed (auto elim: monitor_move.cases client_move.cases)

lemma running_frame:
  assumes "scaling_act e t k s = Some (k', s')" and "pool_ready (sy_pool s)" and "spawn_ok s"
    and "u \<in> set (sy_spawned s)" and "u \<noteq> t"
  shows "wt_runningTask (sl_workers (sy_pool s') u) = wt_runningTask (sl_workers (sy_pool s) u)"
  using assms(1,2)
proof (cases rule: scaling_who [of e t "\<lambda>_. k"])
  case (monitor w w')
  then show ?thesis using new_tid [OF assms(3)] assms(4) by (auto elim!: monitor_move.cases)
next
  case (worker n w w')
  then show ?thesis using assms(5) by (auto elim!: worker_move.cases)
next
  case (client n c c')
  then show ?thesis by (auto elim!: client_move.cases simp: set_closed_def)
qed

text \<open>
  The parts of the invariant: where the ids come from; what a thread inside \<open>Run\<close> or \<open>Cancel\<close> knows;
  who sleeps on the condition of a task.
\<close>

abbreviation pushed_ids :: "pool_tasks \<Rightarrow> nat list" where
  "pushed_ids s \<equiv> task_ids (sy_pushed (pk_sys s))"

abbreviation popped_ids :: "pool_tasks \<Rightarrow> nat list" where
  "popped_ids s \<equiv> task_ids (sy_popped (pk_sys s))"

definition ids_ok :: "pool_tasks \<Rightarrow> (tid \<Rightarrow> nat list) \<Rightarrow> bool" where
  "ids_ok s pn \<longleftrightarrow> (\<forall>i \<in> set (pk_added s). i < length (pk_tasks s)) \<and> set (pushed_ids s) \<subseteq> set (pk_added s) \<and>
     (\<forall>t. set (pn t) \<subseteq> set (pk_added s))"

definition once_ids :: "pool_tasks \<Rightarrow> (tid \<Rightarrow> nat list) \<Rightarrow> bool" where
  "once_ids s pn \<longleftrightarrow> distinct (pushed_ids s) \<and> (\<forall>t. distinct (pn t) \<and> set (pn t) \<inter> set (pushed_ids s) = {}) \<and>
     (\<forall>t u. t \<noteq> u \<longrightarrow> set (pn t) \<inter> set (pn u) = {}) \<and> set (pk_over s) \<subseteq> set (popped_ids s)"

fun at_task :: "bool \<Rightarrow> pool_tasks \<Rightarrow> tid \<Rightarrow> pool_task_pc \<Rightarrow> bool" where
  "at_task once s t (InPool k) \<longleftrightarrow> k \<noteq> Worker W_Run"
| "at_task once s t (InRun i r) \<longleftrightarrow> i \<in> set (popped_ids s) \<and>
     (r \<noteq> T_RunThrew \<longrightarrow> wt_runningTask (sl_workers (sy_pool (pk_sys s)) t) = Some (FunctorTask i)) \<and>
     (in_run r \<or> r = T_RunDone \<or> r = T_RunThrew) \<and> (once \<and> in_run r \<longrightarrow> i \<notin> set (pk_over s))"
| "at_task once s t (InCancel i r c) \<longleftrightarrow> i < length (pk_tasks s) \<and> (r = T_CancelWait \<or> r = T_CancelReturned) \<and> ready_client c"

definition one_runner :: "(tid \<Rightarrow> pool_task_pc) \<Rightarrow> bool" where
  "one_runner pc \<longleftrightarrow> (\<forall>t u i r r'. pc t = InRun i r \<and> pc u = InRun i r' \<longrightarrow> t = u)"

definition conds_ok :: "pool_tasks \<Rightarrow> (tid \<Rightarrow> pool_task_pc) \<Rightarrow> bool" where
  "conds_ok s pc \<longleftrightarrow> (\<forall>i < length (pk_tasks s). cv_free (tb_cancelCondition (pk_tasks s ! i)) \<and>
     (\<forall>t \<in> set (m_cond (tb_cancelCondition (pk_tasks s ! i))). \<exists>c. pc t = InCancel i T_CancelWait c))"

definition pool_task_inv :: "bool \<Rightarrow> nat \<Rightarrow> nat \<Rightarrow> pool_tasks \<Rightarrow> (tid \<Rightarrow> pool_task_pc) \<Rightarrow> bool" where
  "pool_task_inv once c m s pc \<longleftrightarrow> scaling_inv c m (pk_sys s) (pool_view \<circ> pc) \<and> conds_ok s pc \<and>
     ids_ok s (pending \<circ> pool_view \<circ> pc) \<and> (\<forall>t. at_task once s t (pc t)) \<and>
     (once \<longrightarrow> once_ids s (pending \<circ> pool_view \<circ> pc) \<and> one_runner pc)"

section \<open>How the actions keep it\<close>

lemma new_task_cond [simp]:
  "cv_free (tb_cancelCondition new_task_object)" "m_cond (tb_cancelCondition new_task_object) = []"
  by (simp_all add: new_task_object_def TaskBase_ctor_def sync) (simp add: ConditionVariable_ctor_def)

lemma enter_view [simp]: "pool_view (enter t s k) = k"
  by (simp add: enter_def)

definition awake :: "pool_tasks \<Rightarrow> tid \<Rightarrow> bool" where
  "awake s t \<longleftrightarrow> (\<forall>i < length (pk_tasks s). t \<notin> set (m_cond (tb_cancelCondition (pk_tasks s ! i))))"

lemma awake_set: "awake s t \<longleftrightarrow> (\<forall>tb \<in> set (pk_tasks s). t \<notin> set (m_cond (tb_cancelCondition tb)))"
  by (simp add: awake_def all_set_conv_all_nth)

lemma conds_upd:
  assumes "conds_ok s pc" and "awake s t" and "cv_free (tb_cancelCondition tb)"
    and "set (m_cond (tb_cancelCondition tb)) \<subseteq>
      (if \<exists>c. k = InCancel i T_CancelWait c then insert t else id) (set (m_cond (tb_cancelCondition (pk_tasks s ! i))))"
    and "pk_tasks s' = (pk_tasks s)[i := tb]"
  shows "conds_ok s' (pc(t := k))"
proof -
  have "\<exists>c. (pc(t := k)) u = InCancel j T_CancelWait c"
    if "j < length (pk_tasks s)" "u \<in> set (m_cond (tb_cancelCondition ((pk_tasks s)[i := tb] ! j)))" for j u
    using that assms(1,2,4) unfolding conds_ok_def awake_def
    by (cases "j = i"; cases "u = t"; simp add: subset_iff split: if_splits; blast)
  moreover have "cv_free (tb_cancelCondition ((pk_tasks s)[i := tb] ! j))" if "j < length (pk_tasks s)" for j
    using that assms(1,3) by (cases "j = i") (auto simp: conds_ok_def)
  ultimately show ?thesis using assms(5) by (simp add: conds_ok_def)
qed

lemma conds_more:
  assumes "conds_ok s pc" and "awake s t" and "pk_tasks s' = pk_tasks s @ (if b then [new_task_object] else [])"
  shows "conds_ok s' (pc(t := k))"
proof -
  have "\<exists>c. (pc(t := k)) u = InCancel j T_CancelWait c"
    if "j < length (pk_tasks s)" "u \<in> set (m_cond (tb_cancelCondition (pk_tasks s ! j)))" for j u
    using that assms(1,2) unfolding conds_ok_def awake_def by (cases "u = t") auto
  then show ?thesis using assms(1,3) by (auto simp: conds_ok_def nth_append less_Suc_eq split: if_splits)
qed

lemma view_same [simp]: "kv k = kv (pc t) \<Longrightarrow> (kv \<circ> pc)(t := kv k) = kv \<circ> pc"
  by auto

lemma ids_pool:
  assumes "ids_ok s pn" and "call_ok once e s" and "scaling_act e t b (pk_sys s) = Some (b', sys)"
    and "pool_ready (sy_pool (pk_sys s))" and "pn t = pending b"
  shows "ids_ok (s\<lparr>pk_sys := sys, pk_tasks := pk_tasks s @ (if makes_task e then [new_task_object] else []),
         pk_added := pk_added s @ added_by e\<rparr>) (pn(t := pending b'))"
proof (cases "added_by e = []")
  case True
  from assms(1) have pn: "set (pending b) \<subseteq> set (pk_added s)" unfolding assms(5) [symmetric] ids_ok_def by blast
  with assms(1) other_effect [OF assms(3,4) True] True show ?thesis by (auto simp: ids_ok_def)
next
  case False
  with assms(1,2) call_effect [OF assms(3)] show ?thesis by (auto simp: ids_ok_def call_ok_def objects_exist_def split: if_splits)
qed

lemma added_by_distinct: "distinct (added_by e)"
  by (cases e rule: added_by.cases; simp) (metis DoRun_cases distinct.simps(1) distinct_singleton)

lemma once_pool:
  assumes "once_ids s pn" and "ids_ok s pn" and "call_ok True e s" and "scaling_act e t b (pk_sys s) = Some (b', sys)"
    and "pool_ready (sy_pool (pk_sys s))" and "pn t = pending b" and "set (popped_ids s) \<subseteq> set (task_ids (sy_popped sys))"
  shows "once_ids (s\<lparr>pk_sys := sys, pk_tasks := pk_tasks s @ (if makes_task e then [new_task_object] else []),
         pk_added := pk_added s @ added_by e\<rparr>) (pn(t := pending b'))"
proof (cases "added_by e = []")
  case True
  from assms(1) have pn: "distinct (pending b)" "set (pending b) \<inter> set (pushed_ids s) = {}"
    "u \<noteq> t \<Longrightarrow> set (pending b) \<inter> set (pn u) = {}" for u
    unfolding assms(6) [symmetric] once_ids_def by blast+
  have over: "set (pk_over s) \<subseteq> set (task_ids (sy_popped sys))" using assms(1,7) by (auto simp: once_ids_def)
  from other_effect [OF assms(4,5) True] show ?thesis
    using assms(1) pn over unfolding once_ids_def
    by (elim disjE conjE) auto
next
  case False
  have new: "set (added_by e) \<inter> set (pk_added s) = {}" using assms(3) by (auto simp: call_ok_def)
  have old: "set (pushed_ids s) \<subseteq> set (pk_added s)" "set (pn u) \<subseteq> set (pk_added s)" for u
    using assms(2) by (auto simp: ids_ok_def)
  have "set (added_by e) \<inter> set (pushed_ids s) = {}" "set (added_by e) \<inter> set (pn u) = {}" for u
    using new old(1) old(2) [of u] by blast+
  with assms(1) call_effect [OF assms(4) False] added_by_distinct [of e] show ?thesis
    unfolding once_ids_def by (simp add: Int_commute)
qed

lemma at_task_frame:
  assumes "at_task once s u k" and "set (popped_ids s) \<subseteq> set (popped_ids s')" and "length (pk_tasks s) \<le> length (pk_tasks s')"
    and "\<forall>i r. k = InRun i r \<longrightarrow> wt_runningTask (sl_workers (sy_pool (pk_sys s')) u) = wt_runningTask (sl_workers (sy_pool (pk_sys s)) u)"
    and "\<forall>i r. once \<and> k = InRun i r \<and> in_run r \<and> i \<notin> set (pk_over s) \<longrightarrow> i \<notin> set (pk_over s')"
  shows "at_task once s' u k"
  using assms by (cases k) auto

lemma runner_spawned:
  assumes "scaling_inv c m s (pool_view \<circ> pc)" and "pc u = InRun i r" shows "u \<in> set (sy_spawned s)"
proof (rule ccontr)
  assume "u \<notin> set (sy_spawned s)"
  moreover have "fresh_ok s u (pool_view (pc u))" using assms(1) by (simp add: scaling_inv_def pcs_ok_def)
  ultimately show False using assms(2) by (simp add: fresh_ok_def split: if_splits)
qed

lemma inv_pool:
  assumes inv: "pool_task_inv once c m s pc" and awake: "awake s t"
    and k: "pc t = InPool b" "b \<noteq> Worker W_Run" and ok: "call_ok once e s"
    and act: "scaling_act e t b (pk_sys s) = Some (b', sys)"
    and s': "s' = s\<lparr>pk_sys := sys, pk_tasks := pk_tasks s @ (if makes_task e then [new_task_object] else []),
         pk_added := pk_added s @ added_by e\<rparr>"
  shows "pool_task_inv once c m s' (pc(t := enter t sys b'))"
proof -
  from inv have base: "scaling_inv c m (pk_sys s) (pool_view \<circ> pc)" and conds: "conds_ok s pc"
    and ids: "ids_ok s (pending \<circ> pool_view \<circ> pc)" and at: "\<And>u. at_task once s u (pc u)"
    and uniq: "once \<Longrightarrow> once_ids s (pending \<circ> pool_view \<circ> pc)" "once \<Longrightarrow> one_runner pc" by (auto simp: pool_task_inv_def)
  from base have ready: "pool_ready (sy_pool (pk_sys s))" and spawn: "spawn_ok (pk_sys s)" by (auto simp: scaling_inv_def)
  have view: "pool_view \<circ> pc(t := enter t sys b') = (pool_view \<circ> pc)(t := b')" by simp
  have pn: "pending \<circ> pool_view \<circ> pc(t := enter t sys b') = (pending \<circ> pool_view \<circ> pc)(t := pending b')"
    unfolding comp_assoc view by simp
  have base': "scaling_inv c m sys ((pool_view \<circ> pc)(t := b'))"
    using scaling_act_inv [OF base, of e t b' sys] act k(1) by simp
  note fetch = fetch_effect [OF act ready k(2)]
  have mono: "set (popped_ids s) \<subseteq> set (popped_ids s')" using fetch s' by (cases "b' = Worker W_Run") auto
  have frame: "at_task once s' u (pc u)" if "u \<noteq> t" for u
    using running_frame [OF act ready spawn, of u] runner_spawned [OF base, of u] that
    by (intro at_task_frame [OF at mono]) (auto simp: s')
  have new: "f \<notin> set (popped_ids s)" if "once" "task_ids (sy_popped sys) = popped_ids s @ [f]" "sy_pushed sys = sy_pushed (pk_sys s)" for f
  proof -
    have "sy_pushed sys = sy_popped sys @ sl_queue (sy_pool sys)" using base' by (simp add: scaling_inv_def log_ok_def)
    moreover have "distinct (task_ids (sy_pushed sys))" using uniq(1) [OF that(1)] that(3) by (simp add: once_ids_def)
    ultimately show ?thesis using that(2) by simp
  qed
  have self: "at_task once s' t (enter t sys b')"
  proof (cases "b' = Worker W_Run")
    case True
    with fetch obtain f where f: "wt_runningTask (sl_workers (sy_pool sys) t) = Some (FunctorTask f)"
      "task_ids (sy_popped sys) = popped_ids s @ [f]" "sy_pushed sys = sy_pushed (pk_sys s)" by blast
    have "once \<Longrightarrow> f \<notin> set (pk_over s)" using new [OF _ f(2,3)] uniq(1) by (auto simp: once_ids_def)
    with f True show ?thesis by (simp add: enter_def s')
  qed (simp add: enter_def)
  have "one_runner (pc(t := enter t sys b'))" if "once"
  proof (cases "b' = Worker W_Run")
    case True
    with fetch obtain f where f: "wt_runningTask (sl_workers (sy_pool sys) t) = Some (FunctorTask f)"
      "task_ids (sy_popped sys) = popped_ids s @ [f]" "sy_pushed sys = sy_pushed (pk_sys s)" by blast
    have "pc u \<noteq> InRun f r" for u r using at [of u] new [OF that f(2,3)] by auto
    with uniq(2) [OF that] True f show ?thesis by (auto simp: one_runner_def enter_def)
  qed (use uniq(2) [OF that] in \<open>auto simp: one_runner_def enter_def\<close>)
  moreover have "once_ids s' ((pending \<circ> pool_view \<circ> pc)(t := pending b'))" if "once"
    unfolding s' using uniq(1) [OF that] ids ok that act ready mono k(1) by (intro once_pool) (auto simp: s')
  moreover have "ids_ok s' ((pending \<circ> pool_view \<circ> pc)(t := pending b'))"
    unfolding s' using ids ok act ready k(1) by (intro ids_pool) auto
  moreover have "conds_ok s' (pc(t := enter t sys b'))"
    using conds awake by (intro conds_more [where b = "makes_task e"]) (auto simp: s')
  moreover have "\<forall>u. at_task once s' u ((pc(t := enter t sys b')) u)" using self frame by simp
  moreover have "pk_sys s' = sys" by (simp add: s')
  ultimately show ?thesis using base' unfolding pool_task_inv_def view pn by simp
qed

lemma inv_other:
  assumes inv: "pool_task_inv once c m s pc"
    and base: "scaling_inv c m (pk_sys s') ((pool_view \<circ> pc)(t := pool_view k))"
    and logs: "pushed_ids s' = pushed_ids s" "popped_ids s' = popped_ids s" "pk_added s' = pk_added s"
      "sl_workers (sy_pool (pk_sys s')) = sl_workers (sy_pool (pk_sys s))" "length (pk_tasks s) \<le> length (pk_tasks s')"
    and pend: "pending (pool_view k) = pending (pool_view (pc t))"
    and conds: "conds_ok s' (pc(t := k))" and self: "at_task once s' t k"
    and over: "\<forall>j \<in> set (pk_over s') - set (pk_over s). \<exists>r. pc t = InRun j r"
    and runner: "\<forall>i r. k = InRun i r \<longrightarrow> (\<exists>r'. pc t = InRun i r')"
  shows "pool_task_inv once c m s' (pc(t := k))"
proof -
  from inv have ids: "ids_ok s (pending \<circ> pool_view \<circ> pc)" and at: "\<And>u. at_task once s u (pc u)"
    and uniq: "once \<Longrightarrow> once_ids s (pending \<circ> pool_view \<circ> pc)" "once \<Longrightarrow> one_runner pc" by (auto simp: pool_task_inv_def)
  have pn: "pending \<circ> pool_view \<circ> pc(t := k) = pending \<circ> pool_view \<circ> pc"
    using pend by auto
  have frame: "at_task once s' u (pc u)" if "u \<noteq> t" for u
  proof (rule at_task_frame [OF at])
    show "\<forall>i r. once \<and> pc u = InRun i r \<and> in_run r \<and> i \<notin> set (pk_over s) \<longrightarrow> i \<notin> set (pk_over s')"
      using over uniq(2) that unfolding one_runner_def by blast
  qed (use logs in auto)
  have "one_runner (pc(t := k))" if "once" using uniq(2) [OF that] runner unfolding one_runner_def by (metis fun_upd_apply)
  moreover have "once_ids s' (pending \<circ> pool_view \<circ> pc)" if "once"
  proof -
    have "j \<in> set (popped_ids s)" if "j \<in> set (pk_over s') - set (pk_over s)" for j
    proof -
      from over that obtain r where "pc t = InRun j r" by blast
      with at [of t] show ?thesis by simp
    qed
    then have "set (pk_over s') \<subseteq> set (pk_over s) \<union> set (popped_ids s)" by blast
    then show ?thesis using uniq(1) [OF that] logs unfolding once_ids_def by auto
  qed
  moreover have "ids_ok s' (pending \<circ> pool_view \<circ> pc)" using ids logs unfolding ids_ok_def by auto
  moreover have "\<forall>u. at_task once s' u ((pc(t := k)) u)" using self frame by simp
  ultimately show ?thesis using base conds unfolding pool_task_inv_def pn by simp
qed

lemma inv_view:
  assumes "pool_task_inv once c m s pc" and "pool_view k = pool_view (pc t)"
  shows "scaling_inv c m (pk_sys s) ((pool_view \<circ> pc)(t := pool_view k))"
proof -
  have "(pool_view \<circ> pc)(t := pool_view k) = pool_view \<circ> pc" using assms(2) by auto
  with assms(1) show ?thesis by (simp add: pool_task_inv_def)
qed

lemma pool_task_act_inv:
  assumes inv: "pool_task_inv once c m s pc" and awake: "awake s t"
    and act: "pool_task_act once e t (pc t) s = Some (k, s')"
  shows "pool_task_inv once c m s' (pc(t := k))"
proof -
  from inv have conds: "conds_ok s pc" and at: "at_task once s t (pc t)" and ids: "ids_ok s (pending \<circ> pool_view \<circ> pc)"
    and base: "scaling_inv c m (pk_sys s) (pool_view \<circ> pc)" by (auto simp: pool_task_inv_def)
  from base have log: "log_ok (pk_sys s)" by (simp add: scaling_inv_def)
  have popped: "i < length (pk_tasks s)" if "i \<in> set (popped_ids s)" for i
    using that ids log unfolding ids_ok_def log_ok_def by auto
  have free: "i < length (pk_tasks s) \<Longrightarrow> cv_free (tb_cancelCondition (pk_tasks s ! i))" for i
    using conds by (simp add: conds_ok_def)
  note other = inv_other [OF inv]
  from act show ?thesis
  proof (cases rule: pool_task_who)
    case (pool e' b b' sys)
    then show ?thesis using inv_pool [OF inv awake] by simp
  next
    case (makes d)
    then show ?thesis
      using at inv_view [OF inv, of k t] conds_more [OF conds awake, of s' True] by (intro other) auto
  next
    case (cancel i d)
    then show ?thesis
      using at inv_view [OF inv, of k t] conds_upd [OF conds awake, of "(pk_tasks s ! i)\<lparr>tb_isRequestCancel := True\<rparr>" k i s'] free
      by (intro other) auto
  next
    case (run i r te r' tb)
    with at popped have i: "i < length (pk_tasks s)" by auto
    note eff = Run_effect [OF run(2) free [OF i]]
    have "r \<noteq> T_RunThrew" using eff(1) by auto
    with eff run(3) show ?thesis
      using run at inv_view [OF inv, of k t] conds_upd [OF conds awake eff(3), of k i s']
      by (intro other) (auto split: if_splits)
  next
    case (threw i sys)
    with scaling_act_inv [OF base, of TaskThrows t "Worker W_Threw" sys]
    have "scaling_inv c m sys ((pool_view \<circ> pc)(t := pool_view k))" by simp
    moreover have "conds_ok s' (pc(t := k))" using threw conds_more [OF conds awake, of s' False] by simp
    ultimately show ?thesis using threw at by (intro other) (auto simp: W_Run_throws pc_simps split: if_splits)
  next
    case (finished i n sp sys)
    with scaling_act_inv [OF base, of "L_Step n sp" t "Worker W_Check" sys]
    have "scaling_inv c m sys ((pool_view \<circ> pc)(t := pool_view k))" by simp
    moreover have "conds_ok s' (pc(t := k))" using finished conds_more [OF conds awake, of s' False] by simp
    ultimately show ?thesis using finished at by (intro other) (auto simp: W_Run_step pc_simps split: if_splits)
  next
    case (waits i r te r' tb d)
    with at have i: "i < length (pk_tasks s)" "r \<noteq> T_Idle" by auto
    note eff = Cancel_effect [OF waits(3) free [OF i(1)] i(2)]
    from eff show ?thesis
      using waits at inv_view [OF inv, of k t] conds_upd [OF conds awake eff(3), of k i s']
      by (intro other) (auto split: if_splits)
  next
    case (leaves i d)
    then show ?thesis
      using at inv_view [OF inv, of k t] conds_more [OF conds awake, of s' False] by (intro other) auto
  qed
qed

lemma pool_task_fields [simp]:
  "act (pool_task_machine once) = pool_task_act once" "expire (pool_task_machine once) = pool_task_expire"
  "unwait (pool_task_machine once) t s =
     s\<lparr>pk_sys := scaling_unwait t (pk_sys s), pk_tasks := map (task_unwait t) (pk_tasks s)\<rparr>"
  by (simp_all add: pool_task_machine_def)

lemma pool_task_waiting: "waiting (pool_task_machine once) s t \<longleftrightarrow> scaling_waiting (pk_sys s) t \<or> \<not> awake s t"
  by (auto simp: pool_task_machine_def awake_set sync)

text \<open>Who sleeps on the condition of a task is inside \<open>Cancel\<close>; timeouts happen in the pool's code.\<close>

lemma inv_unwait:
  assumes inv: "pool_task_inv once c m s pc" and s': "s' = unwait (pool_task_machine once) t s"
    and base: "scaling_inv c m (pk_sys s') (pool_view \<circ> pc')" and pend: "pending \<circ> pool_view \<circ> pc' = pending \<circ> pool_view \<circ> pc"
    and pc': "\<forall>u. pc' u = pc u \<or> (\<exists>k k'. pc u = InPool k \<and> pc' u = InPool k' \<and> k' \<noteq> Worker W_Run)"
  shows "pool_task_inv once c m s' pc'"
proof -
  from inv have parts: "conds_ok s pc" "ids_ok s (pending \<circ> pool_view \<circ> pc)" "\<And>u. at_task once s u (pc u)"
    "once \<longrightarrow> once_ids s (pending \<circ> pool_view \<circ> pc) \<and> one_runner pc" by (auto simp: pool_task_inv_def)
  have "sl_workers (sy_pool (pk_sys s')) = sl_workers (sy_pool (pk_sys s))" "sy_pushed (pk_sys s') = sy_pushed (pk_sys s)"
    "sy_popped (pk_sys s') = sy_popped (pk_sys s)" "pk_over s' = pk_over s" "pk_added s' = pk_added s"
    "length (pk_tasks s') = length (pk_tasks s)" by (simp_all add: s' scaling_unwait_def)
  note same = this
  have "at_task once s' u (pc' u)" for u
  proof (cases "pc' u = pc u")
    case True
    then show ?thesis using same by (simp only: True) (rule at_task_frame [OF parts(3)], auto)
  next
    case False
    with pc' show ?thesis by (metis at_task.simps(1))
  qed
  moreover have "one_runner pc'" if "one_runner pc" unfolding one_runner_def
  proof (intro allI impI, elim conjE)
    fix u v i r r' assume r: "pc' u = InRun i r" "pc' v = InRun i r'"
    with pc' have "pc u = InRun i r" "pc v = InRun i r'" by (metis pool_task_pc.distinct(1))+
    with that show "u = v" by (simp add: one_runner_def)
  qed
  moreover have "conds_ok s' pc'" unfolding conds_ok_def
  proof (intro allI impI conjI ballI)
    fix i assume i: "i < length (pk_tasks s')"
    with same parts(1) show "cv_free (tb_cancelCondition (pk_tasks s' ! i))"
      by (simp add: conds_ok_def s' task_unwait_def sync)
    fix u assume "u \<in> set (m_cond (tb_cancelCondition (pk_tasks s' ! i)))"
    with i same parts(1) obtain d where "pc u = InCancel i T_CancelWait d"
      by (auto simp: conds_ok_def s' task_unwait_def sync)
    with pc' show "\<exists>d. pc' u = InCancel i T_CancelWait d" by (metis pool_task_pc.distinct(3))
  qed
  ultimately show ?thesis
    using base parts(2,4) same unfolding pool_task_inv_def pend ids_ok_def once_ids_def by auto
qed

definition pool_task_init :: "nat \<Rightarrow> nat \<Rightarrow> (pool_tasks, pool_task_pc) config \<Rightarrow> bool" where
  "pool_task_init c m cfg \<longleftrightarrow> cfg = pool_task_start c m"

lemma start_view: "pool_view \<circ> (\<lambda>t. InPool (f t)) = f"
  by auto

lemma start_logs: "sy_pushed (fst (scaling_start c m)) = []" "sy_popped (fst (scaling_start c m)) = []"
  "sy_spawned (fst (scaling_start c m)) = map worker_tid [0..<c]"
  by (simp_all add: scaling_start_def)

lemma start_pending: "pending (snd (scaling_start c m) t) = []"
  by (simp add: scaling_start_def pc_simps ready_client_def)

lemma pool_task_start_inv:
  assumes "pool_task_start c m = (s, pc)"
  shows "pool_task_inv once c m s pc"
proof -
  have s: "s = \<lparr>pk_sys = fst (scaling_start c m), pk_tasks = [], pk_added = [], pk_bodies = [], pk_over = []\<rparr>"
    "pc = (\<lambda>t. InPool (snd (scaling_start c m) t))" using assms by (auto simp: pool_task_start_def)
  have "scaling_inv c m (fst (scaling_start c m)) (snd (scaling_start c m))" by (rule scaling_start_inv) simp
  moreover have "snd (scaling_start c m) t \<noteq> (Worker W_Run :: nat scaling_pc)" for t using start_pcs(4) [of c m t] by auto
  moreover have "pending \<circ> snd (scaling_start c m) = (\<lambda>t. [])" by (auto simp: start_pending)
  ultimately show ?thesis
    by (simp add: pool_task_inv_def s start_view comp_assoc conds_ok_def ids_ok_def once_ids_def one_runner_def start_logs)
qed

lemma expire_pending: "scaling_expire k = Some k' \<Longrightarrow> pending k' = pending k"
  by (cases k rule: scaling_expire.cases) (auto simp: pc_simps)

interpretation pool_tasks: machine_invariant "pool_task_machine once" "pool_task_init c m" "pool_task_inv once c m" for once c m
proof (unfold_locales, goal_cases)
  case (1 s pc)
  then show ?case by (auto simp: pool_task_init_def intro: pool_task_start_inv)
next
  case (2 s pc t e k s')
  then show ?case by (auto simp: pool_task_waiting intro: pool_task_act_inv)
next
  case (3 s pc t)
  then show ?case
    by (intro inv_unwait [OF 3(1) refl]) (auto simp: pool_task_inv_def scaling_unwait_inv)
next
  case (4 s pc t k)
  then obtain b b' where b: "pc t = InPool b" "scaling_expire b = Some b'" "k = InPool b'" by (cases "pc t") auto
  have base: "scaling_inv c m (pk_sys s) (pool_view \<circ> pc)" using 4(1) by (simp add: pool_task_inv_def)
  show ?case
  proof (rule inv_unwait [OF 4(1) refl])
    show "scaling_inv c m (pk_sys (unwait (pool_task_machine once) t s)) (pool_view \<circ> pc(t := k))"
      using scaling_timeout_inv [OF base, of t b'] b by simp
    show "pending \<circ> pool_view \<circ> pc(t := k) = pending \<circ> pool_view \<circ> pc"
      using b expire_pending [OF b(2)] by auto
    show "\<forall>u. (pc(t := k)) u = pc u \<or> (\<exists>k1 k2. pc u = InPool k1 \<and> (pc(t := k)) u = InPool k2 \<and> k2 \<noteq> Worker W_Run)"
      using b by (cases b rule: scaling_expire.cases) auto
  qed
qed

end
