(* ===== verification/PoolTaskProperties.thy ===== *)
theory PoolTaskProperties
  imports PoolTasks
begin

text \<open>
  The two projections of the pool with its tasks, to the pool and to each task, and what follows for
  tasks in a pool whose clients add no task object twice: their bodies start at most once, \<open>Cancel\<close> loses no wake-up and returns only
  when the task is over, and it waits for ever on a task that a shutdown left behind.
\<close>

section \<open>The projection to the pool\<close>

lemma unwait_awake:
  assumes "\<not> scaling_waiting s t"
  shows "scaling_unwait t s = s"
proof -
  have "cv_unwait t c = c" if "\<not> cv_waiting c t" for c using that by (simp add: cv_waiting_def cv_unwait_def)
  with assms show ?thesis by (simp add: scaling_waiting_def scaling_unwait_def)
qed

lemma expire_in_pool:
  assumes "pool_task_inv once c m s pc" and "waiting (pool_task_machine once) s t" and "pool_task_expire (pc t) = Some k"
  obtains b b' where "pc t = InPool b" "k = InPool b'" "scaling_expire b = Some b'" "scaling_waiting (pk_sys s) t" "awake s t"
proof -
  from assms(3) obtain b b' where b: "pc t = InPool b" "k = InPool b'" "scaling_expire b = Some b'" by (cases "pc t") auto
  have "awake s t" unfolding awake_def
  proof (intro allI impI notI)
    fix i assume "i < length (pk_tasks s)" "t \<in> set (m_cond (tb_cancelCondition (pk_tasks s ! i)))"
    with assms(1) have "\<exists>d. pc t = InCancel i T_CancelWait d" by (auto simp: pool_task_inv_def conds_ok_def)
    with b(1) show False by simp
  qed
  with assms(2) b that show ?thesis by (auto simp: pool_task_waiting)
qed

lemma base_step:
  assumes "\<not> scaling_waiting s t" and "scaling_act e t (pc t) s = Some (k, s')"
  shows "step scaling_machine (s, pc) (s', pc(t := k))"
  using assms by (intro step.step_act [where e = e]) auto

interpretation to_pool: machine_projection "pool_task_machine once" "pool_task_init c m" "pool_task_inv once c m"
    scaling_machine pk_sys pool_view for once c m
proof (unfold_locales, goal_cases)
  case (1 s pc t e k s')
  then have awake: "\<not> scaling_waiting (pk_sys s) t" by (simp add: pool_task_waiting)
  note step = base_step [OF awake, of _ "pool_view \<circ> pc"]
  from 1(3) have act: "pool_task_act once e t (pc t) s = Some (k, s')" by simp
  then show ?case
  proof (cases rule: pool_task_who)
    case (pool e' b b' sys)
    with step [of e' b' sys] show ?thesis by simp
  next
    case (run i r te r' tb)
    have "r \<noteq> T_RunThrew" using run(2) by auto
    with run show ?thesis by auto
  next
    case (threw i sys)
    with step [of TaskThrows "Worker W_Threw" sys] show ?thesis by simp
  next
    case (finished i n sp sys)
    with step [of "L_Step n sp" "Worker W_Check" sys] show ?thesis by simp
  qed auto
next
  case (2 s pc t)
  then show ?case by (simp add: unwait_awake)
next
  case (3 s pc t k)
  then show ?case by (auto elim: expire_in_pool)
qed

section \<open>The projection to a task\<close>

definition task_of :: "nat \<Rightarrow> pool_tasks \<Rightarrow> task_sys" where
  "task_of i s = \<lparr>ts_task = (if i < length (pk_tasks s) then pk_tasks s ! i else new_task_object),
     ts_active = (i \<in> set (popped_ids s) \<and> i \<notin> set (pk_over s)), ts_runs = count_list (popped_ids s) i,
     ts_bodies = count_list (pk_bodies s) i\<rparr>"

lemma task_step:
  assumes "t \<notin> set (m_cond (tb_cancelCondition (ts_task s)))" and "task_act rerun e t (pc t) s = Some (k, s')"
  shows "step (task_machine rerun) (s, pc) (s', pc(t := k))"
  using assms by (intro step.step_act [where e = e]) (auto simp: task_machine_def sync)

lemma task_of_same:
  assumes "pk_tasks s' = pk_tasks s @ (if b then [new_task_object] else [])" and "popped_ids s' = popped_ids s"
    and "pk_over s' = pk_over s" and "pk_bodies s' = pk_bodies s"
  shows "task_of i s' = task_of i s"
  using assms by (auto simp: task_of_def nth_append less_Suc_eq)

lemma Run_is_task_act:
  assumes "TaskBase_Run e t k (ts_task s) = Some (k', tb)"
  shows "task_act rerun e t k s = Some (k', s\<lparr>ts_task := tb, ts_active := (k' \<noteq> T_RunDone \<and> k' \<noteq> T_RunThrew),
    ts_bodies := ts_bodies s + (if k = T_SetRunning then 1 else 0)\<rparr>)"
  using assms by (cases e; cases k) auto

lemma Cancel_is_task_act:
  assumes "TaskBase_Cancel e t k (ts_task s) = Some (k', tb)"
  shows "task_act rerun e t k s = Some (k', s\<lparr>ts_task := tb\<rparr>)"
  using assms by (cases e; cases k) auto

lemma task_of_upd:
  assumes "i < length (pk_tasks s)"
  shows "task_of j (s\<lparr>pk_tasks := (pk_tasks s)[i := tb]\<rparr>) = (if i = j then (task_of j s)\<lparr>ts_task := tb\<rparr> else task_of j s)"
  using assms by (simp add: task_of_def)

lemma task_view_other: "pc t = InRun j r \<or> pc t = InCancel j r c \<Longrightarrow> j \<noteq> i \<Longrightarrow> task_view i (pc t) = T_Idle"
  by auto

interpretation to_task: machine_projection "pool_task_machine True" "pool_task_init c m" "pool_task_inv True c m"
    "task_machine False" "task_of i" "task_view i" for c m i
proof (unfold_locales, goal_cases)
  case (1 s pc t e k s')
  then have inv: "pool_task_inv True c m s pc" and awake: "awake s t" and act: "pool_task_act True e t (pc t) s = Some (k, s')"
    by (auto simp: pool_task_waiting)
  from inv have at: "at_task True s t (pc t)" and once: "once_ids s (pending \<circ> pool_view \<circ> pc)"
    and ids: "ids_ok s (pending \<circ> pool_view \<circ> pc)" and base: "scaling_inv c m (pk_sys s) (pool_view \<circ> pc)"
    by (auto simp: pool_task_inv_def)
  have log: "sy_pushed (pk_sys s) = sy_popped (pk_sys s) @ sl_queue (sy_pool (pk_sys s))" and ready: "pool_ready (sy_pool (pk_sys s))"
    using base by (auto simp: scaling_inv_def log_ok_def)
  have popped: "j < length (pk_tasks s)" if "j \<in> set (popped_ids s)" for j
    using that ids log unfolding ids_ok_def by auto
  have asleep: "t \<notin> set (m_cond (tb_cancelCondition (ts_task (task_of i s))))"
    using awake by (simp add: task_of_def awake_def)
  note step = task_step [where pc = "task_view i \<circ> pc" and rerun = False, OF asleep]
  from act show ?case
  proof (cases rule: pool_task_who)
    case (pool e' b b' sys)
    note fetch = fetch_effect [OF pool(4) ready pool(2)]
    show ?thesis
    proof (cases "b' = Worker W_Run")
      case True
      with fetch obtain f where f: "wt_runningTask (sl_workers (sy_pool sys) t) = Some (FunctorTask f)"
        "task_ids (sy_popped sys) = popped_ids s @ [f]" "sy_pushed sys = sy_pushed (pk_sys s)" by blast
      then have k: "k = InRun f T_RunCheck" using pool(5) True by (simp add: enter_def)
      show ?thesis
      proof (cases "f = i")
        case True
        have "distinct (task_ids (sy_pushed sys))" using once f(3) by (simp add: once_ids_def)
        moreover have "sy_pushed sys = sy_popped sys @ sl_queue (sy_pool sys)"
          using scaling_act_inv [OF base, of e' t b' sys] pool(1,4) by (simp add: scaling_inv_def log_ok_def)
        ultimately have new: "i \<notin> set (popped_ids s)" using f(2) True by simp
        moreover from this have "i \<notin> set (pk_over s)" using once by (auto simp: once_ids_def)
        ultimately have "task_act False E_Run t T_Idle (task_of i s) = Some (T_RunCheck, task_of i s')"
          using pool(6) f(2) True by (simp add: task_of_def nth_append less_Suc_eq)
        then show ?thesis using step [of E_Run T_RunCheck] pool(1) k True by simp
      next
        case False
        with f(2) pool(1,6) k show ?thesis by (auto simp: task_of_def nth_append less_Suc_eq)
      qed
    next
      case False
      with fetch pool have "task_of i s' = task_of i s" by (intro task_of_same [where b = "makes_task e'"]) auto
      with False pool(1,5) show ?thesis by (simp add: enter_def)
    qed
  next
    case (makes d)
    then show ?thesis using task_of_same [of s' s True] by simp
  next
    case (cancel j d)
    then have act: "j = i \<Longrightarrow> task_act False E_Cancel t T_Idle (task_of i s) = Some (T_CancelWait, task_of i s')"
      by (simp add: task_of_upd) (simp add: task_of_def)
    from cancel act show ?thesis
      using step [of E_Cancel T_CancelWait "task_of i s'"] by (cases "j = i") (auto simp: task_of_upd)
  next
    case (run j r te r' tb)
    with at popped have j: "j < length (pk_tasks s)" "j \<in> set (popped_ids s)" by auto
    show ?thesis
    proof (cases "j = i")
      case True
      then have tb: "TaskBase_Run te t r (ts_task (task_of i s)) = Some (r', tb)" using run(2) j by (simp add: task_of_def)
      have r: "in_run r" using Run_in_run [OF tb] .
      then have "i \<notin> set (pk_over s)" using at run(1) True by auto
      then have "task_of i s' = (task_of i s)\<lparr>ts_task := tb, ts_active := (r' \<noteq> T_RunDone \<and> r' \<noteq> T_RunThrew),
          ts_bodies := ts_bodies (task_of i s) + (if r = T_SetRunning then 1 else 0)\<rparr>"
        using run(3,5) j True by (simp add: task_of_def)
      with Run_is_task_act [OF tb] show ?thesis using step [of te r' "task_of i s'"] run(1,4) True by simp
    next
      case False
      with run j show ?thesis by (auto simp: task_of_def)
    qed
  next
    case (threw j sys)
    with at have j: "j \<in> set (popped_ids s)" by simp
    have "task_act False E_BodyThrow t T_Body (task_of i s) = Some (T_RunThrew, task_of i s')" if "j = i"
      using threw(3,4) that j by (auto simp: W_Run_throws task_of_def split: if_splits)
    then show ?thesis
      using step [of E_BodyThrow T_RunThrew "task_of i s'"] threw
      by (cases "j = i") (auto simp: W_Run_throws task_of_def split: if_splits)
  next
    case (finished j n sp sys)
    then have same: "task_of i s' = task_of i s" by (auto simp: W_Run_step task_of_def split: if_splits)
    then show ?thesis
      using step [of E_Step T_Idle "task_of i s"] finished(1,2) by (cases "j = i") auto
  next
    case (waits j r te r' tb d)
    with at have j: "j < length (pk_tasks s)" by simp
    have "task_act False te t r (task_of i s) = Some (r', task_of i s')" if "j = i"
      using Cancel_is_task_act [of te t r "task_of i s" r' tb] waits(3,5) j that by (simp add: task_of_def)
    then show ?thesis
      using step [of te r' "task_of i s'"] waits(1,4,5) j by (cases "j = i") (auto simp: task_of_upd)
  next
    case (leaves j d)
    then show ?thesis using step [of E_Step T_Idle "task_of i s"] by (cases "j = i") auto
  qed
next
  case (2 s pc t)
  then show ?case
    by (auto simp: task_of_def task_machine_def scaling_unwait_def task_unwait_def sync)
next
  case (3 s pc t k)
  then have "pool_task_expire (pc t) = Some k" by simp
  from 3(1,2) this show ?case
  proof (rule expire_in_pool)
    fix b b' assume "awake s t" "pc t = InPool b" "k = InPool b'"
    then show ?thesis by (auto simp: task_machine_def task_of_def awake_def sync)
  qed
qed

section \<open>Properties of the composition\<close>

abbreviation pool_task_reachable :: "bool \<Rightarrow> nat \<Rightarrow> nat \<Rightarrow> pool_tasks \<Rightarrow> (tid \<Rightarrow> pool_task_pc) \<Rightarrow> bool" where
  "pool_task_reachable once c m s pc \<equiv> reachable (pool_task_machine once) (pool_task_init c m) (s, pc)"

abbreviation one_task_reachable :: "task_sys \<Rightarrow> (tid \<Rightarrow> task_pc) \<Rightarrow> bool" where
  "one_task_reachable s pc \<equiv> reachable (task_machine False) (\<lambda>c. c = task_start) (s, pc)"

lemma pool_reachable: "pool_task_reachable once c m s pc \<Longrightarrow> scaling_reachable c m (pk_sys s) (pool_view \<circ> pc)"
  by (erule to_pool.proj_reachable) (auto simp: pool_task_init_def pool_task_start_def scaling_init_def start_view)

lemma task_reachable: "pool_task_reachable True c m s pc \<Longrightarrow> one_task_reachable (task_of i s) (task_view i \<circ> pc)"
  by (erule to_task.proj_reachable)
     (auto simp: pool_task_init_def pool_task_start_def task_start_def task_of_def start_logs new_task_object_def)

text \<open>
  C3: the composition refines its parts.  Whatever workers that run tasks, threads that cancel them and
  clients of the pool do, the pool's state and program counters are those of a run of the pool alone; and
  when clients add no task object twice (\<open>once\<close>), the object of every task, with the threads that are inside
  its \<open>Run\<close> or \<open>Cancel\<close>, is in a state that the single task, run at most once, reaches.
\<close>

theorem pool_tasks_refine_parts:
  assumes "pool_task_reachable once c m s pc"
  shows "scaling_reachable c m (pk_sys s) (pool_view \<circ> pc) \<and>
    (once \<longrightarrow> (\<forall>i. reachable (task_machine False) (\<lambda>c. c = task_start) (task_of i s, task_view i \<circ> pc)))"
proof -
  have "reachable (task_machine False) (\<lambda>c. c = task_start) (task_of i s, task_view i \<circ> pc)" if once for i
    using task_reachable [of c m s pc i] assms that by simp
  with pool_reachable [OF assms] show ?thesis by blast
qed

text \<open>
  Threads and objects keep their types.  Thread 0 is the monitor, odd threads are workers and the others
  clients; only a worker that was created runs a task, and it is the one in its \<open>m_runningTask\<close>; only clients
  cancel; and the queue and every call refer to objects that exist.
\<close>

theorem pool_tasks_well_typed:
  assumes "pool_task_reachable once c m s pc"
  shows "(case pc t of
      InPool (Monitor _) \<Rightarrow> t = 0
    | InPool (Worker w) \<Rightarrow> odd t \<and> w \<noteq> W_Run
    | InPool (Client _) \<Rightarrow> t \<noteq> 0 \<and> even t
    | InRun i r \<Rightarrow> t \<in> set (sy_spawned (pk_sys s)) \<and> i < length (pk_tasks s) \<and>
        (r = T_RunThrew \<or> wt_runningTask (sl_workers (sy_pool (pk_sys s)) t) = Some (FunctorTask i))
    | InCancel i _ _ \<Rightarrow> t \<noteq> 0 \<and> even t \<and> i < length (pk_tasks s)) \<and>
    set (task_ids (sl_queue (sy_pool (pk_sys s)))) \<subseteq> {..<length (pk_tasks s)}"
proof -
  from pool_tasks.reachable_inv [OF assms] have base: "scaling_inv c m (pk_sys s) (pool_view \<circ> pc)"
    and at: "at_task once s t (pc t)" and ids: "ids_ok s (pending \<circ> pool_view \<circ> pc)" by (auto simp: pool_task_inv_def)
  from base have role: "role_ok t (pool_view (pc t))" and log: "log_ok (pk_sys s)" by (auto simp: scaling_inv_def pcs_ok_def)
  have all: "i < length (pk_tasks s)" if "i \<in> set (pushed_ids s)" for i using ids that unfolding ids_ok_def by blast
  then have "set (task_ids (sl_queue (sy_pool (pk_sys s)))) \<subseteq> {..<length (pk_tasks s)}"
    and popped: "\<And>i. i \<in> set (popped_ids s) \<Longrightarrow> i < length (pk_tasks s)"
    using log by (auto simp: log_ok_def)
  moreover have "t \<in> set (sy_spawned (pk_sys s))" if "pc t = InRun i r" for i r
    by (rule runner_spawned [OF base that])
  ultimately show ?thesis
    using at role popped by (cases "pc t") (auto simp: role_ok_def split: scaling_pc.splits)
qed

text \<open>One call of \<open>Run\<close> starts at most one body.\<close>

definition bodies_ok :: "task_sys \<Rightarrow> (tid \<Rightarrow> task_pc) \<Rightarrow> bool" where
  "bodies_ok s pc \<longleftrightarrow> task_inv s pc \<and> ts_bodies s \<le> ts_runs s \<and>
     (\<forall>t. pc t = T_RunCheck \<or> pc t = T_SetRunning \<longrightarrow> ts_bodies s < ts_runs s)"

lemma distinct_count_list: "distinct xs \<Longrightarrow> count_list xs x = (if x \<in> set xs then 1 else 0)"
  by (induction xs) auto

lemma bodies_act:
  assumes "bodies_ok s pc" and "task_act rerun e t (pc t) s = Some (k, s')"
  shows "bodies_ok s' (pc(t := k))"
proof -
  have inv: "task_inv s pc" using assms(1) by (simp add: bodies_ok_def)
  then have alone: "pc u \<noteq> T_RunCheck \<and> pc u \<noteq> T_SetRunning" if "u \<noteq> t" "pc t = T_SetRunning" for u
    using that unfolding task_inv_def by (metis in_run_simps(2,3))
  have inv': "task_inv s' (pc(t := k))" by (rule task_act_inv [OF inv assms(2)])
  from task_act_move [OF assms(2) task_inv_free [OF inv]] show ?thesis
    by cases (use assms(1) alone inv' in \<open>auto simp: bodies_ok_def\<close>)
qed

interpretation task_bodies: machine_invariant "task_machine rerun" "\<lambda>c. c = task_start" bodies_ok for rerun
proof (unfold_locales, goal_cases)
  case (1 s pc)
  then have "s = fst task_start" "pc = snd task_start" by (auto simp: prod_eq_iff)
  then show ?case using task_inv_start by (simp add: bodies_ok_def) (simp add: task_start_def)
next
  case (3 s pc t)
  then show ?case by (simp add: bodies_ok_def task_machine_def task_unwait_inv)
qed (auto simp: task_machine_def intro: bodies_act)

text \<open>
  C4: the pool starts the body of a task at most as often as it has taken the task from the queue, hence
  at most once when clients add no object twice; and never the body of a task that was not added.
\<close>

theorem pool_starts_body_once:
  assumes "pool_task_reachable True c m s pc"
  shows "count_list (pk_bodies s) i \<le> count_list (popped_ids s) i \<and> count_list (popped_ids s) i \<le> 1 \<and>
    (i \<in> set (pk_bodies s) \<longrightarrow> i \<in> set (pk_added s))"
proof -
  have "bodies_ok (task_of i s) (task_view i \<circ> pc)"
    by (rule task_bodies.reachable_inv [OF task_reachable [OF assms]])
  then have le: "count_list (pk_bodies s) i \<le> count_list (popped_ids s) i" by (simp add: bodies_ok_def task_of_def)
  from pool_tasks.reachable_inv [OF assms] have "distinct (pushed_ids s)" "set (pushed_ids s) \<subseteq> set (pk_added s)"
    "log_ok (pk_sys s)" by (auto simp: pool_task_inv_def once_ids_def ids_ok_def scaling_inv_def)
  then have "distinct (popped_ids s)" "set (popped_ids s) \<subseteq> set (pk_added s)" by (auto simp: log_ok_def)
  moreover have "i \<in> set (popped_ids s)" if "i \<in> set (pk_bodies s)"
    using that le count_list_0_iff [of "pk_bodies s" i] count_list_0_iff [of "popped_ids s" i] by auto
  ultimately show ?thesis using le distinct_count_list [of "popped_ids s" i] by auto
qed

text \<open>
  C5: cancellation in a pool whose clients add no task object twice (\<open>pool_task_machine True\<close>).  When
  \<open>Cancel\<close> returns the task is over: it was taken from the queue and has stopped, no worker is before or
  inside its body, and in no future does its body start.  (An object that is added twice can be run
  once more after \<open>Cancel\<close> returned.)
\<close>

theorem pool_Cancel_returns_stopped:
  assumes "pool_task_reachable True c m s pc" and "pc t = InCancel i T_CancelReturned d"
    and "reachable (pool_task_machine True) (\<lambda>cfg. cfg = (s, pc)) (s', pc')"
  shows "TaskBase_IsStopState (pk_tasks s ! i) \<and> i \<in> set (popped_ids s) \<and>
    (\<forall>u r. pc u = InRun i r \<longrightarrow> r = T_Notify \<or> r = T_RunDone \<or> r = T_RunThrew) \<and>
    count_list (pk_bodies s') i = count_list (pk_bodies s) i"
proof -
  have inv: "pool_task_inv True c m s pc" by (rule pool_tasks.reachable_inv [OF assms(1)])
  then have at: "at_task True s u (pc u)" for u by (simp add: pool_task_inv_def)
  with assms(2) have i: "i < length (pk_tasks s)" by (metis at_task.simps(3))
  note one = task_reachable [OF assms(1), of i]
  have t: "(task_view i \<circ> pc) t = T_CancelReturned" using assms(2) by simp
  from Cancel_returns_stopped [OF one t] i have stop: "TaskBase_IsStopState (pk_tasks s ! i)"
    and none: "\<And>u. (task_view i \<circ> pc) u \<notin> {T_RunCheck, T_SetRunning, T_Body, T_SetFinished, T_SetCancelled}"
    by (auto simp: task_of_def)
  from once.reachable_inv [OF one] have "never_run (task_of i s)" and oks: "task_inv (task_of i s) (task_view i \<circ> pc)"
    by (auto simp: once_inv_def)
  with stop i have ran: "i \<in> set (popped_ids s)"
    by (auto simp: never_run_def task_of_def TaskBase_IsStopState_def count_list_0_iff)
  have over: "r = T_Notify \<or> r = T_RunDone \<or> r = T_RunThrew" if "pc u = InRun i r" for u r
    using none [of u] at [of u] that by (cases r) auto
  have "cancel_pending (ts_bodies (task_of i s)) (task_of i s) (task_view i \<circ> pc)"
    using oks none t unfolding cancel_pending_def task_inv_def pc_state_ok_def by (metis insertCI)
  then have "reachable (task_machine False) (\<lambda>c. c = (task_of i s, task_view i \<circ> pc) \<and>
      cancel_pending (ts_bodies (task_of i s)) (task_of i s) (task_view i \<circ> pc)) (task_of i s', task_view i \<circ> pc')"
    using to_task.proj_future [OF assms(1,3), of i] by simp
  from machine_invariant.reachable_inv [OF cancel_pending_future this]
  have "count_list (pk_bodies s') i = count_list (pk_bodies s) i" by (simp add: cancel_pending_def task_of_def)
  with stop ran over show ?thesis by blast
qed

text \<open>
  C32: no wake-up of \<open>Cancel\<close> is lost in a pool whose clients add no task object twice: when a task has
  stopped and no worker has still to notify for it, a client that waits in \<open>Cancel\<close> is awake and returns
  with its next action.
\<close>

theorem pool_Cancel_progress:
  assumes "pool_task_reachable True c m s pc" and "TaskBase_IsStopState (pk_tasks s ! i)"
    and "\<forall>u. pc u \<noteq> InRun i T_Notify" and "pc t = InCancel i T_CancelWait d"
  shows "mstep (pool_task_machine True) (Act t (TaskEv E_Step)) (s, pc) = Some (s, pc(t := InCancel i T_CancelReturned d))"
proof -
  have inv: "pool_task_inv True c m s pc" by (rule pool_tasks.reachable_inv [OF assms(1)])
  then have "at_task True s t (pc t)" and conds: "conds_ok s pc" by (auto simp: pool_task_inv_def)
  with assms(4) have i: "i < length (pk_tasks s)" and d: "ready_client d" by auto
  have "(task_view i \<circ> pc) u \<noteq> T_Notify" for u
    using assms(3) inv [unfolded pool_task_inv_def] by (cases "pc u") (auto dest: spec [of _ u])
  then have empty: "m_cond (tb_cancelCondition (pk_tasks s ! i)) = []"
    using task.no_waiter_left [OF task_reachable [OF assms(1), of i]] assms(2) i by (simp add: task_of_def)
  have "awake s t" unfolding awake_def
  proof (intro allI impI notI)
    fix j assume j: "j < length (pk_tasks s)" "t \<in> set (m_cond (tb_cancelCondition (pk_tasks s ! j)))"
    with conds obtain d' where "pc t = InCancel j T_CancelWait d'" unfolding conds_ok_def by blast
    with assms(4) j(2) empty show False by simp
  qed
  moreover have "\<not> scaling_waiting (pk_sys s) t"
    using scaling_sleep.reachable_inv [OF pool_reachable [OF assms(1)]] assms(4) d
    by (auto simp: sleepers_ok_def scaling_waiting_def state_cond_def queue_cond_def sync ready_client_def)
  moreover have "cv_free (tb_cancelCondition (pk_tasks s ! i))" using conds i by (simp add: conds_ok_def)
  ultimately show ?thesis
    using assms(2,4) by (simp add: pool_task_waiting pool_task_act_def in_cancel_act_def sync del: mstep.simps add: mstep.simps(1))
qed

section \<open>Tasks that a shutdown leaves behind\<close>

text \<open>
  \<open>ShutDown\<close> lets every worker leave its loop after the task it is at, whatever is still queued.
  \<open>stranded\<close>: the fixed pool is SHUTDOWN and task \<open>i\<close> has not stopped.
\<close>

definition stranded :: "nat \<Rightarrow> nat \<Rightarrow> task_state \<Rightarrow> pool_tasks \<Rightarrow> (tid \<Rightarrow> pool_task_pc) \<Rightarrow> bool" where
  "stranded n i st s pc \<longleftrightarrow> pool_task_inv True n n s pc \<and> fixed_inv n (pk_sys s) (pool_view \<circ> pc) \<and>
     sl_state (sy_pool (pk_sys s)) = Scaling_SHUTDOWN \<and> i < length (pk_tasks s) \<and> tb_state (pk_tasks s ! i) = st \<and>
     st \<noteq> Task_FINISHED \<and> st \<noteq> Task_CANCELLED \<and> (\<forall>t d. pc t \<noteq> InCancel i T_CancelReturned d)"

lemma stranded_at_rest:
  assumes "stranded n i st s pc" and "pc t = InRun j r"
  shows "r = T_RunThrew"
proof (rule ccontr)
  assume r: "r \<noteq> T_RunThrew"
  from assms(1) have "fixed_inv n (pk_sys s) (pool_view \<circ> pc)" "sl_state (sy_pool (pk_sys s)) = Scaling_SHUTDOWN"
    "scaling_inv n n (pk_sys s) (pool_view \<circ> pc)" by (auto simp: stranded_def pool_task_inv_def)
  with shut_counted [of n "pk_sys s" "pool_view \<circ> pc" t] runner_spawned [of n n "pk_sys s" pc t j r] assms(2) r
  show False by (auto simp: counted_def)
qed

lemma stranded_act:
  assumes str: "stranded n i st s pc" and awake: "awake s t" and act: "pool_task_act True e t (pc t) s = Some (k, s')"
  shows "stranded n i st s' (pc(t := k))"
proof -
  from str have inv: "pool_task_inv True n n s pc" and fixed: "fixed_inv n (pk_sys s) (pool_view \<circ> pc)"
    and shut: "sl_state (sy_pool (pk_sys s)) = Scaling_SHUTDOWN" and i: "i < length (pk_tasks s)"
    and st: "tb_state (pk_tasks s ! i) = st" "st \<noteq> Task_FINISHED" "st \<noteq> Task_CANCELLED"
    and no: "\<And>t d. pc t \<noteq> InCancel i T_CancelReturned d" by (auto simp: stranded_def)
  have inv': "pool_task_inv True n n s' (pc(t := k))" by (rule pool_task_act_inv [OF inv awake act])
  have quiet: ?thesis if "pk_sys s' = pk_sys s" "pool_view k = pool_view (pc t)" "i < length (pk_tasks s')"
    "tb_state (pk_tasks s' ! i) = st" "\<forall>d. k \<noteq> InCancel i T_CancelReturned d"
  proof -
    have "pool_view \<circ> pc(t := k) = pool_view \<circ> pc" using that(2) by auto
    then show ?thesis using that inv' fixed shut st no by (simp add: stranded_def)
  qed
  from act show ?thesis
  proof (cases rule: pool_task_who)
    case (pool e' b b' sys)
    have act': "scaling_act e' t ((pool_view \<circ> pc) t) (pk_sys s) = Some (b', sys)" using pool by simp
    have "fixed_inv n sys ((pool_view \<circ> pc)(t := b'))" using fixed_act_inv [OF fixed, of e' t b' sys] act' by simp
    moreover have "sl_state (sy_pool sys) = Scaling_SHUTDOWN" using shut_act [OF fixed shut act'] by simp
    ultimately show ?thesis using pool inv' i st no by (auto simp: stranded_def nth_append enter_def)
  next
    case (makes d)
    with i st show ?thesis by (intro quiet) (auto simp: nth_append)
  next
    case (cancel j d)
    with i st show ?thesis by (intro quiet) (auto simp: nth_list_update)
  next
    case (run j r te r' tb)
    with stranded_at_rest [OF str run(1)] show ?thesis by (auto dest: Run_in_run)
  next
    case (threw j sys)
    with stranded_at_rest [OF str threw(1)] show ?thesis by simp
  next
    case (finished j m sp sys)
    with stranded_at_rest [OF str finished(1)] show ?thesis by simp
  next
    case (waits j r te r' tb d)
    from inv have "at_task True s t (pc t)" "conds_ok s pc" by (auto simp: pool_task_inv_def)
    with waits(1,2) have j: "r = T_CancelWait" "cv_free (tb_cancelCondition (pk_tasks s ! j))" by (auto simp: conds_ok_def)
    show ?thesis
    proof (cases "j = i")
      case True
      with waits(3) j st have "te = E_Step" "r' = T_CancelWait" "tb_state tb = st"
        by (cases te; auto simp: sync TaskBase_IsStopState_def)+
      with waits True i show ?thesis by (intro quiet) auto
    qed (use waits i st in \<open>intro quiet; auto\<close>)
  next
    case (leaves j d)
    with i st show ?thesis by (intro quiet) auto
  qed
qed

lemma stranded_future:
  "machine_invariant (pool_task_machine True) (\<lambda>cfg. cfg = (s0, pc0) \<and> stranded n i st s0 pc0) (stranded n i st)"
proof (unfold_locales, goal_cases)
  case (1 s pc)
  then show ?case by simp
next
  case (2 s pc t e k s')
  then show ?case by (auto simp: pool_task_waiting intro: stranded_act)
next
  case (3 s pc t)
  then have "pool_task_inv True n n (unwait (pool_task_machine True) t s) pc"
    by (intro pool_tasks.wakeup_inv) (auto simp: stranded_def)
  with 3 show ?case
    by (auto simp: stranded_def task_unwait_def fixed_unwait_inv) (simp add: scaling_unwait_def)
next
  case (4 s pc t k)
  then have inv: "pool_task_inv True n n s pc" and fixed: "fixed_inv n (pk_sys s) (pool_view \<circ> pc)" by (auto simp: stranded_def)
  from 4(3) obtain b b' where b: "pc t = InPool b" "k = InPool b'" "scaling_expire b = Some b'" by (cases "pc t") auto
  have "fixed_inv n (scaling_unwait t (pk_sys s)) ((pool_view \<circ> pc)(t := b'))"
    using fixed_timeout_inv [OF fixed, of t b'] b by simp
  with 4 b pool_tasks.timeout_inv [OF inv 4(2,3)] show ?case
    by (auto simp: stranded_def task_unwait_def) (simp add: scaling_unwait_def)
qed

text \<open>
  C37: \<open>Cancel\<close> on a task that the shutdown left behind waits for ever, in a fixed pool whose clients add
  no task object twice.  Once the pool is SHUTDOWN, a task that has not stopped (it is still queued, was
  never added, or its body threw) keeps its state in every future, and no call of \<open>Cancel\<close> on it
  returns, whether it was made before or is made later.
\<close>

theorem shutdown_strands_tasks:
  assumes "pool_task_reachable True n n s pc" and "sl_state (sy_pool (pk_sys s)) = Scaling_SHUTDOWN"
    and "i < length (pk_tasks s)" and "\<not> TaskBase_IsStopState (pk_tasks s ! i)"
    and "reachable (pool_task_machine True) (\<lambda>cfg. cfg = (s, pc)) (s', pc')"
  shows "tb_state (pk_tasks s' ! i) = tb_state (pk_tasks s ! i) \<and> (\<forall>t d. pc' t \<noteq> InCancel i T_CancelReturned d)"
proof -
  have "pc t \<noteq> InCancel i T_CancelReturned d" for t d
  proof
    assume "pc t = InCancel i T_CancelReturned d"
    then have "(task_view i \<circ> pc) t = T_CancelReturned" by simp
    with once.reachable_inv [OF task_reachable [OF assms(1), of i]] have "TaskBase_IsStopState (ts_task (task_of i s))"
      unfolding once_inv_def once_ok_def by metis
    with assms(3,4) show False by (simp add: task_of_def)
  qed
  with pool_tasks.reachable_inv [OF assms(1)] fixed_size.reachable_inv [OF pool_reachable [OF assms(1)]] assms(2-4)
  have "stranded n i (tb_state (pk_tasks s ! i)) s pc" by (simp add: stranded_def TaskBase_IsStopState_def)
  then have "reachable (pool_task_machine True)
      (\<lambda>cfg. cfg = (s, pc) \<and> stranded n i (tb_state (pk_tasks s ! i)) s pc) (s', pc')" using assms(5) by simp
  from machine_invariant.reachable_inv [OF stranded_future this] show ?thesis by (simp add: stranded_def)
qed

section \<open>Witnesses\<close>

abbreviation P :: "tid \<Rightarrow> pool_task_ev label" where
  "P t \<equiv> Act t (PoolEv (L_Step 0 False))"

abbreviation T :: "tid \<Rightarrow> task_ev \<Rightarrow> pool_task_ev label" where
  "T t e \<equiv> Act t (TaskEv e)"

text \<open>A pool of one worker; client 2 adds a task, the worker is inside its body, client 4 cancels it.\<close>

definition cancelled_run :: "pool_task_ev label list" where
  "cancelled_run = [Act 2 (PoolEv (CallAddFunctor 0)), P 2, P 2, P 2, P 1, P 1, P 1, P 1, T 1 E_Step, T 1 E_Step,
     Act 4 (CallCancel 0), T 4 E_Step, T 1 E_BodyReturn, T 1 E_Step, T 1 E_Step]"

lemma cancelled_run_check:
  "run_check (pool_task_machine True) cancelled_run (pool_task_start 1 1)
     (\<lambda>s pc. pc 1 = InRun 0 T_RunDone \<and> pc 4 = InCancel 0 T_CancelWait U_Idle \<and> TaskBase_IsStopState (pk_tasks s ! 0) \<and>
       pc 2 = InPool (Client (U_Added True)) \<and> pk_bodies s = [0])"
  by code_simp

lemma pool_task_run:
  assumes "run_check (pool_task_machine once) ls (pool_task_start c m) Q"
  shows "\<exists>s pc. pool_task_reachable once c m s pc \<and> Q s pc"
  by (rule run_check_reachable [OF assms]) (simp add: pool_task_init_def)

lemma cancelled_run_reaches:
  obtains s pc where "pool_task_reachable True 1 1 s pc" "pc 1 = InRun 0 T_RunDone" "pc 4 = InCancel 0 T_CancelWait U_Idle"
    "TaskBase_IsStopState (pk_tasks s ! 0)" "pk_bodies s = [0]" "\<forall>u i. pc u \<noteq> InRun i T_Notify"
proof -
  obtain s0 pc0 where start: "pool_task_start 1 1 = (s0, pc0)" by fastforce
  have check: "run_check (pool_task_machine True) cancelled_run (s0, pc0)
     (\<lambda>s pc. pc 1 = InRun 0 T_RunDone \<and> pc 4 = InCancel 0 T_CancelWait U_Idle \<and> TaskBase_IsStopState (pk_tasks s ! 0) \<and>
       pc 2 = InPool (Client (U_Added True)) \<and> pk_bodies s = [0])"
    using cancelled_run_check by (simp only: start)
  from start have "pool_task_init 1 1 (s0, pc0)" by (simp add: pool_task_init_def)
  from run_check_reachable_frame [where init = "pool_task_init 1 1", OF check this] obtain s pc where
    r: "pool_task_reachable True 1 1 s pc" "pc 1 = InRun 0 T_RunDone" "pc 4 = InCancel 0 T_CancelWait U_Idle"
      "TaskBase_IsStopState (pk_tasks s ! 0)" "pc 2 = InPool (Client (U_Added True))" "pk_bodies s = [0]"
      "\<forall>t. t \<notin> label_tid ` set cancelled_run \<longrightarrow> pc t = pc0 t" by blast
  have "pc u \<noteq> InRun i T_Notify" for u i
  proof (cases "u \<in> label_tid ` set cancelled_run")
    case True
    then have "u = 1 \<or> u = 2 \<or> u = 4" by (auto simp: cancelled_run_def)
    with r show ?thesis by auto
  next
    case False
    with r(7) have "pc u = pc0 u" by blast
    with start show ?thesis by (auto simp: pool_task_start_def)
  qed
  with r that show ?thesis by blast
qed

theorem pool_tasks_refine_parts_witness:
  "\<exists>s pc. pool_task_reachable True 1 1 s pc \<and> pc 4 = InCancel 0 T_CancelWait U_Idle \<and>
     scaling_reachable 1 1 (pk_sys s) (pool_view \<circ> pc) \<and>
     reachable (task_machine False) (\<lambda>c. c = task_start) (task_of 0 s, task_view 0 \<circ> pc)"
proof -
  obtain s pc where r: "pool_task_reachable True 1 1 s pc" "pc 4 = InCancel 0 T_CancelWait U_Idle" by (rule cancelled_run_reaches)
  with pool_tasks_refine_parts [OF r(1)] show ?thesis by blast
qed

theorem pool_tasks_well_typed_witness:
  "\<exists>s pc. pool_task_reachable True 1 1 s pc \<and> pc 1 = InRun 0 T_RunDone \<and> 1 \<in> set (sy_spawned (pk_sys s)) \<and>
     wt_runningTask (sl_workers (sy_pool (pk_sys s)) 1) = Some (FunctorTask 0)"
proof -
  obtain s pc where r: "pool_task_reachable True 1 1 s pc" "pc 1 = InRun 0 T_RunDone" by (rule cancelled_run_reaches)
  with pool_tasks_well_typed [OF r(1), of 1] show ?thesis by (intro exI [of _ s] exI [of _ pc]) simp
qed

theorem pool_starts_body_once_witness:
  "\<exists>s pc. pool_task_reachable True 1 1 s pc \<and> count_list (pk_bodies s) 0 = 1 \<and> count_list (popped_ids s) 0 = 1 \<and>
     0 \<in> set (pk_added s)"
proof -
  obtain s pc where r: "pool_task_reachable True 1 1 s pc" "pk_bodies s = [0]" by (rule cancelled_run_reaches)
  with pool_starts_body_once [OF r(1), of 0] show ?thesis by (intro exI [of _ s] exI [of _ pc]) simp
qed

theorem pool_Cancel_progress_witness:
  "\<exists>s pc. pool_task_reachable True 1 1 s pc \<and>
     mstep (pool_task_machine True) (Act 4 (TaskEv E_Step)) (s, pc) = Some (s, pc(4 := InCancel 0 T_CancelReturned U_Idle))"
proof -
  obtain s pc where "pool_task_reachable True 1 1 s pc" "TaskBase_IsStopState (pk_tasks s ! 0)"
    "pc 4 = InCancel 0 T_CancelWait U_Idle" "\<forall>u i. pc u \<noteq> InRun i T_Notify" by (rule cancelled_run_reaches)
  with pool_Cancel_progress [of 1 1 s pc 0 4 U_Idle] show ?thesis by blast
qed

theorem pool_Cancel_returns_stopped_witness:
  "\<exists>s pc. pool_task_reachable True 1 1 s pc \<and> pc 4 = InCancel 0 T_CancelReturned U_Idle \<and>
     TaskBase_IsStopState (pk_tasks s ! 0) \<and> 0 \<in> set (popped_ids s)"
proof -
  have "run_check (pool_task_machine True) (cancelled_run @ [T 4 E_Step]) (pool_task_start 1 1)
      (\<lambda>s pc. pc 4 = InCancel 0 T_CancelReturned U_Idle)"
    by code_simp
  from pool_task_run [OF this] obtain s pc where
    r: "pool_task_reachable True 1 1 s pc" "pc 4 = InCancel 0 T_CancelReturned U_Idle" by blast
  with pool_Cancel_returns_stopped [OF r reachable.reach_init] show ?thesis by blast
qed

text \<open>
  Client 2 adds a task and shuts the pool down before the worker has looked at the queue; client 4 then
  cancels the task.
\<close>

definition stranded_run :: "pool_task_ev label list" where
  "stranded_run = [Act 2 (PoolEv (CallAddFunctor 0)), P 2, P 2, P 2, Act 2 (PoolEv (CallShut False)), P 2, P 2, P 2, P 2, P 2,
     P 2, P 2, P 2, P 2, P 2, P 1, P 1, P 1, P 1, P 1, P 1, Act 4 (CallCancel 0), T 4 E_Step]"

theorem shutdown_strands_tasks_witness:
  "\<exists>s pc. pool_task_reachable True 1 1 s pc \<and> pc 2 = InPool (Client (U_ShutReturned False)) \<and> 0 \<in> set (pk_added s) \<and>
     pc 4 = InCancel 0 T_CancelWait U_Idle \<and> tb_state (pk_tasks s ! 0) = Task_INIT \<and>
     (\<forall>s' pc'. reachable (pool_task_machine True) (\<lambda>cfg. cfg = (s, pc)) (s', pc') \<longrightarrow>
        tb_state (pk_tasks s' ! 0) = Task_INIT \<and> (\<forall>t d. pc' t \<noteq> InCancel 0 T_CancelReturned d))"
proof -
  have "run_check (pool_task_machine True) stranded_run (pool_task_start 1 1)
      (\<lambda>s pc. pc 2 = InPool (Client (U_ShutReturned False)) \<and> pk_added s = [0] \<and> pc 4 = InCancel 0 T_CancelWait U_Idle \<and>
        sl_state (sy_pool (pk_sys s)) = Scaling_SHUTDOWN \<and> length (pk_tasks s) = 1 \<and> tb_state (pk_tasks s ! 0) = Task_INIT)"
    by code_simp
  from pool_task_run [OF this] obtain s pc where
    r: "pool_task_reachable True 1 1 s pc" "pc 2 = InPool (Client (U_ShutReturned False))" "pk_added s = [0]"
      "pc 4 = InCancel 0 T_CancelWait U_Idle" "sl_state (sy_pool (pk_sys s)) = Scaling_SHUTDOWN"
      "length (pk_tasks s) = 1" "tb_state (pk_tasks s ! 0) = Task_INIT" by blast
  from r(6,7) have i: "0 < length (pk_tasks s)" "\<not> TaskBase_IsStopState (pk_tasks s ! 0)" by (simp_all add: TaskBase_IsStopState_def)
  have "0 \<in> set (pk_added s)" using r(3) by simp
  with shutdown_strands_tasks [OF r(1,5) i] r show ?thesis
    by (intro exI [of _ s] exI [of _ pc] conjI allI impI) simp_all
qed

end
