(* ===== verification/Joining.thy ===== *)
theory Joining
  imports CloseableThread
begin

text \<open>
  What the destructors of the library wait for: \<open>Thread::~Thread\<close> joins, and \<open>~CloseableThread\<close> and the
  owners of closeable threads destroy their threads.  The locale \<open>draining\<close> is the argument that such a
  wait ends: the joined threads make a bounded number of actions, and until the last has ended one of them
  can act.
\<close>

section \<open>Destroying threads\<close>

text \<open>\<open>returned t\<close> says whether the thread function of \<open>t\<close> has returned: the join blocks until then.\<close>

definition join_thread :: "(tid \<Rightarrow> bool) \<Rightarrow> tid \<Rightarrow> thread option" where
  "join_thread returned t = Thread_dtor (returned t) \<lparr>th_threadId = int t, th_isStart = True\<rparr>"

text \<open>\<open>~CloseableThread\<close> has an empty body; its member \<open>m_thread\<close> is destroyed.\<close>

definition CloseableThread_dtor :: "(tid \<Rightarrow> bool) \<Rightarrow> tid \<Rightarrow> unit option" where
  "CloseableThread_dtor returned t = map_option (\<lambda>_. ()) (join_thread returned t)"

lemma CloseableThread_dtor_iff: "CloseableThread_dtor returned t = (if returned t then Some () else None)"
  by (simp add: CloseableThread_dtor_def join_thread_def Thread_dtor_def)

section \<open>Threads that come to their end\<close>

locale draining =
  fixes M :: "('s, 'k, 'e) machine"
    and ok :: "'s \<Rightarrow> (tid \<Rightarrow> 'k) \<Rightarrow> bool"
    and member :: "tid \<Rightarrow> bool"
    and rank :: "'s \<Rightarrow> (tid \<Rightarrow> 'k) \<Rightarrow> nat"
    and joined :: "'s \<Rightarrow> (tid \<Rightarrow> 'k) \<Rightarrow> bool"
  assumes member_step: "ok s pc \<Longrightarrow> member (label_tid l) \<Longrightarrow> mstep M l (s, pc) = Some (s', pc') \<Longrightarrow>
        ok s' pc' \<and> rank s' pc' < rank s pc"
    and member_enabled: "ok s pc \<Longrightarrow> \<not> joined s pc \<Longrightarrow> \<exists>t e. member t \<and> mstep M (Act t e) (s, pc) \<noteq> None"
begin

lemma runs_bounded:
  assumes "ok s pc" and "mrun M ls (s, pc) = Some (s', pc')" and "\<forall>l \<in> set ls. member (label_tid l)"
  shows "ok s' pc' \<and> length ls + rank s' pc' \<le> rank s pc"
  using assms
proof (induction ls arbitrary: s pc)
  case (Cons l ls)
  then obtain s1 pc1 where l: "mstep M l (s, pc) = Some (s1, pc1)" "mrun M ls (s1, pc1) = Some (s', pc')"
    by (auto split: option.splits)
  with member_step [OF Cons.prems(1) _ l(1)] Cons.IH [OF _ l(2)] Cons.prems(3) show ?case by fastforce
qed simp

lemma drains:
  assumes "ok s pc"
  shows "\<exists>ls s' pc'. (\<forall>l \<in> set ls. member (label_tid l)) \<and> mrun M ls (s, pc) = Some (s', pc') \<and> joined s' pc'"
  using assms
proof (induction "rank s pc" arbitrary: s pc rule: less_induct)
  case less
  show ?case
  proof (cases "joined s pc")
    case True
    then show ?thesis by (intro exI [of _ "[]"] exI [of _ s] exI [of _ pc]) simp
  next
    case False
    then obtain t e s1 pc1 where l: "member t" "mstep M (Act t e) (s, pc) = Some (s1, pc1)"
      using member_enabled [OF less.prems] by fast
    then have "ok s1 pc1" "rank s1 pc1 < rank s pc" using member_step [OF less.prems, of "Act t e"] by auto
    with less.hyps obtain ls s' pc' where "\<forall>l \<in> set ls. member (label_tid l)" "mrun M ls (s1, pc1) = Some (s', pc')" "joined s' pc'"
      by blast
    with l show ?thesis
      by (intro exI [of _ "Act t e # ls"] exI [of _ s'] exI [of _ pc']) (simp del: mstep.simps)
  qed
qed

text \<open>Every run of the threads is bounded and can be continued to the end of all of them.\<close>

lemma terminates:
  assumes "ok s pc" and "mrun M ls (s, pc) = Some (s', pc')" and "\<forall>l \<in> set ls. member (label_tid l)"
  shows "length ls \<le> rank s pc \<and> (joined s' pc' \<or> (\<exists>t e. member t \<and> mstep M (Act t e) (s', pc') \<noteq> None)) \<and>
    (\<exists>ls'. (\<forall>l \<in> set ls'. member (label_tid l)) \<and> run_check M ls' (s', pc') joined)"
proof -
  from runs_bounded [OF assms] have r: "ok s' pc'" "length ls \<le> rank s pc" by auto
  obtain ls' s2 pc2 where "\<forall>l \<in> set ls'. member (label_tid l)" "mrun M ls' (s', pc') = Some (s2, pc2)" "joined s2 pc2"
    using drains [OF r(1)] by blast
  then have "\<exists>ls'. (\<forall>l \<in> set ls'. member (label_tid l)) \<and> run_check M ls' (s', pc') joined"
    by (intro exI [of _ ls']) (simp add: run_check_def)
  with r member_enabled [OF r(1)] show ?thesis by blast
qed

end

end
