(* ===== verification/PoolDestructor.thy ===== *)
theory PoolDestructor
  imports FixedThreadPool Joining
begin

text \<open>
  The end of a pool: \<open>ScalingThreadPool::~ScalingThreadPool\<close> and \<open>FixedThreadPool::~FixedThreadPool\<close>.
  The body of the destructor is \<open>ShutDownNow\<close>; the members are then destroyed in the reverse order of
  their declaration, which joins the monitor and then every worker.  The theory shows that these joins
  return, and when they do not.
\<close>

section \<open>The destructor\<close>

text \<open>\<open>~WorkerThread\<close> has an empty body; its member \<open>m_thread\<close> is destroyed first.\<close>

definition WorkerThread_dtor :: "(tid \<Rightarrow> bool) \<Rightarrow> tid \<Rightarrow> 'f worker_thread \<Rightarrow> 'f worker_thread option" where
  "WorkerThread_dtor returned t w =
     do { _ \<leftarrow> CloseableThread_dtor returned t; Some (w\<lparr>wt_runningTask := None\<rparr>) }"

text \<open>The destruction of \<open>m_threads\<close>, whose values are the workers.\<close>

fun join_all :: "(tid \<Rightarrow> bool) \<Rightarrow> (tid \<Rightarrow> 'f worker_thread) \<Rightarrow> tid list \<Rightarrow> unit option" where
  "join_all returned workers [] = Some ()"
| "join_all returned workers (t # ts) =
     do { _ \<leftarrow> WorkerThread_dtor returned t (workers t); join_all returned workers ts }"

text \<open>What is left to do when \<open>ShutDownNow\<close> has returned: \<open>m_monitorThread\<close>, then \<open>m_threads\<close>.\<close>

definition ScalingThreadPool_dtor :: "(tid \<Rightarrow> bool) \<Rightarrow> 'f scaling_pool \<Rightarrow> 'f scaling_pool option" where
  "ScalingThreadPool_dtor returned p =
     do { _ \<leftarrow> CloseableThread_dtor returned 0;
          _ \<leftarrow> join_all returned (sl_workers p) (sl_threads p);
          Some (p\<lparr>sl_subWorkerThreadId := [], sl_threads := []\<rparr>) }"

text \<open>\<open>~FixedThreadPool\<close> destroys its scaling pool.\<close>

definition FixedThreadPool_dtor :: "(tid \<Rightarrow> bool) \<Rightarrow> 'f fixed_pool \<Rightarrow> 'f fixed_pool option" where
  "FixedThreadPool_dtor returned p = ScalingThreadPool_dtor returned p"

lemma join_all_iff: "join_all returned workers ts = (if \<forall>t \<in> set ts. returned t then Some () else None)"
  by (induction ts) (auto simp: WorkerThread_dtor_def CloseableThread_dtor_iff)

lemma dtor_iff: "FixedThreadPool_dtor returned p \<noteq> None \<longleftrightarrow> returned 0 \<and> (\<forall>t \<in> set (sl_threads p). returned t)"
  by (auto simp: FixedThreadPool_dtor_def ScalingThreadPool_dtor_def CloseableThread_dtor_iff join_all_iff)

text \<open>The threads of the pool, and which of them have returned.\<close>

definition pool_thread :: "tid \<Rightarrow> bool" where
  "pool_thread t \<longleftrightarrow> t = 0 \<or> odd t"

definition ended :: "'f scaling_pc \<Rightarrow> bool" where
  "ended k \<longleftrightarrow> k \<in> {Monitor M_Done, Worker W_Done, Worker W_Threw}"

section \<open>A monitor that was closed does not sleep\<close>

text \<open>
  After the close request, a monitor that is still at its wait finds the number 0 in
  \<open>m_subWorkerThreadId\<close>, or the closing client is about to push it.
\<close>

definition monitor_close_ok :: "'f scaling_sys \<Rightarrow> (tid \<Rightarrow> 'f scaling_pc) \<Rightarrow> bool" where
  "monitor_close_ok s pc \<longleftrightarrow> (ct_isRequestClose (sl_monitorThread (sy_pool s)) \<and> pc 0 = Monitor M_Wait \<longrightarrow>
     0 \<in> set (sl_subWorkerThreadId (sy_pool s)) \<or> (\<exists>t b. pc t = Client (U_PushSub0 b)))"

lemma closed_moves:
  "monitor_move t s k k' s' \<Longrightarrow> ct_isRequestClose (sl_monitorThread (sy_pool s')) = ct_isRequestClose (sl_monitorThread (sy_pool s))"
  "worker_move n t s w w' s' \<Longrightarrow> ct_isRequestClose (sl_monitorThread (sy_pool s')) = ct_isRequestClose (sl_monitorThread (sy_pool s)) \<and>
     set (sl_subWorkerThreadId (sy_pool s)) \<subseteq> set (sl_subWorkerThreadId (sy_pool s'))"
  "client_move n t s c c' s' \<Longrightarrow> (ct_isRequestClose (sl_monitorThread (sy_pool s')) = ct_isRequestClose (sl_monitorThread (sy_pool s)) \<or>
      (\<exists>b. c = U_CloseMonitor b \<and> c' = U_PushSub0 b)) \<and>
     set (sl_subWorkerThreadId (sy_pool s)) \<subseteq> set (sl_subWorkerThreadId (sy_pool s')) \<and>
     ((\<exists>b. c = U_PushSub0 b) \<longrightarrow> 0 \<in> set (sl_subWorkerThreadId (sy_pool s')))"
  by (erule monitor_move.cases worker_move.cases client_move.cases; auto simp: ready_client_def)+

lemma monitor_to_wait:
  assumes "scaling_act e t (Monitor w) s = Some (Monitor M_Wait, s')" and "w \<noteq> M_Wait"
  shows "\<not> ct_isRequestClose (sl_monitorThread (sy_pool s'))"
  using assms
  by (cases w) (auto simp: scaling_act_def monitor_act_def monitor_check_def CheckIsRequestClose_def Let_def
      split: scaling_ev.splits if_splits list.splits option.splits bind_splits sum.splits)

lemma wait_same:
  assumes "monitor_move t s M_Wait M_Wait s'"
  shows "sl_subWorkerThreadId (sy_pool s') = sl_subWorkerThreadId (sy_pool s)"
  using assms by cases auto

lemma monitor_close_act:
  assumes inv: "scaling_inv c m s pc" and ok: "monitor_close_ok s pc" and act: "scaling_act e t (pc t) s = Some (k, s')"
  shows "monitor_close_ok s' (pc(t := k))"
proof -
  from inv have ready: "pool_ready (sy_pool s)" and role: "role_ok t (pc t)" by (auto simp: scaling_inv_def pcs_ok_def)
  from act ready show ?thesis
  proof (cases rule: scaling_who)
    case (monitor w w')
    then have t: "t = 0" using role by (simp add: role_ok_def)
    show ?thesis
    proof (cases "w' = M_Wait \<and> w = M_Wait")
      case True
      then show ?thesis
        using ok wait_same monitor closed_moves(1) [OF monitor(3)] t
        unfolding monitor_close_ok_def by (metis fun_upd_apply)
    next
      case False
      then show ?thesis using monitor_to_wait [of e t w s s'] act monitor t by (auto simp: monitor_close_ok_def)
    qed
  next
    case (worker n w w')
    then have "pc 0 = (pc(t := k)) 0 \<or> k \<noteq> Monitor M_Wait \<and> t = 0" by auto
    with ok worker closed_moves(2) [OF worker(3)] show ?thesis unfolding monitor_close_ok_def
      by (metis (no_types, lifting) fun_upd_apply scaling_pc.distinct(5) subset_iff)
  next
    case (client n d d')
    then show ?thesis using ok closed_moves(3) [OF client(3)] unfolding monitor_close_ok_def
      by (metis (no_types, lifting) client(1,2) fun_upd_apply scaling_pc.distinct(3) scaling_pc.inject(3) subset_iff)
  qed
qed


interpretation scaling_close: machine_invariant scaling_machine "scaling_init c m"
    "\<lambda>s pc. scaling_inv c m s pc \<and> monitor_close_ok s pc" for c m
proof (unfold_locales, goal_cases)
  case (1 s pc)
  then show ?case by (auto simp: scaling.init_inv) (auto simp: scaling_init_def scaling_start_def monitor_close_ok_def)
next
  case (2 s pc t e k s')
  then show ?case using monitor_close_act [of c m s pc e t k s'] scaling_act_inv [of c m s pc e t k s'] by simp
next
  case (3 s pc t)
  then show ?case by (simp add: scaling_unwait_inv) (simp add: monitor_close_ok_def scaling_unwait_def)
next
  case (4 s pc t k)
  then have ex: "scaling_expire (pc t) = Some k" by simp
  then have "k \<noteq> Monitor M_Wait" "\<And>b. pc t \<noteq> Client (U_PushSub0 b)" by (cases "pc t" rule: scaling_expire.cases; auto)+
  then have "monitor_close_ok (scaling_unwait t s) (pc(t := k))"
    using 4(1) unfolding monitor_close_ok_def scaling_unwait_def by (cases "t = 0") (auto, metis)
  with 4 ex scaling_timeout_inv [of c m s pc t k] show ?case by simp
qed

section \<open>The threads of a pool that is being destroyed\<close>

text \<open>
  The situation after \<open>ShutDownNow\<close>: no call is in progress, the shutdown was requested and the monitor was
  asked to close.
\<close>

definition shut_down :: "'f scaling_sys \<Rightarrow> (tid \<Rightarrow> 'f scaling_pc) \<Rightarrow> bool" where
  "shut_down s pc \<longleftrightarrow> sl_isRequestShutDown (sy_pool s) \<and> ct_isRequestClose (sl_monitorThread (sy_pool s)) \<and>
     (\<forall>t c. pc t = Client c \<longrightarrow> ready_client c)"

text \<open>The actions that are left to a closed monitor.\<close>

fun monitor_rank :: "nat \<Rightarrow> monitor_pc \<Rightarrow> nat" where
  "monitor_rank n M_Add = n + 5" | "monitor_rank n (M_Sub ids) = length ids + 4" | "monitor_rank n M_Start = 4"
| "monitor_rank n M_Wait = 4" | "monitor_rank n M_Expired = 4" | "monitor_rank n M_Check0 = 3" | "monitor_rank n M_Check = 3"
| "monitor_rank n M_Inside = 3" | "monitor_rank n M_SetFinished = 2" | "monitor_rank n M_NotifyClosed = 1" | "monitor_rank n M_Done = 0"

definition thread_rank :: "'f scaling_sys \<Rightarrow> 'f scaling_pc \<Rightarrow> nat" where
  "thread_rank s k = (case k of Monitor m \<Rightarrow> monitor_rank (length (sl_subWorkerThreadId (sy_pool s))) m
     | Worker w \<Rightarrow> drain_rank w | Client c \<Rightarrow> 0)"

definition dtor_measure :: "'f scaling_sys \<Rightarrow> (tid \<Rightarrow> 'f scaling_pc) \<Rightarrow> nat" where
  "dtor_measure s pc = 4 * length (sl_queue (sy_pool s)) + thread_rank s (pc 0) + (\<Sum>t \<in> set (sy_spawned s). thread_rank s (pc t))"

lemma monitor_step_down:
  assumes "scaling_act e t (Monitor w) s = Some (Monitor w', s')" and "ct_isRequestClose (sl_monitorThread (sy_pool s))"
    and "pool_ready (sy_pool s)" and "w = M_Wait \<Longrightarrow> wants_monitor (sy_pool s)" and "\<And>ids. w = M_Sub ids \<Longrightarrow> set ids \<subseteq> {0}"
  shows "monitor_rank (length (sl_subWorkerThreadId (sy_pool s'))) w' < monitor_rank (length (sl_subWorkerThreadId (sy_pool s))) w"
  using assms scaling_ops [OF assms(3)]
  by (cases w) (auto simp: scaling_act_def monitor_act_def monitor_check_def CheckIsRequestClose_def Let_def lock_iff pool_readyD
      ScalingThreadPool_ContraryJudgeFunc_def ScalingThreadPool_SubWorkerThread_def CloseableThread_NotifyFinished_notify_def
      split: scaling_ev.splits if_splits list.splits option.splits bind_splits sum.splits)

lemma monitor_can_step:
  assumes "ct_isRequestClose (sl_monitorThread (sy_pool s))" and "pool_ready (sy_pool s)" and "w \<noteq> M_Done"
    and "w = M_Wait \<or> w = M_Expired \<Longrightarrow> cv_free (sy_lock s)" and "w = M_Wait \<Longrightarrow> wants_monitor (sy_pool s)"
    and "\<And>ids. w = M_Sub ids \<Longrightarrow> set ids \<subseteq> {0}" and "0 \<notin> set (sl_threads (sy_pool s))"
  shows "\<exists>r. scaling_act (L_Step n sp) 0 (Monitor w) s = Some r"
  using assms scaling_ops [OF assms(2)]
  by (cases w) (auto simp: scaling_act_def monitor_act_def monitor_check_def CheckIsRequestClose_def Let_def lock_iff pool_readyD sync
      ScalingThreadPool_ContraryJudgeFunc_def ScalingThreadPool_SubWorkerThread_def CloseableThread_NotifyFinished_notify_def
      split: list.splits)

text \<open>Everything that the invariants say about a reachable state that is shut down.\<close>

lemma shut_down_facts:
  assumes "fixed_reachable n s pc" and "shut_down s pc"
  shows "fixed_inv n s pc" "pool_ready (sy_pool s)" "\<And>t. role_ok t (pc t)" "\<And>t. fresh_ok s t (pc t)"
    "\<And>t. holds (pc t) \<longleftrightarrow> owner s = Some t" "\<And>t. \<not> closing (pc t)" "\<And>t. fixed_pc n s (pc t)"
    "pc 0 = Monitor M_Wait \<Longrightarrow> wants_monitor (sy_pool s) \<and> m_cond (sy_lock s) = []"
    "\<And>t. pc t = Worker W_Get \<Longrightarrow> sl_queue (sy_pool s) \<noteq> [] \<and> m_cond (queue_cond s) = []"
    "0 \<notin> set (sl_threads (sy_pool s))" "set (sl_threads (sy_pool s)) = set (sy_spawned s)"
    "length (sl_threads (sy_pool s)) \<le> sl_corePoolSize (sy_pool s)"
proof -
  from fixed_ends.reachable_inv [OF assms(1)] show inv: "fixed_inv n s pc" by simp
  from fixed_ends.reachable_inv [OF assms(1)] have ends: "ends_ok n s pc" by simp
  from inv show ready: "pool_ready (sy_pool s)" and role: "\<And>t. role_ok t (pc t)" and fresh: "\<And>t. fresh_ok s t (pc t)"
    and "\<And>t. holds (pc t) \<longleftrightarrow> owner s = Some t" and fixed: "\<And>t. fixed_pc n s (pc t)"
    and "set (sl_threads (sy_pool s)) = set (sy_spawned s)"
    by (auto simp: fixed_inv_def scaling_inv_def pcs_ok_def lock_ok_def fixed_threads_def)
  from assms(2) have ready_c: "\<And>t c. pc t = Client c \<Longrightarrow> ready_client c" and req: "sl_isRequestShutDown (sy_pool s)"
    and closed: "ct_isRequestClose (sl_monitorThread (sy_pool s))" by (auto simp: shut_down_def)
  show closing: "\<not> closing (pc t)" for t
    using ready_c [of t] by (cases "pc t") (auto dest: ready_free simp: closing_def)
  from inv show "length (sl_threads (sy_pool s)) \<le> sl_corePoolSize (sy_pool s)"
    by (simp add: fixed_inv_def scaling_inv_def size_ok_def fixed_threads_def)
  from inv show "0 \<notin> set (sl_threads (sy_pool s))" by (auto simp: fixed_inv_def fixed_threads_def worker_tid_def)
  have "\<not> notifies_monitor (pc t)" for t
    using ready_c [of t] fixed [of t]
    by (cases "pc t") (auto simp: notifies_monitor_def ready_client_def fixed_pc_def split: client_pc.splits)
  moreover have "0 \<in> set (sl_subWorkerThreadId (sy_pool s))" if "pc 0 = Monitor M_Wait"
    using scaling_close.reachable_inv [OF assms(1)] closed ready_c that by (fastforce simp: monitor_close_ok_def ready_client_def)
  ultimately show "wants_monitor (sy_pool s) \<and> m_cond (sy_lock s) = []" if "pc 0 = Monitor M_Wait"
    using scaling_monitor.reachable_inv [OF assms(1)] that by (auto simp: monitor_wait_ok_def wants_monitor_def)
  show "sl_queue (sy_pool s) \<noteq> [] \<and> m_cond (queue_cond s) = []" if "pc t = Worker W_Get" for t
  proof -
    have "t \<in> set (sy_spawned s)" using fresh [of t] that by (auto simp: fresh_ok_def split: if_splits)
    with end_task_left [OF inv ends req] closing that have "sl_queue (sy_pool s) \<noteq> []" by (simp add: left_loop_def)
    with scaling_queue.no_lost_wakeup [OF assms(1)] show ?thesis by auto
  qed
qed

lemma pool_thread_awake:
  assumes "fixed_reachable n s pc" and "shut_down s pc" and "pool_thread t"
  shows "\<not> scaling_waiting s t"
proof -
  note facts = shut_down_facts [OF assms(1,2)]
  have "pc t \<noteq> Client c" for c using facts(3) [of t] assms(3) by (auto simp: role_ok_def pool_thread_def)
  moreover have "pc t = Monitor M_Wait \<Longrightarrow> t = 0" using facts(3) [of t] by (simp add: role_ok_def)
  ultimately show ?thesis
    using scaling_sleep.reachable_inv [OF assms(1)] facts(8) facts(9) [of t]
    unfolding sleepers_ok_def scaling_waiting_def state_cond_def queue_cond_def cv_waiting_iff by fastforce
qed

lemma pool_thread_step:
  assumes "fixed_reachable n s pc" and "shut_down s pc" and "pool_thread (label_tid l)"
    and "mstep scaling_machine l (s, pc) = Some (s', pc')"
  shows "shut_down s' pc'" "dtor_measure s' pc' < dtor_measure s pc"
proof -
  define t where "t = label_tid l"
  note facts = shut_down_facts [OF assms(1,2)]
  have "\<not> scaling_waiting s t" using pool_thread_awake [OF assms(1-3)] by (simp add: t_def)
  with assms(4) obtain e k where act: "scaling_act e t (pc t) s = Some (k, s')" and pc': "pc' = pc(t := k)"
    by (cases l) (auto simp: t_def split: if_splits option.splits)
  have no_client: "pc t \<noteq> Client c" for c using facts(3) [of t] assms(3) by (auto simp: role_ok_def pool_thread_def t_def)
  have spawned: "sy_spawned s = map worker_tid [0..<n]" using facts(1) by (simp add: fixed_inv_def fixed_threads_def)
  have zero: "0 \<notin> set (sy_spawned s)" using spawned by auto
  have "shut_down s' pc' \<and> dtor_measure s' pc' < dtor_measure s pc"
    using act facts(2)
  proof (cases rule: scaling_who)
    case (monitor w w')
    have t0: "t = 0" using facts(3) [of t] monitor(1) by (simp add: role_ok_def)
    have "\<And>ids. w = M_Sub ids \<Longrightarrow> set ids \<subseteq> {0}" using facts(7) [of 0] monitor(1) t0 by (simp add: fixed_pc_def)
    then have "monitor_rank (length (sl_subWorkerThreadId (sy_pool s'))) w' < monitor_rank (length (sl_subWorkerThreadId (sy_pool s))) w"
      using monitor_step_down [of e t w s w' s'] act monitor(1,2) assms(2) facts(2,8) t0 by (simp add: shut_down_def)
    moreover have "sy_spawned s' = sy_spawned s"
      using fixed_monitor [OF monitor(3), of n] facts(1) facts(7) [of t] monitor(1) by (simp add: fixed_inv_def scaling_inv_def)
    moreover have "(\<Sum>u \<in> set (sy_spawned s). thread_rank s' ((pc(t := k)) u)) = (\<Sum>u \<in> set (sy_spawned s). thread_rank s (pc u))"
    proof (rule sum.cong [OF refl])
      fix u assume "u \<in> set (sy_spawned s)"
      then have "u \<noteq> t" "\<exists>x. pc u = Worker x" using zero t0 facts(4) [of u] by (metis, simp add: fresh_ok_def)
      then show "thread_rank s' ((pc(t := k)) u) = thread_rank s (pc u)" by (auto simp: thread_rank_def)
    qed
    ultimately show ?thesis
      using assms(2) no_client monitor t0 closed_moves(1) [OF monitor(3)] request_moves(1) [OF monitor(3)] queue_moves(1) [OF monitor(3)]
      by (auto simp: shut_down_def pc' dtor_measure_def thread_rank_def)
  next
    case (worker m w w')
    have t0: "t \<noteq> 0" using facts(3) [of t] worker(1) by (cases "t = 0") (auto simp: role_ok_def)
    have req: "sl_isRequestShutDown (sy_pool s)" using assms(2) by (simp add: shut_down_def)
    have fx: "fixed_pc n s (Worker w)" using facts(7) [of t] worker(1) by simp
    have "drain_measure s' w' < drain_measure s w"
      using facts(9) [of t] worker(1) by (intro drain_moves [OF worker(3) req fx facts(12)]) simp
    moreover have "sl_subWorkerThreadId (sy_pool s') = sl_subWorkerThreadId (sy_pool s)" "sy_spawned s' = sy_spawned s"
      using worker_frames [OF worker(3) fx] by auto
    moreover from this have "thread_rank s' x = thread_rank s x" for x by (simp add: thread_rank_def split: scaling_pc.splits)
    ultimately show ?thesis
      using assms(2) no_client worker t0 closed_moves(2) [OF worker(3)] worker_fields_moves(1) [OF worker(3)]
        sum.remove [of "set (sy_spawned s)" t "\<lambda>u. thread_rank s (pc u)"]
        sum.remove [of "set (sy_spawned s)" t "\<lambda>u. thread_rank s ((pc(t := k)) u)"]
      by (auto simp: shut_down_def pc' dtor_measure_def thread_rank_def drain_measure_def)
  next
    case (client m c c')
    with no_client [of c] show ?thesis by simp
  qed
  then show "shut_down s' pc'" "dtor_measure s' pc' < dtor_measure s pc" by auto
qed

lemma pool_thread_enabled:
  assumes "fixed_reachable n s pc" and "shut_down s pc" and "pool_thread t" and "t = 0 \<or> t \<in> set (sy_spawned s)" and "\<not> ended (pc t)"
  shows "\<exists>u m sp. pool_thread u \<and> mstep scaling_machine (Act u (L_Step m sp)) (s, pc) \<noteq> None"
proof -
  note facts = shut_down_facts [OF assms(1,2)]
  have init: "m_isInit (cv_mutex (sy_lock s))" using facts(2) by (simp add: pool_ready_def)
  have closed: "ct_isRequestClose (sl_monitorThread (sy_pool s))" using assms(2) by (simp add: shut_down_def)
  have no_client: "\<not> holds (pc u)" if "u \<noteq> 0" for u
    using assms(2) that facts(3) [of u] by (cases "pc u") (auto simp: shut_down_def pc_simps role_ok_def)
  obtain m where m: "pc 0 = Monitor m" using facts(3) [of 0] by (cases "pc 0") (auto simp: role_ok_def)
  have lock: "cv_free (sy_lock s)" if "\<not> holds (pc 0)"
  proof -
    have "\<not> holds (pc u)" for u using no_client [of u] that by (cases "u = 0") auto
    then have "owner s \<noteq> Some u" for u using facts(5) by blast
    then have "owner s = None" by (metis not_None_eq)
    then show ?thesis using init by (simp add: cv_free_def)
  qed
  show ?thesis
  proof (cases "m = M_Done")
    case False
    have "\<exists>r. scaling_act (L_Step 0 False) 0 (Monitor m) s = Some r"
      using closed facts(2,8,10) facts(7) [of 0] lock m False
      by (intro monitor_can_step) (auto simp: fixed_pc_def pc_simps)
    with m pool_thread_awake [OF assms(1,2), of 0] show ?thesis
      by (intro exI [of _ 0] exI [of _ False]) (auto simp: pool_thread_def)
  next
    case True
    have t: "t \<in> set (sy_spawned s)" "t \<noteq> 0" using assms(4,5) m True by (cases "t = 0"; auto simp: ended_def)+
    then obtain w where w: "pc t = Worker w" using facts(4) [of t] by (auto simp: fresh_ok_def)
    have "\<exists>k' s'. scaling_act (L_Step 0 False) t (Worker w) s = Some (Worker k', s')"
      using facts(2) facts(7) [of t] t lock w m True assms(5) by (intro drain_enabled) (auto simp: ended_def pc_simps)
    with w pool_thread_awake [OF assms(1-3)] assms(3) show ?thesis
      by (intro exI [of _ t] exI [of _ 0] exI [of _ False]) auto
  qed
qed

interpretation fixed_dtor: draining scaling_machine "\<lambda>s pc. fixed_reachable n s pc \<and> shut_down s pc" pool_thread dtor_measure
    "\<lambda>s pc. FixedThreadPool_dtor (\<lambda>t. ended (pc t)) (sy_pool s) \<noteq> None" for n
proof (unfold_locales, goal_cases)
  case (1 s pc l s' pc')
  then have "fixed_reachable n s' pc'" by (meson reachable.reach_step mstep_step)
  with 1 pool_thread_step [of n s pc l s' pc'] show ?case by blast
next
  case (2 s pc)
  then have r: "fixed_reachable n s pc" "shut_down s pc" by auto
  note facts = shut_down_facts [OF r]
  from 2(2) dtor_iff [of "\<lambda>t. ended (pc t)" "sy_pool s"] facts(11) obtain t where
    t: "t = 0 \<or> t \<in> set (sy_spawned s)" "\<not> ended (pc t)" by auto
  moreover have "pool_thread t" using t(1) facts(1) by (auto simp: pool_thread_def fixed_inv_def fixed_threads_def worker_tid_def)
  ultimately show ?case using pool_thread_enabled [OF r] by blast
qed

text \<open>
  C8: the destructor of a fixed pool returns when the shutdown has closed the monitor.  Once the shutdown
  was requested, the close request of the monitor is set (the weak exchange that sets it did not fail)
  and no call is in progress, the monitor and the workers can make at most \<open>dtor_measure\<close> more actions, in
  whatever order; as long as a join blocks, one of them can act; and wherever they are, they can go on
  to a point where the destructor returns.  When that exchange failed, see \<open>lost_close_blocks_dtor\<close>.
\<close>

theorem FixedThreadPool_dtor_terminates:
  assumes "fixed_reachable n s pc" and "shut_down s pc"
    and "mrun scaling_machine ls (s, pc) = Some (s', pc')" and "\<forall>l \<in> set ls. pool_thread (label_tid l)"
  shows "length ls \<le> dtor_measure s pc \<and>
    (FixedThreadPool_dtor (\<lambda>t. ended (pc' t)) (sy_pool s') = None \<longrightarrow>
      (\<exists>t e. pool_thread t \<and> mstep scaling_machine (Act t e) (s', pc') \<noteq> None)) \<and>
    (\<exists>ls'. (\<forall>l \<in> set ls'. pool_thread (label_tid l)) \<and>
      run_check scaling_machine ls' (s', pc') (\<lambda>s pc. FixedThreadPool_dtor (\<lambda>t. ended (pc t)) (sy_pool s) \<noteq> None))"
  using fixed_dtor.terminates [OF conjI [OF assms(1,2)] assms(3,4)] by blast

text \<open>Client 2 shuts a pool of one worker down and destroys it.\<close>

theorem FixedThreadPool_dtor_terminates_witness:
  "\<exists>(s :: nat scaling_sys) pc s' pc'. fixed_reachable 1 s pc \<and> pc 2 = Client (U_ShutReturned True) \<and>
     mrun scaling_machine [L 0, L 0, L 0, L 0, L 1] (s, pc) = Some (s', pc') \<and>
     FixedThreadPool_dtor (\<lambda>t. ended (pc t)) (sy_pool s) = None \<and>
     FixedThreadPool_dtor (\<lambda>t. ended (pc' t)) (sy_pool s') \<noteq> None \<and> 5 \<le> dtor_measure s pc"
proof -
  have "run_check scaling_machine (Act 2 (CallShut True) # replicate 11 (L 2) @ replicate 8 (L 1) @ [L 2])
      (fst (scaling_start 1 1 :: (nat scaling_sys, nat scaling_pc) config), snd (scaling_start 1 1))
      (\<lambda>s pc. pc 2 = Client (U_ShutReturned True) \<and> pc 1 = Worker W_NotifyClosed \<and> sl_isRequestShutDown (sy_pool s) \<and>
        ct_isRequestClose (sl_monitorThread (sy_pool s)) \<and>
        FixedThreadPool_dtor (\<lambda>t. ended (pc t)) (sy_pool s) = None \<and>
        run_check scaling_machine [L 0, L 0, L 0, L 0, L 1] (s, pc) (\<lambda>s' pc'. FixedThreadPool_dtor (\<lambda>t. ended (pc' t)) (sy_pool s') \<noteq> None))"
    by code_simp
  from run_check_reachable_frame [where init = "scaling_init 1 1", OF this]
  obtain s :: "nat scaling_sys" and pc where r: "fixed_reachable 1 s pc" "pc 2 = Client (U_ShutReturned True)"
      "pc 1 = Worker W_NotifyClosed" "sl_isRequestShutDown (sy_pool s)" "ct_isRequestClose (sl_monitorThread (sy_pool s))"
      "FixedThreadPool_dtor (\<lambda>t. ended (pc t)) (sy_pool s) = None"
      and run: "run_check scaling_machine [L 0, L 0, L 0, L 0, L 1] (s, pc)
        (\<lambda>s' pc'. FixedThreadPool_dtor (\<lambda>t. ended (pc' t)) (sy_pool s') \<noteq> None)"
      and frame: "\<forall>t. t \<noteq> 1 \<and> t \<noteq> 2 \<longrightarrow> pc t = snd (scaling_start 1 1) t"
    by (auto simp: scaling_init_def)
  have "ready_client c" if "pc t = Client c" for t c
    using that r(2,3) frame by (cases "t = 1"; cases "t = 2") (auto simp: scaling_start_def ready_client_def split: if_splits)
  with r have shut: "shut_down s pc" by (simp add: shut_down_def)
  from run obtain s' pc' where s': "mrun scaling_machine [L 0, L 0, L 0, L 0, L 1] (s, pc) = Some (s', pc')"
      "FixedThreadPool_dtor (\<lambda>t. ended (pc' t)) (sy_pool s') \<noteq> None"
    by (auto simp: run_check_def simp del: mrun.simps split: option.splits)
  with FixedThreadPool_dtor_terminates [OF r(1) shut s'(1)] r show ?thesis
    by (intro exI [of _ s] exI [of _ pc] exI [of _ s'] exI [of _ pc'] conjI) (simp_all add: pool_thread_def del: mrun.simps)
qed

section \<open>A close request that is lost\<close>

text \<open>
  \<open>NotifyMonitorThread\<close> closes the monitor with one weak exchange.  When it fails spuriously, nobody
  tries again: the shutdown flag is set, so that no later call gets there.
\<close>

definition close_lost :: "nat \<Rightarrow> nat \<Rightarrow> 'f scaling_sys \<Rightarrow> (tid \<Rightarrow> 'f scaling_pc) \<Rightarrow> bool" where
  "close_lost c m s pc \<longleftrightarrow> scaling_inv c m s pc \<and> sl_isRequestShutDown (sy_pool s) \<and>
     \<not> ct_isRequestClose (sl_monitorThread (sy_pool s)) \<and> (\<forall>t. \<not> closing (pc t)) \<and>
     (\<exists>w. pc 0 = Monitor w \<and> w \<noteq> M_SetFinished \<and> w \<noteq> M_NotifyClosed \<and> w \<noteq> M_Done)"

lemma monitor_goes_on:
  assumes "scaling_act e t (Monitor w) s = Some (k, s')" and "\<not> ct_isRequestClose (sl_monitorThread (sy_pool s))"
    and "w \<noteq> M_SetFinished" and "w \<noteq> M_NotifyClosed"
  shows "\<exists>w'. k = Monitor w' \<and> w' \<noteq> M_SetFinished \<and> w' \<noteq> M_NotifyClosed \<and> w' \<noteq> M_Done"
  using assms
  by (cases w) (auto simp: scaling_act_def monitor_act_def monitor_check_def CheckIsRequestClose_def Let_def
      split: scaling_ev.splits if_splits list.splits option.splits bind_splits sum.splits)

lemma client_not_closing:
  "client_move n t s c c' s' \<Longrightarrow> sl_isRequestShutDown (sy_pool s) \<Longrightarrow> \<not> closing (Client c) \<Longrightarrow> \<not> closing (Client c')"
  by (erule client_move.cases) (auto simp: closing_def needs_request_def shut_wait_def)

lemma close_lost_act:
  assumes lost: "close_lost c m s pc" and act: "scaling_act e t (pc t) s = Some (k, s')"
  shows "close_lost c m s' (pc(t := k))"
proof -
  from lost have inv: "scaling_inv c m s pc" and req: "sl_isRequestShutDown (sy_pool s)"
    and unclosed: "\<not> ct_isRequestClose (sl_monitorThread (sy_pool s))" and no: "\<And>t. \<not> closing (pc t)"
    and w: "\<exists>w. pc 0 = Monitor w \<and> w \<noteq> M_SetFinished \<and> w \<noteq> M_NotifyClosed \<and> w \<noteq> M_Done" by (auto simp: close_lost_def)
  from inv have ready: "pool_ready (sy_pool s)" and role: "role_ok t (pc t)" by (auto simp: scaling_inv_def pcs_ok_def)
  have inv': "scaling_inv c m s' (pc(t := k))" by (rule scaling_act_inv [OF inv act])
  from act ready show ?thesis
  proof (cases rule: scaling_who)
    case (monitor v v')
    then have "t = 0" using role by (simp add: role_ok_def)
    with monitor_goes_on [of e t v s k s'] act monitor(1,2) unclosed w inv' no req
      closed_moves(1) [OF monitor(3)] request_moves(1) [OF monitor(3)]
    show ?thesis by (auto simp: close_lost_def)
  next
    case (worker n v v')
    then have "t \<noteq> 0" using role by (cases "t = 0") (auto simp: role_ok_def)
    with worker inv' no req unclosed w closed_moves(2) [OF worker(3)] request_moves(2) [OF worker(3)]
    show ?thesis by (auto simp: close_lost_def)
  next
    case (client n d d')
    then have "t \<noteq> 0" "d \<noteq> U_CloseMonitor b" for b
      using role no [of t] by (cases "t = 0"; auto simp: role_ok_def closing_def needs_request_def)+
    with client inv' no [of t] no req unclosed w closed_moves(3) [OF client(3)] request_moves(3) [OF client(3)]
      client_not_closing [OF client(3) req]
    show ?thesis by (auto simp: close_lost_def)
  qed
qed

lemma close_lost_future:
  "machine_invariant scaling_machine (\<lambda>cfg. cfg = (s0, pc0) \<and> close_lost c m s0 pc0) (close_lost c m)"
proof (unfold_locales, goal_cases)
  case (1 s pc)
  then show ?case by simp
next
  case (2 s pc t e k s')
  then show ?case by (auto intro: close_lost_act)
next
  case (3 s pc t)
  then show ?case by (auto simp: close_lost_def scaling_unwait_inv) (simp_all add: scaling_unwait_def)
next
  case (4 s pc t k)
  then have ex: "scaling_expire (pc t) = Some k" by simp
  then have "\<not> closing k" "\<forall>w. k = Monitor w \<longrightarrow> w = M_Expired" "(\<exists>w. pc t = Monitor w) \<longleftrightarrow> (\<exists>w. k = Monitor w)"
    by (cases "pc t" rule: scaling_expire.cases; auto simp: closing_def)+
  with 4 ex scaling_timeout_inv [of c m s pc t k] show ?case
    by (cases "t = 0") (auto simp: close_lost_def scaling_unwait_def)
qed

text \<open>
  C38: the destructor that never returns.  When a shutdown was requested, no client is between the request and
  the notification of the monitor, the close request of the monitor is not set because its weak exchange
  failed, and the monitor is about to start or waits, then in no future does the monitor end, so that
  the join in the destructor blocks for ever.
\<close>

theorem lost_close_blocks_dtor:
  assumes "scaling_reachable c m s pc" and "sl_isRequestShutDown (sy_pool s)" and "\<forall>t. \<not> closing (pc t)"
    and "\<not> ct_isRequestClose (sl_monitorThread (sy_pool s))" and "pc 0 = Monitor M_Start \<or> pc 0 = Monitor M_Wait"
    and "reachable scaling_machine (\<lambda>cfg. cfg = (s, pc)) (s', pc')"
  shows "ScalingThreadPool_dtor (\<lambda>t. ended (pc' t)) (sy_pool s') = None"
proof -
  have lost: "close_lost c m s pc" using assms(2-5) scaling.reachable_inv [OF assms(1)] by (auto simp: close_lost_def)
  with assms(6) have "reachable scaling_machine (\<lambda>cfg. cfg = (s, pc) \<and> close_lost c m s pc) (s', pc')" by simp
  from machine_invariant.reachable_inv [OF close_lost_future this] obtain w where "pc' 0 = Monitor w" "w \<noteq> M_Done"
    by (auto simp: close_lost_def)
  then show ?thesis by (simp add: ended_def ScalingThreadPool_dtor_def CloseableThread_dtor_iff)
qed

theorem lost_close_blocks_dtor_witness:
  "\<exists>(s :: nat scaling_sys) pc. scaling_reachable 1 2 s pc \<and> pc 2 = Client (U_ShutReturned True) \<and> pc 1 = Worker W_Done \<and>
     (\<forall>s' pc'. reachable scaling_machine (\<lambda>cfg. cfg = (s, pc)) (s', pc') \<longrightarrow>
       ScalingThreadPool_dtor (\<lambda>t. ended (pc' t)) (sy_pool s') = None)"
proof -
  have "run_check scaling_machine (Act 2 (CallShut True) # replicate 7 (L 2) @ [Act 2 (L_Step 0 True), L 2, L 2] @ replicate 9 (L 1) @ [L 2])
      (fst (scaling_start 1 2 :: (nat scaling_sys, nat scaling_pc) config), snd (scaling_start 1 2))
      (\<lambda>s pc. pc 2 = Client (U_ShutReturned True) \<and> pc 1 = Worker W_Done \<and> sl_isRequestShutDown (sy_pool s) \<and>
        \<not> ct_isRequestClose (sl_monitorThread (sy_pool s)))"
    by code_simp
  from run_check_reachable_frame [where init = "scaling_init 1 2", OF this]
  obtain s :: "nat scaling_sys" and pc where r: "scaling_reachable 1 2 s pc" "pc 2 = Client (U_ShutReturned True)"
      "pc 1 = Worker W_Done" "sl_isRequestShutDown (sy_pool s)" "\<not> ct_isRequestClose (sl_monitorThread (sy_pool s))"
      and frame: "\<forall>t. t \<noteq> 1 \<and> t \<noteq> 2 \<longrightarrow> pc t = snd (scaling_start 1 2) t"
    by (auto simp: scaling_init_def)
  have "\<not> closing (pc u)" for u
    using r(2,3) frame by (cases "u = 1"; cases "u = 2") (auto simp: scaling_start_def closing_def needs_request_def)
  moreover have "pc 0 = Monitor M_Start" using frame by (simp add: scaling_start_def)
  ultimately show ?thesis using lost_close_blocks_dtor [OF r(1,4) _ r(5)] r by blast
qed

end
