(* ===== verification/ThreadCreation.thy ===== *)
theory ThreadCreation
  imports CloseableThread
begin

text \<open>
  The construction of a \<open>CloseableThread\<close> beside the thread it creates.  \<open>Init\<close> runs
  \<open>m_thread.reset(new Thread(...))\<close>: the new thread exists as soon as \<open>pthread_create\<close> has succeeded,
  \<open>m_thread\<close> points to its object only after the assignment, and at the end of \<open>ThreadFunction\<close> the
  thread reads its identifier through \<open>m_thread\<close>.
\<close>

text \<open>
  \<open>cr_object\<close> is the \<open>Thread\<close> object, \<open>cr_assigned\<close> says that \<open>m_thread\<close> points to it; \<open>cr_rcs\<close> is what
  the coming calls of \<open>pthread_create\<close> return, \<open>cr_errors\<close> what was printed and \<open>cr_finished\<close> the arguments
  the finish action was called with.
\<close>

record creation =
  cr_rcs :: "int list"
  cr_object :: "thread option"
  cr_assigned :: bool
  cr_errors :: "string list"
  cr_finished :: "int list"

text \<open>\<open>None\<close>: \<open>m_thread\<close> is null.  The value 0 is an identifier that is not published yet.\<close>

definition CloseableThread_GetThreadId :: "creation \<Rightarrow> int option" where
  "CloseableThread_GetThreadId s =
     (if cr_assigned s then map_option th_threadId (cr_object s) else None)"

text \<open>
  \<open>R_Init\<close>, \<open>R_Reset\<close>, \<open>R_Constructed\<close> are the constructor; \<open>R_Publish\<close>, \<open>R_Run\<close>, \<open>R_Exit\<close> (the catch clause),
  \<open>R_Finish\<close>, \<open>R_Over\<close> the new thread, and \<open>R_Null\<close> is its access through a null \<open>m_thread\<close>.
\<close>

datatype creation_pc = R_Other | R_Init | R_Reset | R_Constructed | R_Publish | R_Run | R_Exit | R_Finish | R_Over | R_Null

datatype creation_ev = R_Next | R_WorkEnds bool

definition with_thread_id :: "creation \<Rightarrow> (int \<Rightarrow> creation_pc \<times> creation) \<Rightarrow> creation_pc \<Rightarrow> creation_pc \<times> creation" where
  "with_thread_id s f here =
     (case CloseableThread_GetThreadId s of None \<Rightarrow> (R_Null, s) | Some i \<Rightarrow> if i = 0 then (here, s) else f i)"

fun creation_act :: "int \<Rightarrow> creation_ev \<Rightarrow> tid \<Rightarrow> creation_pc \<Rightarrow> creation \<Rightarrow> (creation_pc \<times> creation) option" where
  "creation_act my_tid R_Next t R_Init s =
     (case cr_rcs s of
        [] \<Rightarrow> None
      | rc # rcs \<Rightarrow>
          Some (case Thread_ctor rc of
                  Inr th \<Rightarrow> (R_Reset, s\<lparr>cr_rcs := rcs, cr_object := Some th\<rparr>)
                | Inl e_what \<Rightarrow> (R_Init, s\<lparr>cr_rcs := rcs, cr_errors := cr_errors s @ CloseableThread_ProcessError e_what\<rparr>)))"
| "creation_act my_tid R_Next t R_Reset s = Some (R_Constructed, s\<lparr>cr_assigned := True\<rparr>)"
| "creation_act my_tid R_Next t R_Publish s =
     (case cr_object s of
        None \<Rightarrow> None
      | Some th \<Rightarrow> Some (R_Run, s\<lparr>cr_object := Some (fst (Thread_ThreadFunction my_tid FuncReturned th))\<rparr>))"
| "creation_act my_tid (R_WorkEnds by_exit) t R_Run s = Some (if by_exit then R_Exit else R_Finish, s)"
| "creation_act my_tid R_Next t R_Exit s = Some (with_thread_id s (\<lambda>_. (R_Finish, s)) R_Exit)"
| "creation_act my_tid R_Next t R_Finish s =
     Some (with_thread_id s (\<lambda>i. (R_Over, s\<lparr>cr_finished := cr_finished s @ [i]\<rparr>)) R_Finish)"
| "creation_act _ _ _ _ _ = None"

definition creation_machine :: "int \<Rightarrow> (creation, creation_pc, creation_ev) machine" where
  "creation_machine my_tid = \<lparr>act = creation_act my_tid, waiting = (\<lambda>_ _. False), unwait = (\<lambda>_ s. s), expire = (\<lambda>_. None)\<rparr>"

text \<open>Thread 1 constructs, thread 0 is the new thread.\<close>

definition creation_start :: "int list \<Rightarrow> (creation, creation_pc) config" where
  "creation_start rcs = (\<lparr>cr_rcs = rcs, cr_object = None, cr_assigned = False, cr_errors = [], cr_finished = []\<rparr>,
     \<lambda>t. if t = 0 then R_Publish else if t = 1 then R_Init else R_Other)"

section \<open>What the finish action is given\<close>

fun new_thread_ok :: "int \<Rightarrow> creation \<Rightarrow> creation_pc \<Rightarrow> bool" where
  "new_thread_ok my_tid s R_Publish \<longleftrightarrow> cr_finished s = []"
| "new_thread_ok my_tid s R_Over \<longleftrightarrow> cr_finished s = [my_tid]"
| "new_thread_ok my_tid s k \<longleftrightarrow> k \<in> {R_Run, R_Exit, R_Finish, R_Null} \<and> cr_finished s = [] \<and>
     map_option th_threadId (cr_object s) = Some my_tid"

fun constructor_ok :: "creation \<Rightarrow> creation_pc \<Rightarrow> bool" where
  "constructor_ok s R_Init \<longleftrightarrow> cr_object s = None \<and> \<not> cr_assigned s"
| "constructor_ok s R_Reset \<longleftrightarrow> cr_object s \<noteq> None \<and> \<not> cr_assigned s"
| "constructor_ok s R_Constructed \<longleftrightarrow> cr_object s \<noteq> None \<and> cr_assigned s"
| "constructor_ok s _ \<longleftrightarrow> False"

definition creation_inv :: "int \<Rightarrow> creation \<Rightarrow> (tid \<Rightarrow> creation_pc) \<Rightarrow> bool" where
  "creation_inv my_tid s pc \<longleftrightarrow> new_thread_ok my_tid s (pc 0) \<and> constructor_ok s (pc 1) \<and>
     (\<forall>t. t \<noteq> 0 \<and> t \<noteq> 1 \<longrightarrow> pc t = R_Other)"

lemma constructor_frame:
  "constructor_ok s k \<Longrightarrow> cr_assigned s' = cr_assigned s \<Longrightarrow> cr_object s' = None \<longleftrightarrow> cr_object s = None \<Longrightarrow> constructor_ok s' k"
  by (cases k) auto

lemma new_thread_frame:
  "new_thread_ok my_tid s k \<Longrightarrow> cr_finished s' = cr_finished s \<Longrightarrow> cr_object s \<noteq> None \<longrightarrow> cr_object s' = cr_object s \<Longrightarrow>
    new_thread_ok my_tid s' k"
  by (cases k) auto

lemma new_thread_act:
  assumes "new_thread_ok my_tid s w" and "creation_act my_tid e 0 w s = Some (k, s')" and "my_tid \<noteq> 0"
  shows "new_thread_ok my_tid s' k" "cr_assigned s' = cr_assigned s" "cr_object s' = None \<longleftrightarrow> cr_object s = None"
  using assms
  by (cases e; cases w; auto simp: with_thread_id_def CloseableThread_GetThreadId_def Thread_ThreadFunction_def
      split: option.splits if_splits)+

lemma constructor_act:
  assumes "constructor_ok s w" and "creation_act my_tid e 1 w s = Some (k, s')"
  shows "constructor_ok s' k" "cr_finished s' = cr_finished s" "cr_object s \<noteq> None \<longrightarrow> cr_object s' = cr_object s"
  using assms by (cases e; cases w; auto simp: Thread_ctor_def split: list.splits if_splits)+

lemma creation_act_inv:
  assumes "creation_inv my_tid s pc" and "creation_act my_tid e t (pc t) s = Some (k, s')" and "my_tid \<noteq> 0"
  shows "creation_inv my_tid s' (pc(t := k))"
proof -
  from assms(1) have new: "new_thread_ok my_tid s (pc 0)" and con: "constructor_ok s (pc 1)"
    and "\<And>t. t \<noteq> 0 \<Longrightarrow> t \<noteq> 1 \<Longrightarrow> pc t = R_Other" by (auto simp: creation_inv_def)
  with assms(2) consider "t = 0" | "t = 1" by (cases "t = 0"; cases "t = 1") auto
  then show ?thesis
  proof cases
    case 1
    with assms(1,2) new_thread_act [OF new _ assms(3)] constructor_frame [OF con] show ?thesis
      by (simp add: creation_inv_def)
  next
    case 2
    with assms(1,2) constructor_act [OF con] new_thread_frame [OF new] show ?thesis
      by (simp add: creation_inv_def)
  qed
qed

lemma creation_machine_invariant:
  assumes "my_tid \<noteq> 0"
  shows "machine_invariant (creation_machine my_tid) (\<lambda>c. c = creation_start rcs) (creation_inv my_tid)"
proof (unfold_locales, goal_cases)
  case (1 s pc)
  then show ?case by (auto simp: creation_start_def creation_inv_def)
next
  case (2 s pc t e k s')
  then show ?case using creation_act_inv [OF _ _ assms] by (simp add: creation_machine_def)
qed (simp_all add: creation_machine_def)

text \<open>
  The finish action is called at most once, with the identifier of the thread itself and never with 0; and
  once the constructor is over the thread does not meet a null \<open>m_thread\<close> any more.
\<close>

lemma finish_gets_own_id:
  assumes "my_tid \<noteq> 0" and "reachable (creation_machine my_tid) (\<lambda>c. c = creation_start rcs) (s, pc)"
  shows "(cr_finished s = [] \<or> cr_finished s = [my_tid]) \<and>
    (pc 1 = R_Constructed \<longrightarrow> (\<forall>e k s'. creation_act my_tid e 0 (pc 0) s = Some (k, s') \<longrightarrow> k \<noteq> R_Null))"
proof -
  have inv: "creation_inv my_tid s pc"
    by (rule machine_invariant.reachable_inv [OF creation_machine_invariant [OF assms(1)] assms(2)])
  then have new: "new_thread_ok my_tid s (pc 0)" and con: "constructor_ok s (pc 1)" by (auto simp: creation_inv_def)
  have "k \<noteq> R_Null" if "pc 1 = R_Constructed" "creation_act my_tid e 0 (pc 0) s = Some (k, s')" for e k s'
    using that new con assms(1)
    by (cases e; cases "pc 0") (auto simp: with_thread_id_def CloseableThread_GetThreadId_def split: option.splits if_splits)
  with new show ?thesis by (cases "pc 0") auto
qed

text \<open>
  A quick thread is faster than the assignment: the work function returns, or a close request has made it
  exit, before \<open>m_thread\<close> is set, and \<open>GetThreadId\<close> goes through a null pointer.
\<close>

lemma quick_thread_meets_null:
  "\<exists>s pc. reachable (creation_machine 7) (\<lambda>c. c = creation_start [11, 0]) (s, pc) \<and> pc 0 = R_Null \<and> pc 1 = R_Reset"
proof -
  have "run_check (creation_machine 7) [Act 1 R_Next, Act 1 R_Next, Act 0 R_Next, Act 0 (R_WorkEnds False), Act 0 R_Next]
      (creation_start [11, 0]) (\<lambda>s pc. pc 0 = R_Null \<and> pc 1 = R_Reset)"
    by code_simp
  from run_check_reachable [where init = "\<lambda>c. c = creation_start [11, 0]", OF this refl] show ?thesis .
qed

end
