(* ===== verification/ThreadDestructors.thy ===== *)
theory ThreadDestructors
  imports SingleThreadPool ScheduledThreadPool Joining
begin

text \<open>
  The destructors of \<open>SingleThreadPool\<close>, \<open>TimerTaskHandler\<close> and \<open>ScheduledThreadPool\<close>.  The body of each
  is \<open>ShutDown\<close>; the members that are destroyed after it join the threads.  The theory shows that
  the joins return.
\<close>

section \<open>The single pool\<close>

text \<open>What is left to do when \<open>ShutDown\<close> has returned: the members \<open>m_thread\<close> and the two queues.\<close>

definition SingleThreadPool_dtor :: "(tid \<Rightarrow> bool) \<Rightarrow> 'f single_pool \<Rightarrow> 'f single_pool option" where
  "SingleThreadPool_dtor returned p =
     do { _ \<leftarrow> CloseableThread_dtor returned 0;
          Some (p\<lparr>sp_taskQueueLesser := [], sp_taskQueueGreater := []\<rparr>) }"

definition single_returned :: "'f single_pc \<Rightarrow> bool" where
  "single_returned k \<longleftrightarrow> k = Worker SW_Done \<or> k = Worker SW_Threw"

text \<open>The shutdown was requested and nobody is still inside it.\<close>

definition single_shut_down :: "'f single_sys \<Rightarrow> (tid \<Rightarrow> 'f single_pc) \<Rightarrow> bool" where
  "single_shut_down s pc \<longleftrightarrow> sp_isRequestShutDown (ss_pool s) \<and> (\<forall>t. \<not> is_shutting (pc t))"

text \<open>
  The actions left to the thread, closed or not: each round of the loop takes a task from the queue, and
  the end task is in it.
\<close>

fun single_rank :: "'f worker_pc \<Rightarrow> nat" where
  "single_rank SW_Start = 9" | "single_rank SW_Check0 = 8" | "single_rank (SW_Run _) = 8" | "single_rank SW_Check = 7"
| "single_rank SW_Get = 6" | "single_rank SW_SetShutDown = 4" | "single_rank SW_NotifyPool = 3"
| "single_rank SW_SetFinished = 2" | "single_rank SW_NotifyClosed = 1" | "single_rank SW_Done = 0" | "single_rank SW_Threw = 0"

definition single_measure :: "'f single_sys \<Rightarrow> (tid \<Rightarrow> 'f single_pc) \<Rightarrow> nat" where
  "single_measure s pc = 3 * length (pool_queue (ss_pool s)) + (case pc 0 of Worker w \<Rightarrow> single_rank w | Client c \<Rightarrow> 0)"

lemma length_pop_queue:
  "pool_queue p \<noteq> [] \<Longrightarrow> length (pool_queue p) = Suc (length (pool_queue (pop_queue p)))"
  using arg_cong [OF pop_pool_queue [of p], of size] by simp

lemma single_move_rank:
  assumes "worker_move n t s w w' s'" and "pool_queue (ss_pool s) \<noteq> [] \<or> w \<noteq> SW_Get"
  shows "3 * length (pool_queue (ss_pool s')) + single_rank w' < 3 * length (pool_queue (ss_pool s)) + single_rank w"
  using assms by (cases rule: worker_move.cases) (auto simp: sync length_pop_queue)

lemma single_rank_worker: "w \<noteq> SW_Done \<Longrightarrow> w \<noteq> SW_Threw \<Longrightarrow> 0 < worker_rank w"
  by (cases w) auto

lemma single_facts:
  assumes "single_reachable mode s pc" and "single_shut_down s pc"
  obtains w where "pc 0 = Worker w" "pool_free (ss_pool s)" "pool_queue (ss_pool s) \<noteq> [] \<or> w \<noteq> SW_Get"
    "\<not> waiting single_machine s 0"
proof -
  have inv: "single_inv mode s pc" using single.reachable_inv [OF assms(1)] .
  then obtain w where w: "pc 0 = Worker w" "pool_free (ss_pool s)" "ended s w"
    using assms(2) by (auto simp: single_inv_def single_ok_def shut_ok_def single_shut_down_def)
  then have q: "pool_queue (ss_pool s) \<noteq> [] \<or> w \<noteq> SW_Get" by (auto simp: ended_def)
  then have "m_cond (sp_mutexCond (ss_pool s)) = []"
    using single.no_lost_wakeup [OF assms(1)] inv w(1) by (auto simp: single_inv_def)
  with inv w q that show thesis by (simp add: single_machine_def single_inv_def sync)
qed

interpretation single_dtor: draining single_machine "\<lambda>s pc. single_reachable mode s pc \<and> single_shut_down s pc"
    "\<lambda>t. t = 0" single_measure
    "\<lambda>s pc. SingleThreadPool_dtor (\<lambda>t. single_returned (pc t)) (ss_pool s) \<noteq> None" for mode
proof (unfold_locales, goal_cases)
  case (1 s pc l s' pc')
  then have reach: "single_reachable mode s' pc'" by (meson reachable.reach_step mstep_step)
  obtain w where w: "pc 0 = Worker w" "pool_free (ss_pool s)" "pool_queue (ss_pool s) \<noteq> [] \<or> w \<noteq> SW_Get"
    and awake: "\<not> waiting single_machine s 0" using single_facts 1(1) by blast
  from 1(2,3) awake obtain e k where act: "single_act e 0 (pc 0) s = Some (k, s')" and pc': "pc' = pc(0 := k)"
    by (cases l) (auto simp: single_machine_def split: if_splits option.splits)
  from single_act_move [OF act w(2)] w(1) obtain n w' where m: "k = Worker w'" "worker_move n 0 s w w' s'" by auto
  from m(2) have "single_shut_down s' pc'"
    using 1(1) pc' m(1) by (cases rule: worker_move.cases) (auto simp: single_shut_down_def sync)
  with reach single_move_rank [OF m(2) w(3)] w(1) m(1) pc' show ?case by (simp add: single_measure_def)
next
  case (2 s pc)
  then obtain w where w: "pc 0 = Worker w" "pool_free (ss_pool s)" and awake: "\<not> waiting single_machine s 0"
    using single_facts by blast
  with 2(2) have "0 < worker_rank w"
    using single_rank_worker by (auto simp: SingleThreadPool_dtor_def CloseableThread_dtor_iff single_returned_def split: if_splits)
  from worker_enabled [OF w(2) this, of 0 False 0] awake w(1) show ?case
    by (intro exI [of _ 0] exI [of _ "S_Step 0 False"]) (auto simp: single_machine_def)
qed

text \<open>
  C23: the destructor of a single pool returns when its shutdown took effect.  Once the shutdown is
  requested (the weak exchange of a \<open>ShutDown\<close> has succeeded) and nobody is inside the winning \<open>ShutDown\<close>,
  whether or not the exchange that closes the thread failed, the thread makes at most \<open>single_measure\<close>
  more actions; as long as the join blocks it can act; and wherever it is, it can go on to a point where
  the destructor returns.
\<close>

theorem SingleThreadPool_dtor_terminates:
  assumes "single_reachable mode s pc" and "single_shut_down s pc"
    and "mrun single_machine ls (s, pc) = Some (s', pc')" and "\<forall>l \<in> set ls. label_tid l = 0"
  shows "length ls \<le> single_measure s pc \<and>
    (SingleThreadPool_dtor (\<lambda>t. single_returned (pc' t)) (ss_pool s') = None \<longrightarrow>
      (\<exists>e. mstep single_machine (Act 0 e) (s', pc') \<noteq> None)) \<and>
    (\<exists>ls'. (\<forall>l \<in> set ls'. label_tid l = 0) \<and>
      run_check single_machine ls' (s', pc') (\<lambda>s pc. SingleThreadPool_dtor (\<lambda>t. single_returned (pc t)) (ss_pool s) \<noteq> None))"
  using single_dtor.terminates [OF conjI [OF assms(1,2)] assms(3)] assms(4) by blast

section \<open>The timer\<close>

text \<open>\<open>~TimerTaskQueue\<close> clears the queue.\<close>

definition TimerTaskQueue_dtor :: "store \<Rightarrow> timer_queue \<Rightarrow> timer_queue" where
  "TimerTaskQueue_dtor st q = TimerTaskQueue_Clear st q"

text \<open>What is left to do when \<open>ShutDown\<close> has returned: \<open>m_thread\<close>, then \<open>m_task_queue\<close>.\<close>

definition TimerTaskHandler_dtor :: "(tid \<Rightarrow> bool) \<Rightarrow> handler_sys \<Rightarrow> handler_sys option" where
  "TimerTaskHandler_dtor returned s =
     do { _ \<leftarrow> CloseableThread_dtor returned 0;
          Some (s\<lparr>hs_task_queue := TimerTaskQueue_dtor (hs_store s) (hs_task_queue s)\<rparr>) }"

definition timer_returned :: "handler_pc \<Rightarrow> bool" where
  "timer_returned k \<longleftrightarrow> k = Timer H_Done \<or> k = Timer H_Threw"

definition timer_shut_down :: "handler_sys \<Rightarrow> (tid \<Rightarrow> handler_pc) \<Rightarrow> bool" where
  "timer_shut_down s pc \<longleftrightarrow> hs_isRequestShutDown s \<and> (\<forall>t. \<not> is_ending (pc t)) \<and> ct_isRequestClose (hs_thread s)"

definition timer_measure :: "handler_sys \<Rightarrow> (tid \<Rightarrow> handler_pc) \<Rightarrow> nat" where
  "timer_measure s pc = (case pc 0 of Timer w \<Rightarrow> timer_rank w | User c \<Rightarrow> 0)"

lemma TimerTaskHandler_dtor_iff: "TimerTaskHandler_dtor returned s =
    (if returned 0 then Some (s\<lparr>hs_task_queue := (hs_task_queue s)\<lparr>tq_queue := []\<rparr>\<rparr>) else None)"
  by (simp add: TimerTaskHandler_dtor_def CloseableThread_dtor_iff TimerTaskQueue_dtor_def TimerTaskQueue_Clear_empties)

lemma timer_move_flags:
  "timer_move t s w w' s' \<Longrightarrow> hs_isRequestShutDown s' = hs_isRequestShutDown s \<and>
    ct_isRequestClose (hs_thread s') = ct_isRequestClose (hs_thread s)"
  by (erule timer_move.cases) (auto elim!: iteration.cases simp: hs_updates Let_def)

interpretation timer_dtor: draining "handler_machine False" "\<lambda>s pc. handler_reachable s pc \<and> timer_shut_down s pc"
    "\<lambda>t. t = 0" timer_measure
    "\<lambda>s pc. TimerTaskHandler_dtor (\<lambda>t. timer_returned (pc t)) s \<noteq> None"
proof (unfold_locales, goal_cases)
  case (1 s pc l s' pc')
  then have reach: "handler_reachable s' pc'" by (meson reachable.reach_step mstep_step)
  have inv: "handler_inv s pc" using handler.reachable_inv 1(1) by blast
  then obtain w where w: "pc 0 = Timer w" by (auto simp: handler_inv_def)
  have awake: "\<not> waiting (handler_machine False) s 0"
    using closed_timer_awake 1(1) by (auto simp: timer_shut_down_def)
  from 1(2,3) awake obtain e k where act: "handler_act False e 0 (pc 0) s = Some (k, s')" and pc': "pc' = pc(0 := k)"
    by (cases l) (auto simp: handler_machine_def split: if_splits option.splits)
  from inv act obtain w' where m: "k = Timer w'" "timer_move 0 s w w' s'"
    using w by (cases rule: handler_who) auto
  have "timer_shut_down s' pc'"
    using 1(1) pc' m(1) timer_move_flags [OF m(2)] by (auto simp: timer_shut_down_def is_ending_def)
  with reach timer_move_rank [OF m(2)] 1(1) w m(1) pc' show ?case by (simp add: timer_measure_def timer_shut_down_def)
next
  case (2 s pc)
  then have "handler_inv s pc" using handler.reachable_inv by blast
  then obtain w where w: "pc 0 = Timer w" "handler_free s" by (auto simp: handler_inv_def)
  with 2(2) have "0 < timer_rank w"
    by (cases w) (auto simp: TimerTaskHandler_dtor_iff timer_returned_def split: if_splits)
  moreover from 2(1) have "ct_isRequestClose (hs_thread s)" by (simp add: timer_shut_down_def)
  ultimately obtain e r where "handler_act False e 0 (Timer w) s = Some r" using timer_enabled [OF w(2)] by blast
  moreover have "\<not> waiting (handler_machine False) s 0"
    using closed_timer_awake 2(1) by (auto simp: timer_shut_down_def)
  ultimately show ?case using w(1) by (intro exI [of _ 0] exI [of _ e]) (cases r; simp add: handler_machine_def)
qed

text \<open>
  C25: the destructor of a timer returns.  Once \<open>ShutDown\<close> has returned with the thread told to close, the
  thread makes at most \<open>timer_measure\<close> more actions, as long as the join blocks it can act, and wherever it
  is it can go on to a point where the destructor returns; the queue is then empty.
\<close>

theorem TimerTaskHandler_dtor_terminates:
  assumes "handler_reachable s pc" and "timer_shut_down s pc"
    and "mrun (handler_machine False) ls (s, pc) = Some (s', pc')" and "\<forall>l \<in> set ls. label_tid l = 0"
  shows "length ls \<le> timer_measure s pc \<and>
    (TimerTaskHandler_dtor (\<lambda>t. timer_returned (pc' t)) s' = None \<longrightarrow>
      (\<exists>e. mstep (handler_machine False) (Act 0 e) (s', pc') \<noteq> None)) \<and>
    (\<exists>ls'. (\<forall>l \<in> set ls'. label_tid l = 0) \<and> run_check (handler_machine False) ls' (s', pc')
      (\<lambda>s pc. \<exists>s2. TimerTaskHandler_dtor (\<lambda>t. timer_returned (pc t)) s = Some s2 \<and> hs_queue s2 = []))"
proof -
  have eq: "(TimerTaskHandler_dtor (\<lambda>t. timer_returned (pc t)) s \<noteq> None) \<longleftrightarrow>
      (\<exists>s2. TimerTaskHandler_dtor (\<lambda>t. timer_returned (pc t)) s = Some s2 \<and> hs_queue s2 = [])" for s pc
    by (auto simp: TimerTaskHandler_dtor_iff)
  from timer_dtor.terminates [OF conjI [OF assms(1,2)] assms(3)] assms(4) show ?thesis unfolding eq [symmetric] by blast
qed

section \<open>The scheduled pool\<close>

text \<open>
  \<open>~ScheduledThreadPool\<close>: \<open>ShutDown\<close>, and then \<open>m_handlers\<close> is destroyed; \<open>destroy\<close> is \<open>~TimerTaskHandler\<close> of one
  timer.
\<close>

fun destroy_handlers :: "('h \<Rightarrow> 'h option) \<Rightarrow> 'h option list \<Rightarrow> unit option" where
  "destroy_handlers destroy [] = Some ()"
| "destroy_handlers destroy (None # hs) = destroy_handlers destroy hs"
| "destroy_handlers destroy (Some h # hs) = do { _ \<leftarrow> destroy h; destroy_handlers destroy hs }"

definition ScheduledThreadPool_dtor :: "tid \<Rightarrow> bool \<Rightarrow> (bool \<Rightarrow> 'h \<Rightarrow> 'h option) \<Rightarrow> ('h \<Rightarrow> 'h option) \<Rightarrow>
    'h scheduled_pool \<Rightarrow> 'h scheduled_pool option" where
  "ScheduledThreadPool_dtor t spurious shut destroy p =
     do { p' \<leftarrow> ScheduledThreadPool_ShutDown t spurious shut p;
          _ \<leftarrow> destroy_handlers destroy (sc_handlers p');
          Some (p'\<lparr>sc_handlers := []\<rparr>) }"

text \<open>\<open>~TimerTaskHandler\<close> as one call: \<open>ShutDown\<close> and the destruction of the members.\<close>

definition timer_destroy :: "TimeValue \<Rightarrow> nat \<Rightarrow> bool \<Rightarrow> tid \<Rightarrow> (handler_sys \<Rightarrow> bool) \<Rightarrow> handler_sys \<Rightarrow> handler_sys option" where
  "timer_destroy now n spurious t returned s =
     do { s' \<leftarrow> timer_shut now n spurious t False s; TimerTaskHandler_dtor (\<lambda>_. returned s') s' }"

lemma destroy_handlers_iff:
  "destroy_handlers destroy (map Some hs) \<noteq> None \<longleftrightarrow> (\<forall>h \<in> set hs. destroy h \<noteq> None)"
proof (induction hs)
  case (Cons h hs)
  then show ?case by (cases "destroy h") auto
qed simp

text \<open>
  The destructor of an open pool returns exactly when the threads of all its timers, which the shutdown has
  made refuse, have returned: it waits for nothing else.
\<close>

lemma ScheduledThreadPool_dtor_returns:
  assumes "pool_open m hs p" and "\<forall>h \<in> set hs. timer_accepting h"
    and "sc_stateGuard p = free_mutex" and "sc_handlerGuard p = free_mutex"
  shows "\<exists>hs'. length hs' = length hs \<and> (\<forall>h \<in> set hs'. timer_refusing h) \<and>
    (ScheduledThreadPool_dtor t False (timer_shut now k False t) (timer_destroy now' k' sp t returned) p \<noteq> None \<longleftrightarrow>
      (\<forall>h \<in> set hs'. returned h))"
proof -
  from timers.shut_handlers_all [OF assms(2), of free_mutex t now k t] obtain hs' where hs':
    "shut_handlers t (timer_shut now k False t False) free_mutex (map Some hs) = Some (free_mutex, map Some hs')"
    "length hs' = length hs" "\<forall>h \<in> set hs'. timer_refusing h" by auto
  with assms(1,3,4) obtain p' where p': "ScheduledThreadPool_ShutDown t False (timer_shut now k False t) p = Some p'"
      "sc_handlers p' = map Some hs'"
    by (simp add: ScheduledThreadPool_ShutDown_def ScheduledThreadPool_ShutDownHelper_def ScheduledThreadPool_SetState_def
        MutexLocker_free pool_open_def MutexLocker_dtor_def Mutex_Unlock_def compare_exchange_weak_def Let_def)
  have "timer_destroy now' k' sp t returned h \<noteq> None \<longleftrightarrow> returned h" if "h \<in> set hs'" for h
    using hs'(3) that by (simp add: timer_destroy_def timer_shut_refusing TimerTaskHandler_dtor_iff)
  then have "destroy_handlers (timer_destroy now' k' sp t returned) (map Some hs') \<noteq> None \<longleftrightarrow> (\<forall>h \<in> set hs'. returned h)"
    by (simp only: destroy_handlers_iff) blast
  with p' have "ScheduledThreadPool_dtor t False (timer_shut now k False t) (timer_destroy now' k' sp t returned) p \<noteq> None \<longleftrightarrow>
      (\<forall>h \<in> set hs'. returned h)"
    by (cases "destroy_handlers (timer_destroy now' k' sp t returned) (map Some hs')")
       (simp_all add: ScheduledThreadPool_dtor_def)
  with hs' show ?thesis by blast
qed

section \<open>Witnesses\<close>

text \<open>Client 1 shuts a pool down whose thread sleeps; the destructor then waits until the thread has ended.\<close>

theorem SingleThreadPool_dtor_terminates_witness:
  "\<exists>(s :: nat single_sys) pc s' pc'. single_reachable FIFO s pc \<and> pc 0 = Worker SW_Get \<and>
     SingleThreadPool_dtor (\<lambda>t. single_returned (pc t)) (ss_pool s) = None \<and>
     mrun single_machine (steps_of [0, 0, 0, 0, 0]) (s, pc) = Some (s', pc') \<and>
     SingleThreadPool_dtor (\<lambda>t. single_returned (pc' t)) (ss_pool s') \<noteq> None \<and> 5 \<le> single_measure s pc"
proof -
  have "run_check single_machine
      (steps_of [0, 0, 0, 0] @ [Act 1 (single_ev.CallShutDown False)] @ steps_of [1, 1, 1, 1])
      (fst (single_start FIFO), snd (single_start FIFO))
      (\<lambda>s pc. sp_isRequestShutDown (ss_pool s) \<and> pc 0 = Worker SW_Get \<and> pc 1 = Client (S_ShutReturned False) \<and>
        SingleThreadPool_dtor (\<lambda>t. single_returned (pc t)) (ss_pool s) = None \<and>
        run_check single_machine (steps_of [0, 0, 0, 0, 0]) (s, pc)
          (\<lambda>s' pc'. SingleThreadPool_dtor (\<lambda>t. single_returned (pc' t)) (ss_pool s') \<noteq> None))"
    by code_simp
  from run_check_reachable_frame [where init = "\<lambda>c. c = single_start FIFO", OF this]
  obtain s :: "nat single_sys" and pc where r: "single_reachable FIFO s pc" "sp_isRequestShutDown (ss_pool s)"
      "pc 0 = Worker SW_Get" "pc 1 = Client (S_ShutReturned False)"
      "SingleThreadPool_dtor (\<lambda>t. single_returned (pc t)) (ss_pool s) = None"
      and run: "run_check single_machine (steps_of [0, 0, 0, 0, 0]) (s, pc)
          (\<lambda>s' pc'. SingleThreadPool_dtor (\<lambda>t. single_returned (pc' t)) (ss_pool s') \<noteq> None)"
      and frame: "\<forall>t. t \<noteq> 0 \<and> t \<noteq> 1 \<longrightarrow> pc t = Client S_Idle"
    by (auto simp: steps_of_def single_start_def)
  have "\<not> is_shutting (pc t)" for t using r(3,4) frame by (cases "t = 0"; cases "t = 1") auto
  with r(2) have shut: "single_shut_down s pc" by (simp add: single_shut_down_def)
  from run obtain s' pc' where s': "mrun single_machine (steps_of [0, 0, 0, 0, 0]) (s, pc) = Some (s', pc')"
      "SingleThreadPool_dtor (\<lambda>t. single_returned (pc' t)) (ss_pool s') \<noteq> None"
    by (auto simp: run_check_def simp del: mrun.simps split: option.splits)
  from SingleThreadPool_dtor_terminates [OF r(1) shut s'(1)] have "5 \<le> single_measure s pc" by (simp add: steps_of_def)
  with r s' show ?thesis by blast
qed

theorem TimerTaskHandler_dtor_terminates_witness:
  "\<exists>s pc s' pc'. handler_reachable s pc \<and> pc 0 = Timer H_Wait \<and>
     TimerTaskHandler_dtor (\<lambda>t. timer_returned (pc t)) s = None \<and>
     mrun (handler_machine False) (hsteps 0 [6, 6, 6]) (s, pc) = Some (s', pc') \<and>
     TimerTaskHandler_dtor (\<lambda>t. timer_returned (pc' t)) s' \<noteq> None \<and> 3 \<le> timer_measure s pc"
proof -
  have "run_check (handler_machine False)
      (hsteps 0 [5, 5, 5] @ [Act 1 (CallShutDown False)] @ hsteps 1 [6, 6, 6])
      (fst handler_start, snd handler_start)
      (\<lambda>s pc. hs_isRequestShutDown s \<and> ct_isRequestClose (hs_thread s) \<and> pc 0 = Timer H_Wait \<and> pc 1 = User A_ShutReturned \<and>
        TimerTaskHandler_dtor (\<lambda>t. timer_returned (pc t)) s = None \<and>
        run_check (handler_machine False) (hsteps 0 [6, 6, 6]) (s, pc) (\<lambda>s' pc'. TimerTaskHandler_dtor (\<lambda>t. timer_returned (pc' t)) s' \<noteq> None))"
    by code_simp
  from run_check_reachable_frame [where init = "\<lambda>c. c = handler_start", OF this]
  obtain s pc where r: "handler_reachable s pc" "hs_isRequestShutDown s" "ct_isRequestClose (hs_thread s)"
      "pc 0 = Timer H_Wait" "pc 1 = User A_ShutReturned" "TimerTaskHandler_dtor (\<lambda>t. timer_returned (pc t)) s = None"
      and run: "run_check (handler_machine False) (hsteps 0 [6, 6, 6]) (s, pc)
        (\<lambda>s' pc'. TimerTaskHandler_dtor (\<lambda>t. timer_returned (pc' t)) s' \<noteq> None)"
      and frame: "\<forall>t. t \<noteq> 0 \<and> t \<noteq> 1 \<longrightarrow> pc t = User A_Idle"
    by (auto simp: hsteps_def handler_start_def)
  have "\<not> is_ending (pc t)" for t
    using r(4,5) frame by (cases "t = 0"; cases "t = 1") (auto simp: is_ending_def ending_def)
  with r(2,3) have shut: "timer_shut_down s pc" by (simp add: timer_shut_down_def)
  from run obtain s' pc' where s': "mrun (handler_machine False) (hsteps 0 [6, 6, 6]) (s, pc) = Some (s', pc')"
      "TimerTaskHandler_dtor (\<lambda>t. timer_returned (pc' t)) s' \<noteq> None"
    by (auto simp: run_check_def simp del: mrun.simps split: option.splits)
  from TimerTaskHandler_dtor_terminates [OF r(1) shut s'(1)] have "3 \<le> timer_measure s pc" by (simp add: hsteps_def)
  with r s' show ?thesis by blast
qed

end
