(* ===== verification/FutureRun.thy ===== *)
theory FutureRun
  imports FutureTask TaskBase Projection
begin

text \<open>
  A \<open>FutureTask\<close> is a \<open>TaskBase\<close> whose \<open>DoRun\<close> computes the result: \<open>TaskBase::Run\<close> calls it between
  \<open>SetState(RUNNING)\<close> and \<open>SetState(FINISHED)\<close>.  The composition of the two machines: what \<open>GetResult\<close> gives
  for a task that finished, and that it never returns for one that was cancelled.
\<close>

section \<open>The composition\<close>

record 'v future_run =
  fr_task :: task_sys
  fr_future :: "'v future_sys"

text \<open>
  A thread has a program counter in \<open>Run\<close> or \<open>Cancel\<close> and one in \<open>DoRun\<close> or \<open>GetResult\<close>; it is inside
  \<open>DoRun\<close> while the first is \<open>T_Body\<close>.
\<close>

type_synonym 'v future_run_pc = "task_pc \<times> 'v future_pc"

datatype 'v future_run_ev = TaskAct task_ev | FutureAct "'v future_ev"

definition task_part :: "bool \<Rightarrow> task_ev \<Rightarrow> tid \<Rightarrow> 'v future_run_pc \<Rightarrow> 'v future_run \<Rightarrow>
    ('v future_run_pc \<times> 'v future_run) option" where
  "task_part rerun te t k s =
     map_option (\<lambda>(k', ts). ((k', snd k), s\<lparr>fr_task := ts\<rparr>)) (task_act rerun te t (fst k) (fr_task s))"

definition future_part :: "'v future_ev \<Rightarrow> tid \<Rightarrow> 'v future_run_pc \<Rightarrow> 'v future_run \<Rightarrow>
    ('v future_run_pc \<times> 'v future_run) option" where
  "future_part fe t k s =
     map_option (\<lambda>(f', fs). ((fst k, f'), s\<lparr>fr_future := fs\<rparr>)) (future_act fe t (snd k) (fr_future s))"

text \<open>
  \<open>Run\<close> with the calls of \<open>DoRun\<close>.  \<open>SetState(RUNNING)\<close> is followed by the call; \<open>DoRun\<close> has returned at
  \<open>F_Ran\<close>, and an exception of \<open>Call\<close> has left it at \<open>F_Threw\<close>.  \<open>Call\<close> may check for a cancellation, whose
  exception leaves \<open>DoRun\<close> too.
\<close>

definition future_Run :: "bool \<Rightarrow> task_ev \<Rightarrow> tid \<Rightarrow> 'v future_run_pc \<Rightarrow> 'v future_run \<Rightarrow>
    ('v future_run_pc \<times> 'v future_run) option" where
  "future_Run rerun te t k s =
     (case fst k of
        T_SetRunning \<Rightarrow> do { (k1, s1) \<leftarrow> task_part rerun te t k s; future_part CallRun t k1 s1 }
      | T_Body \<Rightarrow>
          (if te = E_BodyReturn \<and> snd k = F_Ran \<or> te = E_BodyThrow \<and> snd k = F_Threw then task_part rerun te t k s
           else if te = E_BodyCheck \<and> snd k = F_Call then
             do { (k1, s1) \<leftarrow> task_part rerun te t k s;
                  if fst k1 = T_SetCancelled then future_part Call_throws t k1 s1 else Some (k1, s1) }
           else None)
      | _ \<Rightarrow> task_part rerun te t k s)"

definition future_run_act :: "bool \<Rightarrow> 'v future_run_ev \<Rightarrow> tid \<Rightarrow> 'v future_run_pc \<Rightarrow> 'v future_run \<Rightarrow>
    ('v future_run_pc \<times> 'v future_run) option" where
  "future_run_act rerun e t k s =
     (case e of
        TaskAct te \<Rightarrow> if snd k = F_Get then None else future_Run rerun te t k s
      | FutureAct fe \<Rightarrow>
          (if fe \<noteq> CallRun \<and> (fst k = T_Body \<and> fe \<noteq> CallGetResult \<or> fst k = T_Idle) then future_part fe t k s else None))"

definition future_run_machine :: "bool \<Rightarrow> ('v future_run, 'v future_run_pc, 'v future_run_ev) machine" where
  "future_run_machine rerun = \<lparr>act = future_run_act rerun,
     waiting = (\<lambda>s t. waiting (task_machine rerun) (fr_task s) t \<or> waiting future_machine (fr_future s) t),
     unwait = (\<lambda>t s. s\<lparr>fr_task := unwait (task_machine rerun) t (fr_task s),
                       fr_future := unwait future_machine t (fr_future s)\<rparr>),
     expire = (\<lambda>_. None)\<rparr>"

definition future_run_start :: "('v future_run, 'v future_run_pc) config" where
  "future_run_start = (\<lparr>fr_task = fst task_start, fr_future = fst future_start\<rparr>, \<lambda>_. (T_Idle, F_Idle))"

abbreviation future_run_reachable :: "bool \<Rightarrow> 'v future_run \<Rightarrow> (tid \<Rightarrow> 'v future_run_pc) \<Rightarrow> bool" where
  "future_run_reachable rerun s pc \<equiv> reachable (future_run_machine rerun) (\<lambda>c. c = future_run_start) (s, pc)"

section \<open>The parts\<close>

lemma task_unwait_idle: "\<not> waiting (task_machine rerun) s t \<Longrightarrow> unwait (task_machine rerun) t s = s"
  by (simp add: task_machine_def cv_waiting_def cv_unwait_def removeAll_id)

lemma future_unwait_idle: "\<not> waiting future_machine s t \<Longrightarrow> unwait future_machine t s = s"
  by (simp add: future_machine_def future_waiting_def future_unwait_def cv_waiting_def cv_unwait_def removeAll_id)

lemma task_partD: "task_part rerun te t k s = Some (k', s') \<Longrightarrow>
    snd k' = snd k \<and> fr_future s' = fr_future s \<and> task_act rerun te t (fst k) (fr_task s) = Some (fst k', fr_task s')"
  by (auto simp: task_part_def)

lemma future_partD: "future_part fe t k s = Some (k', s') \<Longrightarrow>
    fst k' = fst k \<and> fr_task s' = fr_task s \<and> future_act fe t (snd k) (fr_future s) = Some (snd k', fr_future s')"
  by (auto simp: future_part_def)

text \<open>The kinds of action.\<close>

lemma future_run_who:
  assumes "future_run_act rerun e t k s = Some (k', s')"
  obtains (task) te where "task_part rerun te t k s = Some (k', s')" "fst k \<noteq> T_SetRunning" "snd k \<noteq> F_Get"
      "fst k = T_Body \<Longrightarrow> te = E_BodyReturn \<and> snd k = F_Ran \<or> te = E_BodyThrow \<and> snd k = F_Threw \<or>
         te = E_BodyCheck \<and> snd k = F_Call \<and> fst k' \<noteq> T_SetCancelled"
  | (starts) te k1 s1 where "fst k = T_SetRunning" "snd k \<noteq> F_Get" "task_part rerun te t k s = Some (k1, s1)"
      "future_part CallRun t k1 s1 = Some (k', s')"
  | (cancelled) k1 s1 where "fst k = T_Body" "snd k = F_Call" "task_part rerun E_BodyCheck t k s = Some (k1, s1)"
      "fst k1 = T_SetCancelled" "future_part Call_throws t k1 s1 = Some (k', s')"
  | (future) fe where "future_part fe t k s = Some (k', s')" "fe \<noteq> CallRun"
      "fst k = T_Body \<and> fe \<noteq> CallGetResult \<or> fst k = T_Idle"
proof (cases e)
  case (TaskAct te)
  with assms have run: "future_Run rerun te t k s = Some (k', s')" "snd k \<noteq> F_Get"
    by (auto simp: future_run_act_def split: if_splits)
  consider "fst k = T_SetRunning" | "fst k = T_Body" | "fst k \<noteq> T_SetRunning" "fst k \<noteq> T_Body" by blast
  then show thesis
  proof cases
    case 1
    with run starts show thesis by (auto simp: future_Run_def split: bind_splits)
  next
    case 2
    show thesis
    proof (cases "te = E_BodyCheck \<and> snd k = F_Call")
      case True
      with 2 run obtain k1 s1 where "task_part rerun te t k s = Some (k1, s1)"
          "(if fst k1 = T_SetCancelled then future_part Call_throws t k1 s1 else Some (k1, s1)) = Some (k', s')"
        by (auto simp: future_Run_def split: bind_splits)
      with 2 True run(2) cancelled task show thesis by (auto split: if_splits)
    next
      case False
      with 2 run task show thesis by (auto simp: future_Run_def split: if_splits)
    qed
  next
    case 3
    then have "future_Run rerun te t k s = task_part rerun te t k s" by (cases "fst k") (simp_all add: future_Run_def)
    with run 3 task show thesis by auto
  qed
next
  case (FutureAct fe)
  with assms future show thesis by (auto simp: future_run_act_def split: if_splits)
qed

text \<open>Each action is, for either part, one of its actions or none.\<close>

lemma future_run_parts:
  assumes "future_run_act rerun e t k s = Some (k', s')"
  shows "fr_task s' = fr_task s \<and> fst k' = fst k \<or> (\<exists>te. task_act rerun te t (fst k) (fr_task s) = Some (fst k', fr_task s'))"
    and "fr_future s' = fr_future s \<and> snd k' = snd k \<or> (\<exists>fe. future_act fe t (snd k) (fr_future s) = Some (snd k', fr_future s'))"
proof -
  from assms have "(fr_task s' = fr_task s \<and> fst k' = fst k \<or> (\<exists>te. task_act rerun te t (fst k) (fr_task s) = Some (fst k', fr_task s'))) \<and>
    (fr_future s' = fr_future s \<and> snd k' = snd k \<or> (\<exists>fe. future_act fe t (snd k) (fr_future s) = Some (snd k', fr_future s')))"
  proof (cases rule: future_run_who)
    case (task te)
    from task_partD [OF task(1)] show ?thesis by (auto simp del: task_act.simps)
  next
    case (starts te k1 s1)
    from task_partD [OF starts(3)] future_partD [OF starts(4)] show ?thesis by (auto simp del: task_act.simps)
  next
    case (cancelled k1 s1)
    from task_partD [OF cancelled(3)] future_partD [OF cancelled(5)] show ?thesis by (auto simp del: task_act.simps)
  next
    case (future fe)
    from future_partD [OF future(1)] show ?thesis by auto
  qed
  then show "fr_task s' = fr_task s \<and> fst k' = fst k \<or> (\<exists>te. task_act rerun te t (fst k) (fr_task s) = Some (fst k', fr_task s'))"
    and "fr_future s' = fr_future s \<and> snd k' = snd k \<or> (\<exists>fe. future_act fe t (snd k) (fr_future s) = Some (snd k', fr_future s'))"
    by blast+
qed

text \<open>The projections; they need no invariant.\<close>

interpretation run_any: machine_invariant "future_run_machine rerun" "\<lambda>c. c = future_run_start" "\<lambda>_ _. True" for rerun
  by unfold_locales simp_all

interpretation run_task: machine_projection "future_run_machine rerun" "\<lambda>c. c = future_run_start" "\<lambda>_ _. True"
    "task_machine rerun" fr_task fst for rerun
proof (unfold_locales, goal_cases)
  case (1 s pc t e k s')
  then have awake: "\<not> waiting (task_machine rerun) (fr_task s) t" and act: "future_run_act rerun e t (pc t) s = Some (k, s')"
    by (auto simp: future_run_machine_def)
  from future_run_parts(1) [OF act] show ?case
  proof (elim disjE exE)
    fix te assume "task_act rerun te t (fst (pc t)) (fr_task s) = Some (fst k, fr_task s')"
    then show ?thesis using step_act [of "task_machine rerun" "fr_task s" t te "fst \<circ> pc"] awake by (simp add: task_machine_def)
  qed simp
next
  case (2 s pc t)
  then show ?case using task_unwait_idle [of rerun "fr_task s" t] by (simp add: future_run_machine_def)
next
  case (3 s pc t k)
  then show ?case by (simp add: future_run_machine_def)
qed

interpretation run_future: machine_projection "future_run_machine rerun" "\<lambda>c. c = future_run_start" "\<lambda>_ _. True"
    future_machine fr_future snd for rerun
proof (unfold_locales, goal_cases)
  case (1 s pc t e k s')
  then have awake: "\<not> waiting future_machine (fr_future s) t" and act: "future_run_act rerun e t (pc t) s = Some (k, s')"
    by (auto simp: future_run_machine_def)
  from future_run_parts(2) [OF act] show ?case
  proof (elim disjE exE)
    fix fe assume "future_act fe t (snd (pc t)) (fr_future s) = Some (snd k, fr_future s')"
    then show ?thesis using step_act [of future_machine "fr_future s" t fe "snd \<circ> pc"] awake by (simp add: future_machine_def)
  qed simp
next
  case (2 s pc t)
  then show ?case using future_unwait_idle [of "fr_future s" t] by (simp add: future_run_machine_def)
next
  case (3 s pc t k)
  then show ?case by (simp add: future_run_machine_def)
qed

lemma run_parts_reachable:
  assumes "future_run_reachable rerun s pc"
  shows "reachable (task_machine rerun) (\<lambda>c. c = task_start) (fr_task s, fst \<circ> pc)"
    and "future_reachable (fr_future s) (snd \<circ> pc)"
proof -
  show "reachable (task_machine rerun) (\<lambda>c. c = task_start) (fr_task s, fst \<circ> pc)"
    by (rule run_task.proj_reachable [OF assms]) (auto simp: future_run_start_def task_start_def comp_def)
  show "future_reachable (fr_future s) (snd \<circ> pc)"
    by (rule run_future.proj_reachable [OF assms]) (auto simp: future_run_start_def future_init_def future_start_def comp_def)
qed

section \<open>The result and the state of the task\<close>

abbreviation returned :: "'v future_sys \<Rightarrow> bool" where
  "returned fs \<equiv> ft_isResultReturned (fs_task fs)"

text \<open>What the program counters of a thread say of the result, for a task that is run once.\<close>

definition calls_ok :: "'v future_sys \<Rightarrow> 'v future_run_pc \<Rightarrow> bool" where
  "calls_ok fs k \<longleftrightarrow> (snd k \<in> {F_Lock, F_Call, F_Flag} \<longrightarrow> fst k = T_Body) \<and>
     (fst k = T_Body \<longrightarrow> snd k \<in> {F_Lock, F_Call, F_Threw} \<and> fs_calls fs = [] \<or>
        snd k = F_Flag \<and> length (fs_calls fs) = 1 \<or> snd k = F_Ran \<and> length (fs_calls fs) = 1 \<and> returned fs) \<and>
     (fst k \<in> {T_RunCheck, T_SetRunning, T_SetCancelled, T_RunThrew} \<longrightarrow> fs_calls fs = []) \<and>
     (fst k = T_SetFinished \<longrightarrow> length (fs_calls fs) = 1 \<and> returned fs)"

definition result_ok :: "task_sys \<Rightarrow> 'v future_sys \<Rightarrow> bool" where
  "result_ok ts fs \<longleftrightarrow> (ts_runs ts = 0 \<longrightarrow> fs_calls fs = []) \<and>
     (tb_state (ts_task ts) = Task_FINISHED \<longrightarrow> length (fs_calls fs) = 1 \<and> returned fs) \<and>
     (tb_state (ts_task ts) = Task_CANCELLED \<longrightarrow> fs_calls fs = [])"

definition future_run_inv :: "'v future_run \<Rightarrow> (tid \<Rightarrow> 'v future_run_pc) \<Rightarrow> bool" where
  "future_run_inv s pc \<longleftrightarrow> once_inv (fr_task s) (fst \<circ> pc) \<and> future_inv (fr_future s) (snd \<circ> pc) \<and>
     (\<forall>t. calls_ok (fr_future s) (pc t)) \<and> result_ok (fr_task s) (fr_future s)"

lemma calls_ok_frame:
  "calls_ok fs k \<Longrightarrow> fs_calls fs' = fs_calls fs \<Longrightarrow> returned fs' = returned fs \<Longrightarrow> calls_ok fs' k"
  "result_ok ts fs \<Longrightarrow> fs_calls fs' = fs_calls fs \<Longrightarrow> returned fs' = returned fs \<Longrightarrow> result_ok ts fs'"
  by (simp_all add: calls_ok_def result_ok_def)

lemma calls_ok_outside:
  "calls_ok fs k \<Longrightarrow> \<not> in_run (fst k) \<Longrightarrow> fst k \<noteq> T_RunThrew \<Longrightarrow> calls_ok fs' k"
  by (cases "fst k") (simp_all add: calls_ok_def)

lemma future_step_not_ready:
  "future_act fe t f fs = Some (f', fs') \<Longrightarrow> fe \<noteq> CallRun \<Longrightarrow> fe \<noteq> CallGetResult \<Longrightarrow> \<not> future_ready f"
  by (cases fe; cases f) (auto simp: future_act_def future_ready_def split: if_splits)

text \<open>An action of \<open>TaskBase\<close> outside the body.\<close>

lemma task_part_ok:
  assumes "task_move False t ts k k' ts'" and "k \<noteq> T_SetRunning" and "k \<noteq> T_Body"
    and "calls_ok fs (k, f)" and "result_ok ts fs"
  shows "calls_ok fs (k', f)" "result_ok ts' fs"
  using assms by (cases rule: task_move.cases; auto simp: calls_ok_def result_ok_def)+

text \<open>The end of the body.\<close>

lemma body_part_ok:
  assumes "task_act False te t T_Body ts = Some (k', ts')" and "calls_ok fs (T_Body, f)"
    and "te = E_BodyReturn \<and> f = F_Ran \<or> te = E_BodyThrow \<and> f = F_Threw \<or> te = E_BodyCheck \<and> f = F_Call \<and> k' \<noteq> T_SetCancelled"
  shows "calls_ok fs (k', f) \<and> ts_runs ts' = ts_runs ts \<and> ts_task ts' = ts_task ts"
proof -
  from assms(3) consider (ran) "te = E_BodyReturn" "f = F_Ran" | (threw) "te = E_BodyThrow" "f = F_Threw"
    | (check) "te = E_BodyCheck" "f = F_Call" "k' \<noteq> T_SetCancelled" by blast
  then show ?thesis
  proof cases
    case ran
    with assms(1) have "k' = T_SetFinished" "ts_runs ts' = ts_runs ts" "ts_task ts' = ts_task ts" by auto
    with ran assms(2) show ?thesis by (simp add: calls_ok_def)
  next
    case threw
    with assms(1) have "k' = T_RunThrew" "ts_runs ts' = ts_runs ts" "ts_task ts' = ts_task ts" by auto
    with threw assms(2) show ?thesis by (simp add: calls_ok_def)
  next
    case check
    with assms(1) have "k' = T_Body" "ts_runs ts' = ts_runs ts" "ts_task ts' = ts_task ts"
      by (auto simp: TaskBase_CheckCancellation_def split: if_splits)
    with check assms(2) show ?thesis by (simp add: calls_ok_def)
  qed
qed

text \<open>An action inside \<open>DoRun\<close>, and one of \<open>GetResult\<close>.\<close>

lemma future_part_body:
  assumes "future_move t fs f f' fs'" and "\<not> future_ready f" and "calls_ok fs (T_Body, f)"
  shows "calls_ok fs' (T_Body, f')"
  using assms by (cases rule: future_move.cases) (auto simp: calls_ok_def)

lemma future_part_idle:
  assumes "future_move t fs f f' fs'" and "calls_ok fs (T_Idle, f)" and "f' = F_Lock \<longrightarrow> f = F_Lock"
  shows "calls_ok fs' (T_Idle, f') \<and> fs_calls fs' = fs_calls fs \<and> returned fs' = returned fs"
  using assms by (cases rule: future_move.cases) (auto simp: calls_ok_def)

lemma only_CallRun_locks:
  assumes "future_act fe t f fs = Some (f', fs')" and "m_isInit (cv_mutex (future_cond fs))" and "fe \<noteq> CallRun"
  shows "f' \<noteq> F_Lock"
proof
  assume lock: "f' = F_Lock"
  with future_act_move [OF assms(1,2)] have "future_ready f" by (auto elim: future_move.cases)
  with future_step_not_ready [OF assms(1,3)] have "fe = CallGetResult" by blast
  with assms(1) lock show False by (auto simp: future_act_def split: if_splits)
qed

lemma future_run_act_ok:
  assumes inv: "future_run_inv s pc" and act: "future_run_act False e t (pc t) s = Some (k, s')"
  shows "calls_ok (fr_future s') k" "result_ok (fr_task s') (fr_future s')"
    "fst (pc t) = T_Body \<or> fs_calls (fr_future s') = fs_calls (fr_future s) \<and> returned (fr_future s') = returned (fr_future s)"
proof -
  from inv have ok: "calls_ok (fr_future s) (fst (pc t), snd (pc t))" and res: "result_ok (fr_task s) (fr_future s)"
    and free: "cv_free (tb_cancelCondition (ts_task (fr_task s)))" and st: "pc_state_ok (fr_task s) (fst (pc t))"
    and never: "never_run (fr_task s)" and init: "m_isInit (cv_mutex (future_cond (fr_future s)))"
    by (auto simp: future_run_inv_def once_inv_def task_inv_def future_inv_def)
  have "calls_ok (fr_future s') k \<and> result_ok (fr_task s') (fr_future s') \<and>
    (fst (pc t) = T_Body \<or> fs_calls (fr_future s') = fs_calls (fr_future s) \<and> returned (fr_future s') = returned (fr_future s))"
    using act
  proof (cases rule: future_run_who)
    case (task te)
    from task_partD [OF task(1)] have p: "k = (fst k, snd (pc t))" "fr_future s' = fr_future s"
      "task_act False te t (fst (pc t)) (fr_task s) = Some (fst k, fr_task s')" by (auto simp: prod_eq_iff)
    show ?thesis
    proof (cases "fst (pc t) = T_Body")
      case True
      have "calls_ok (fr_future s) (fst k, snd (pc t)) \<and> ts_runs (fr_task s') = ts_runs (fr_task s) \<and>
          ts_task (fr_task s') = ts_task (fr_task s)"
        using body_part_ok [of te t "fr_task s" "fst k" "fr_task s'" "fr_future s" "snd (pc t)"] p(3) ok task(4) True by simp
      then have "calls_ok (fr_future s) k" "result_ok (fr_task s') (fr_future s)"
        using p(1) res unfolding result_ok_def by metis+
      with p(2) True show ?thesis by simp
    next
      case False
      from task_part_ok [OF task_act_move [OF p(3) free] task(2) False ok res] p(1)
      have "calls_ok (fr_future s) k" "result_ok (fr_task s') (fr_future s)" by metis+
      with p(2) show ?thesis by simp
    qed
  next
    case (starts te k1 s1)
    from task_partD [OF starts(3)] future_partD [OF starts(4)] have p: "fr_future s1 = fr_future s" "snd k1 = snd (pc t)"
      "fst k = fst k1" "fr_task s' = fr_task s1" "future_act CallRun t (snd (pc t)) (fr_future s) = Some (snd k, fr_future s')"
      "task_act False te t T_SetRunning (fr_task s) = Some (fst k, fr_task s')" using starts(1) by auto
    from p(5) have f: "snd k = F_Lock" "fr_future s' = fr_future s" by (auto simp: future_act_def split: if_splits)
    from task_act_move [OF p(6) free] have "fst k = T_Body" "tb_state (ts_task (fr_task s')) = Task_RUNNING"
      by (cases, simp)+
    moreover have "fs_calls (fr_future s) = []" using ok starts(1) by (simp add: calls_ok_def)
    ultimately show ?thesis using f by (simp add: calls_ok_def result_ok_def)
  next
    case (cancelled k1 s1)
    from task_partD [OF cancelled(3)] future_partD [OF cancelled(5)] have p: "fst k = T_SetCancelled" "fr_task s' = fr_task s1"
      "future_act Call_throws t F_Call (fr_future s) = Some (snd k, fr_future s')"
      "task_act False E_BodyCheck t T_Body (fr_task s) = Some (T_SetCancelled, fr_task s')"
      using cancelled(1,2,4) by auto
    from p(3) have f: "snd k = F_Threw" "fs_calls (fr_future s') = fs_calls (fr_future s)"
      by (auto simp: future_act_def dest!: arg_cong [of _ "fr_future s'" fs_calls])
    from p(4) have "ts_task (fr_task s') = ts_task (fr_task s)"
      by (auto simp: TaskBase_CheckCancellation_def split: if_splits dest!: arg_cong [of _ "fr_task s'" ts_task])
    moreover have "fs_calls (fr_future s) = []" "tb_state (ts_task (fr_task s)) = Task_RUNNING"
      using ok st cancelled(1,2) by (auto simp: calls_ok_def pc_state_ok_def)
    ultimately show ?thesis using f p(1) cancelled(1) by (simp add: calls_ok_def result_ok_def)
  next
    case (future fe)
    from future_partD [OF future(1)] have p: "k = (fst (pc t), snd k)" "fr_task s' = fr_task s"
      "future_act fe t (snd (pc t)) (fr_future s) = Some (snd k, fr_future s')" by (auto simp: prod_eq_iff)
    note mv = future_act_move [OF p(3) init]
    show ?thesis
    proof (cases "fst (pc t) = T_Body")
      case True
      with future have "fe \<noteq> CallGetResult" by simp
      with future_part_body [OF mv] future_step_not_ready [OF p(3) future(2)] ok True
      have "calls_ok (fr_future s') (T_Body, snd k)" by simp
      then have "calls_ok (fr_future s') k" using p(1) True by metis
      moreover have "tb_state (ts_task (fr_task s)) = Task_RUNNING" "ts_runs (fr_task s) \<noteq> 0"
        using st never True by (auto simp: pc_state_ok_def never_run_def)
      ultimately show ?thesis using p(2) True by (simp add: result_ok_def)
    next
      case False
      with future(3) have k: "fst (pc t) = T_Idle" by simp
      have "snd k \<noteq> F_Lock" by (rule only_CallRun_locks [OF p(3) init future(2)])
      with future_part_idle [OF mv] ok k have i: "calls_ok (fr_future s') (T_Idle, snd k)"
        "fs_calls (fr_future s') = fs_calls (fr_future s)" "returned (fr_future s') = returned (fr_future s)" by simp_all
      then have "calls_ok (fr_future s') k" using p(1) k by metis
      with i p(2) calls_ok_frame(2) [OF res] show ?thesis by simp
    qed
  qed
  then show "calls_ok (fr_future s') k" "result_ok (fr_task s') (fr_future s')"
    "fst (pc t) = T_Body \<or> fs_calls (fr_future s') = fs_calls (fr_future s) \<and> returned (fr_future s') = returned (fr_future s)"
    by blast+
qed

lemma future_run_act_inv:
  assumes inv: "future_run_inv s pc" and act: "future_run_act False e t (pc t) s = Some (k, s')"
    and awake: "\<not> future_waiting (fr_future s) t"
  shows "future_run_inv s' (pc(t := k))"
proof -
  from inv have one: "once_inv (fr_task s) (fst \<circ> pc)" and fut: "future_inv (fr_future s) (snd \<circ> pc)"
    and ok: "\<And>u. calls_ok (fr_future s) (pc u)" by (auto simp: future_run_inv_def)
  have same: "fst k = fst (pc t) \<Longrightarrow> fst \<circ> pc(t := k) = fst \<circ> pc" "snd k = snd (pc t) \<Longrightarrow> snd \<circ> pc(t := k) = snd \<circ> pc"
    by (auto simp: fun_eq_iff)
  have "once_inv (fr_task s') (fst \<circ> pc(t := k))"
    using future_run_parts(1) [OF act] same(1) one once_act_inv [OF one, of _ t "fst k" "fr_task s'"]
    by (metis comp_apply proj_upd)
  moreover have "future_inv (fr_future s') (snd \<circ> pc(t := k))"
    using future_run_parts(2) [OF act] same(2) fut future_act_inv [OF fut _ awake, of _ "snd k" "fr_future s'"]
    by (metis comp_apply proj_upd)
  moreover have "calls_ok (fr_future s') (pc u)" if "u \<noteq> t" for u
  proof (cases "fst (pc t) = T_Body")
    case True
    then have "\<not> in_run (fst (pc u))" "fst (pc u) \<noteq> T_RunThrew"
      using one that by (auto simp: once_inv_def task_inv_def once_ok_def pc_state_ok_def; metis in_run_simps(4))+
    with ok show ?thesis by (metis calls_ok_outside)
  next
    case False
    with future_run_act_ok(3) [OF inv act] ok calls_ok_frame(1) show ?thesis by metis
  qed
  ultimately show ?thesis using future_run_act_ok(1,2) [OF inv act] by (simp add: future_run_inv_def)
qed

lemma future_run_start_inv: "future_run_inv (fst future_run_start) (snd future_run_start)"
  (is "future_run_inv (fst (?r :: ('v future_run, 'v future_run_pc) config)) _")
proof -
  let ?f = "future_start :: ('v future_sys, 'v future_pc) config"
  have "once_inv (fst task_start) (snd task_start)" using once.init_inv [of "fst task_start" "snd task_start"] by simp
  moreover have "future_inv (fst ?f) (snd ?f)"
    using future_start_inv [of "fst ?f" "snd ?f"] by (simp add: future_init_def)
  moreover have "fst \<circ> snd ?r = snd task_start" "snd \<circ> snd ?r = snd ?f"
    "fr_task (fst ?r) = fst task_start" "fr_future (fst ?r) = fst ?f"
    by (auto simp: future_run_start_def task_start_def future_start_def)
  moreover have "\<forall>t. calls_ok (fst ?f) (snd ?r t)" "result_ok (fst task_start) (fst ?f)"
    by (auto simp: future_run_start_def calls_ok_def result_ok_def future_start_def task_start_def TaskBase_ctor_def)
  ultimately show ?thesis by (simp only: future_run_inv_def) simp
qed

lemma future_run_unwait_inv:
  assumes "future_run_inv s pc"
  shows "future_run_inv (unwait (future_run_machine rerun) t s) pc"
proof -
  let ?ts = "unwait (task_machine rerun) t (fr_task s)" let ?fs = "unwait future_machine t (fr_future s)"
  have eq: "ts_runs ?ts = ts_runs (fr_task s)" "tb_state (ts_task ?ts) = tb_state (ts_task (fr_task s))"
    "fs_calls ?fs = fs_calls (fr_future s)" "returned ?fs = returned (fr_future s)"
    by (simp_all add: task_machine_def future_machine_def future_unwait_def)
  have "unwait (task_machine rerun) t (fr_task s) = unwait (task_machine False) t (fr_task s)"
    by (simp add: task_machine_def)
  then have "once_inv ?ts (fst \<circ> pc)"
    using assms once.wakeup_inv [of "fr_task s" "fst \<circ> pc" t] task_unwait_idle [of False "fr_task s" t]
    by (cases "waiting (task_machine False) (fr_task s) t") (auto simp: future_run_inv_def)
  moreover have "future_inv ?fs (snd \<circ> pc)"
    using assms future_unwait_inv by (auto simp: future_run_inv_def future_machine_def)
  moreover have "\<forall>u. calls_ok ?fs (pc u)" "result_ok ?ts ?fs"
    using assms calls_ok_frame(1) [OF _ eq(3,4)] eq by (auto simp: future_run_inv_def result_ok_def)
  ultimately show ?thesis by (simp add: future_run_inv_def future_run_machine_def)
qed

interpretation future_run: machine_invariant "future_run_machine False" "\<lambda>c. c = future_run_start" future_run_inv
proof (unfold_locales, goal_cases)
  case (1 s pc)
  then show ?case using future_run_start_inv by (metis fst_conv snd_conv)
next
  case (2 s pc t e k s')
  then show ?case using future_run_act_inv [of s pc e t k s'] by (simp add: future_run_machine_def future_machine_def)
next
  case (3 s pc t)
  then show ?case by (simp add: future_run_unwait_inv)
next
  case (4 s pc t k)
  then show ?case by (simp add: future_run_machine_def)
qed

text \<open>What the invariant says of \<open>GetResult\<close>.\<close>

lemma future_run_inv_result:
  assumes "future_run_inv s pc"
  shows "snd (pc t) = F_Got r \<Longrightarrow> \<exists>v \<in> set (fs_calls (fr_future s)). r = Some v"
    and "returned (fr_future s) \<longrightarrow> fs_calls (fr_future s) \<noteq> []"
    and "ft_result (fs_task (fr_future s)) = (if fs_calls (fr_future s) = [] then None else Some (last (fs_calls (fr_future s))))"
  using assms by (auto simp: future_run_inv_def future_inv_def future_pc_ok_def)

section \<open>Properties\<close>

text \<open>
  C35: the result of a task that is run once agrees with its state.  When it is FINISHED the result is there:
  \<open>Call\<close> has returned exactly once, \<open>m_result\<close> holds that value, and every \<open>GetResult\<close> that has returned gave
  it; when it is CANCELLED, \<open>Call\<close> has not returned, the flag is not set and no \<open>GetResult\<close> has returned.
\<close>

theorem future_result_agrees_with_state:
  assumes "future_run_reachable False s pc"
  shows "(tb_state (ts_task (fr_task s)) = Task_FINISHED \<longrightarrow> (\<exists>v. fs_calls (fr_future s) = [v] \<and>
      ft_isResultReturned (fs_task (fr_future s)) \<and> ft_result (fs_task (fr_future s)) = Some v \<and>
      (\<forall>t r. snd (pc t) = F_Got r \<longrightarrow> r = Some v))) \<and>
    (tb_state (ts_task (fr_task s)) = Task_CANCELLED \<longrightarrow> fs_calls (fr_future s) = [] \<and>
      \<not> ft_isResultReturned (fs_task (fr_future s)) \<and> (\<forall>t r. snd (pc t) \<noteq> F_Got r))"
proof -
  have inv: "future_run_inv s pc" by (rule future_run.reachable_inv [OF assms])
  then have res: "result_ok (fr_task s) (fr_future s)" by (simp add: future_run_inv_def)
  have "\<exists>v. fs_calls (fr_future s) = [v]" "returned (fr_future s)" if "tb_state (ts_task (fr_task s)) = Task_FINISHED"
    using res that by (auto simp: result_ok_def length_Suc_conv)
  moreover have "fs_calls (fr_future s) = []" if "tb_state (ts_task (fr_task s)) = Task_CANCELLED"
    using res that by (auto simp: result_ok_def)
  ultimately show ?thesis using future_run_inv_result [OF inv] by fastforce
qed

text \<open>A task that is over without a result: it was cancelled, or \<open>Call\<close> threw.\<close>

definition no_result :: "'v future_run \<Rightarrow> (tid \<Rightarrow> 'v future_run_pc) \<Rightarrow> bool" where
  "no_result s pc \<longleftrightarrow> tb_state (ts_task (fr_task s)) = Task_CANCELLED \<or> (\<exists>t. fst (pc t) = T_RunThrew)"

lemma stopped_state_kept:
  assumes "task_move False t ts k k' ts'" and "TaskBase_IsStopState (ts_task ts)" and "once_ok ts k"
  shows "tb_state (ts_task ts') = tb_state (ts_task ts)"
  using assms by cases (auto simp: once_ok_def)

lemma threw_stays:
  assumes "future_run_act rerun e t k s = Some (k', s')" shows "fst k \<noteq> T_RunThrew"
  using assms
proof (cases rule: future_run_who)
  case (task te)
  from task_partD [OF task(1)] show ?thesis by (cases te) auto
qed auto

lemma no_result_act:
  assumes inv: "future_run_inv s pc" and none: "no_result s pc" and act: "future_run_act False e t (pc t) s = Some (k, s')"
  shows "no_result s' (pc(t := k))"
proof (cases "\<exists>u. fst (pc u) = T_RunThrew")
  case True
  then obtain u where "fst (pc u) = T_RunThrew" by blast
  moreover from this threw_stays [OF act] have "u \<noteq> t" by auto
  ultimately show ?thesis unfolding no_result_def by (intro disjI2 exI [of _ u]) simp
next
  case False
  with none have c: "tb_state (ts_task (fr_task s)) = Task_CANCELLED" by (simp add: no_result_def)
  from inv have "once_ok (fr_task s) (fst (pc t))" "cv_free (tb_cancelCondition (ts_task (fr_task s)))"
    by (auto simp: future_run_inv_def once_inv_def task_inv_def)
  with future_run_parts(1) [OF act] c have "tb_state (ts_task (fr_task s')) = Task_CANCELLED"
    using stopped_state_kept task_act_move by (metis TaskBase_IsStopState_def)
  then show ?thesis by (simp add: no_result_def)
qed

lemma no_result_future:
  "machine_invariant (future_run_machine False) (\<lambda>c. c = (s0, pc0) \<and> future_run_inv s0 pc0 \<and> no_result s0 pc0)
     (\<lambda>s pc. future_run_inv s pc \<and> no_result s pc)"
proof (unfold_locales, goal_cases)
  case (1 s pc)
  then show ?case by simp
next
  case (2 s pc t e k s')
  then show ?case
    using future_run.act_inv [of s pc t e k s'] no_result_act [of s pc e t k s'] by (simp add: future_run_machine_def)
next
  case (3 s pc t)
  then show ?case
    using future_run_unwait_inv [of s pc False t] by (simp add: no_result_def future_run_machine_def task_machine_def)
next
  case (4 s pc t k)
  then show ?case by (simp add: future_run_machine_def)
qed

lemma no_result_no_value:
  assumes "future_run_inv s pc" and "no_result s pc"
  shows "fs_calls (fr_future s) = []"
  using assms unfolding no_result_def by (auto simp: future_run_inv_def result_ok_def calls_ok_def)

text \<open>
  C36: \<open>GetResult\<close> on a task that has no result waits for ever.  Once a task that is run once is CANCELLED, or its
  \<open>Call\<close> has thrown, the flag is set in no future and no \<open>GetResult\<close> returns, called before or later.
\<close>

theorem cancelled_future_blocks_GetResult:
  assumes "future_run_reachable False s pc"
    and "tb_state (ts_task (fr_task s)) = Task_CANCELLED \<or> (\<exists>t. fst (pc t) = T_RunThrew)"
    and "reachable (future_run_machine False) (\<lambda>c. c = (s, pc)) (s', pc')"
  shows "\<not> ft_isResultReturned (fs_task (fr_future s')) \<and> (\<forall>t r. snd (pc' t) \<noteq> F_Got r)"
proof -
  have "future_run_inv s pc" "no_result s pc"
    using future_run.reachable_inv [OF assms(1)] assms(2) by (simp_all add: no_result_def)
  with assms(3) have "reachable (future_run_machine False) (\<lambda>c. c = (s, pc) \<and> future_run_inv s pc \<and> no_result s pc) (s', pc')"
    by simp
  from machine_invariant.reachable_inv [OF no_result_future this]
  have inv: "future_run_inv s' pc'" and "fs_calls (fr_future s') = []" using no_result_no_value by blast+
  with future_run_inv_result [OF inv] show ?thesis by fastforce
qed

section \<open>Witnesses\<close>

text \<open>Thread 1 runs the task, thread 2 waits for its result, thread 3 cancels.\<close>

theorem future_result_agrees_with_state_witness:
  "\<exists>(s :: nat future_run) pc. future_run_reachable False s pc \<and> tb_state (ts_task (fr_task s)) = Task_FINISHED \<and>
     snd (pc 2) = F_Got (Some 7) \<and> ft_result (fs_task (fr_future s)) = Some 7"
proof -
  have "run_check (future_run_machine False)
      [Act 2 (FutureAct CallGetResult), Act 2 (FutureAct F_Step), Act 1 (TaskAct E_Run), Act 1 (TaskAct E_Step), Act 1 (TaskAct E_Step),
       Act 1 (FutureAct F_Step), Act 1 (FutureAct (Call_returns 7)), Act 1 (FutureAct F_Step), Act 1 (TaskAct E_BodyReturn),
       Act 1 (TaskAct E_Step), Act 2 (FutureAct F_Step)]
      (future_run_start :: (nat future_run, nat future_run_pc) config)
      (\<lambda>s pc. tb_state (ts_task (fr_task s)) = Task_FINISHED \<and> snd (pc 2) = F_Got (Some 7))"
    by code_simp
  from run_check_reachable [where init = "\<lambda>c. c = future_run_start", OF this refl]
  obtain s :: "nat future_run" and pc where r: "future_run_reachable False s pc"
      "tb_state (ts_task (fr_task s)) = Task_FINISHED" "snd (pc 2) = F_Got (Some 7)" by blast
  with future_result_agrees_with_state [OF r(1)] show ?thesis by fastforce
qed

theorem cancelled_future_blocks_GetResult_witness:
  "\<exists>(s :: nat future_run) pc. future_run_reachable False s pc \<and> fst (pc 3) = T_CancelReturned \<and> snd (pc 2) = F_Get \<and>
     (\<forall>s' pc'. reachable (future_run_machine False) (\<lambda>c. c = (s, pc)) (s', pc') \<longrightarrow> (\<forall>r. snd (pc' 2) \<noteq> F_Got r))"
proof -
  have "run_check (future_run_machine False)
      [Act 2 (FutureAct CallGetResult), Act 2 (FutureAct F_Step), Act 1 (TaskAct E_Run), Act 1 (TaskAct E_Step), Act 1 (TaskAct E_Step),
       Act 1 (FutureAct F_Step), Act 3 (TaskAct E_Cancel), Act 1 (TaskAct E_BodyCheck), Act 1 (TaskAct E_Step), Act 3 (TaskAct E_Step)]
      (future_run_start :: (nat future_run, nat future_run_pc) config)
      (\<lambda>s pc. tb_state (ts_task (fr_task s)) = Task_CANCELLED \<and> fst (pc 3) = T_CancelReturned \<and> snd (pc 2) = F_Get)"
    by code_simp
  from run_check_reachable [where init = "\<lambda>c. c = future_run_start", OF this refl]
  obtain s :: "nat future_run" and pc where r: "future_run_reachable False s pc"
      "tb_state (ts_task (fr_task s)) = Task_CANCELLED" "fst (pc 3) = T_CancelReturned" "snd (pc 2) = F_Get" by blast
  with cancelled_future_blocks_GetResult [OF r(1)] show ?thesis by blast
qed

end
