(* ===== verification/ScheduledMachine.thy ===== *)
theory ScheduledMachine
  imports ScheduledThreadPool Projection
begin

text \<open>
  The scheduled pool under concurrency: the threads of its timers beside any number of clients that
  add, cancel and shut down.  Theory \<open>ScheduledThreadPool\<close> runs each call to its end; here a call is the
  sequence of its atomic actions, and the actions inside a timer are those of \<open>handler_machine\<close>.
  The adds are the functor forms, whose tasks belong to one timer, so that the timers share nothing:
  seen from one timer, every execution of the pool is an execution of that timer alone.
\<close>

section \<open>State and program counters\<close>

text \<open>
  \<open>sm_turns\<close> is the log of the values of \<open>current_index\<close>, \<open>sm_won\<close> the argument of the
  \<open>ShutDownHelper\<close> whose exchange succeeded.
\<close>

record sched_sys =
  sm_pool :: "handler_sys scheduled_pool"
  sm_turns :: "nat list"
  sm_won :: "bool option"

text \<open>
  The requests are those of the functor forms of the add functions.  \<open>SC_Load\<close>, \<open>SC_Turn\<close>,
  \<open>SC_Call\<close>, \<open>SC_InAdd\<close> are the load of the flag, the \<open>fetch_add\<close>, the call of the timer and the
  actions inside it; \<open>SC_Added\<close> is the return of the add, of the task (its timer and its name there) or
  of null; \<open>SC_Shut\<close> to \<open>SC_InShut\<close> are \<open>ShutDownHelper\<close>, with the timer the loop is at; \<open>SC_InCancel\<close>
  is a client inside \<open>Cancel\<close> of a task of a timer.
\<close>

datatype add_request = AddCron TimeValue | AddCycle TimeValue bool

datatype sched_client = SC_Ready | SC_Load add_request | SC_Turn add_request | SC_Call nat add_request
  | SC_InAdd nat task_id | SC_Added "(nat \<times> task_id) option" | SC_Shut bool | SC_SetStop bool | SC_Loop bool nat
  | SC_CallShut bool nat | SC_InShut bool nat | SC_ShutReturned | SC_InCancel nat

text \<open>A client has, for every timer, the place where it stands in the code of that timer.\<close>

datatype sched_pc = TimerThread timer_pc | ClientThread sched_client "nat \<Rightarrow> user_pc"

datatype sched_ev = PoolAdd add_request | PoolShutDown bool | PoolCancel nat task_id | PoolStep TimeValue nat bool | TaskEnds body_outcome

definition client_ready :: "sched_client \<Rightarrow> bool" where
  "client_ready c \<longleftrightarrow> (case c of SC_Ready \<Rightarrow> True | SC_Added _ \<Rightarrow> True | SC_ShutReturned \<Rightarrow> True | _ \<Rightarrow> False)"

fun request_ev :: "TimeValue \<Rightarrow> add_request \<Rightarrow> handler_ev" where
  "request_ev clk (AddCron delay) = CallCron clk delay"
| "request_ev clk (AddCycle period is_run_now) = CallCycle clk period is_run_now"

section \<open>Actions\<close>

definition set_timer :: "nat \<Rightarrow> handler_sys \<Rightarrow> sched_sys \<Rightarrow> sched_sys" where
  "set_timer i h s = s\<lparr>sm_pool := (sm_pool s)\<lparr>sc_handlers := (sc_handlers (sm_pool s))[i := Some h]\<rparr>\<rparr>"

definition timer_of :: "nat \<Rightarrow> sched_sys \<Rightarrow> handler_sys" where
  "timer_of i s = the (sc_handlers (sm_pool s) ! i)"

text \<open>One action inside timer \<open>i\<close>.\<close>

definition in_timer :: "nat \<Rightarrow> handler_ev \<Rightarrow> tid \<Rightarrow> handler_pc \<Rightarrow> sched_sys \<Rightarrow> (handler_pc \<times> sched_sys) option" where
  "in_timer i e t k s =
     (if i < length (sc_handlers (sm_pool s)) then
        (case sc_handlers (sm_pool s) ! i of
           None \<Rightarrow> None
         | Some h \<Rightarrow> map_option (\<lambda>(k', h'). (k', set_timer i h' s)) (handler_act False e t k h))
      else None)"

definition call_timer :: "nat \<Rightarrow> handler_ev \<Rightarrow> tid \<Rightarrow> (user_pc \<Rightarrow> sched_client) \<Rightarrow> (nat \<Rightarrow> user_pc) \<Rightarrow> sched_sys \<Rightarrow>
    (sched_client \<times> (nat \<Rightarrow> user_pc) \<times> sched_sys) option" where
  "call_timer i e t c u s =
     do { (k, s') \<leftarrow> in_timer i e t (User (u i)) s;
          case k of User v \<Rightarrow> Some (c v, u(i := v), s') | Timer _ \<Rightarrow> None }"

text \<open>
  \<open>DoAddCronTimerTask\<close> and \<open>DoAddCycleTimerTask\<close> of the pool.  A division by zero and an index out
  of range are \<open>None\<close>.  The task that a functor form makes is the next one of the timer that gets it.
\<close>

fun sched_add_act :: "TimeValue \<Rightarrow> nat \<Rightarrow> tid \<Rightarrow> sched_client \<Rightarrow> (nat \<Rightarrow> user_pc) \<Rightarrow> sched_sys \<Rightarrow>
    (sched_client \<times> (nat \<Rightarrow> user_pc) \<times> sched_sys) option" where
  "sched_add_act clk n t (SC_Load r) u s =
     Some (if sc_isRequestShutDown (sm_pool s) then SC_Added None else SC_Turn r, u, s)"
| "sched_add_act clk n t (SC_Turn r) u s =
     (let p = sm_pool s; i = current_index p in
      if ScheduledThreadPool_GetThreadNum p = 0 \<or> i < 0 \<or> int (length (sc_handlers p)) \<le> i then None
      else Some (SC_Call (nat i) r, u,
             s\<lparr>sm_pool := p\<lparr>sc_index := sc_index p + 1\<rparr>, sm_turns := sm_turns s @ [nat i]\<rparr>))"
| "sched_add_act clk n t (SC_Call i r) u s =
     call_timer i (request_ev clk r) t (\<lambda>_. SC_InAdd i (hs_next (timer_of i s))) u s"
| "sched_add_act clk n t (SC_InAdd i x) u s =
     call_timer i (HStep clk n False) t
       (\<lambda>v. case v of A_Added ok \<Rightarrow> SC_Added (if ok then Some (i, x) else None) | _ \<Rightarrow> SC_InAdd i x) u s"
| "sched_add_act _ _ _ _ _ _ = None"

text \<open>\<open>ShutDownHelper\<close>; \<open>sp\<close>: a weak exchange fails spuriously.\<close>

fun sched_shut_act :: "TimeValue \<Rightarrow> nat \<Rightarrow> bool \<Rightarrow> tid \<Rightarrow> sched_client \<Rightarrow> (nat \<Rightarrow> user_pc) \<Rightarrow> sched_sys \<Rightarrow>
    (sched_client \<times> (nat \<Rightarrow> user_pc) \<times> sched_sys) option" where
  "sched_shut_act clk n sp t (SC_Shut now) u s =
     (case compare_exchange_weak sp False True (sc_isRequestShutDown (sm_pool s)) of
        (won, v) \<Rightarrow> Some (if won then SC_SetStop now else SC_ShutReturned, u,
           s\<lparr>sm_pool := (sm_pool s)\<lparr>sc_isRequestShutDown := v\<rparr>, sm_won := (if won then Some now else sm_won s)\<rparr>))"
| "sched_shut_act clk n sp t (SC_SetStop now) u s =
     do { p \<leftarrow> ScheduledThreadPool_SetState t Sched_STOP (sm_pool s); Some (SC_Loop now 0, u, s\<lparr>sm_pool := p\<rparr>) }"
| "sched_shut_act clk n sp t (SC_Loop now i) u s =
     (if i < length (sc_handlers (sm_pool s)) then
        do { m \<leftarrow> MutexLocker t (sc_handlerGuard (sm_pool s));
             let isStarted = sc_handlers (sm_pool s) ! i \<noteq> None;
             Some (if isStarted then SC_CallShut now i else SC_Loop now (Suc i), u,
               s\<lparr>sm_pool := (sm_pool s)\<lparr>sc_handlerGuard := MutexLocker_dtor m\<rparr>\<rparr>) }
      else do { p \<leftarrow> ScheduledThreadPool_SetState t Sched_SHUTDOWN (sm_pool s);
                Some (SC_ShutReturned, u, s\<lparr>sm_pool := p\<rparr>) })"
| "sched_shut_act clk n sp t (SC_CallShut now i) u s = call_timer i (CallShutDown now) t (\<lambda>_. SC_InShut now i) u s"
| "sched_shut_act clk n sp t (SC_InShut now i) u s =
     call_timer i (HStep clk n sp) t (\<lambda>v. case v of A_ShutReturned \<Rightarrow> SC_Loop now (Suc i) | _ \<Rightarrow> SC_InShut now i) u s"
| "sched_shut_act _ _ _ _ _ _ _ = None"

text \<open>\<open>Cancel\<close> of a task of timer \<open>i\<close>, which the client has from an add.\<close>

fun sched_cancel_act :: "tid \<Rightarrow> sched_client \<Rightarrow> (nat \<Rightarrow> user_pc) \<Rightarrow> sched_sys \<Rightarrow>
    (sched_client \<times> (nat \<Rightarrow> user_pc) \<times> sched_sys) option" where
  "sched_cancel_act t (SC_InCancel i) u s =
     call_timer i (HStep 0 0 False) t (\<lambda>v. case v of A_Cancelled \<Rightarrow> SC_Ready | _ \<Rightarrow> SC_InCancel i) u s"
| "sched_cancel_act _ _ _ _ = None"

text \<open>
  The parameter \<open>weak\<close> of the machine says whether weak exchanges may fail spuriously.  The public adds
  that take a task object are those of theory \<open>ScheduledThreadPool\<close> and are no events here.
\<close>

definition sched_client_act :: "bool \<Rightarrow> sched_ev \<Rightarrow> tid \<Rightarrow> sched_client \<Rightarrow> (nat \<Rightarrow> user_pc) \<Rightarrow> sched_sys \<Rightarrow>
    (sched_client \<times> (nat \<Rightarrow> user_pc) \<times> sched_sys) option" where
  "sched_client_act weak e t c u s =
     (case e of
        PoolAdd r \<Rightarrow> if client_ready c then Some (SC_Load r, u, s) else None
      | PoolShutDown now \<Rightarrow> if client_ready c then Some (SC_Shut now, u, s) else None
      | PoolCancel i x \<Rightarrow> if client_ready c then call_timer i (CallCancel x) t (\<lambda>_. SC_InCancel i) u s else None
      | PoolStep clk n sp \<Rightarrow>
          (case sched_add_act clk n t c u s of
             Some r \<Rightarrow> Some r
           | None \<Rightarrow>
               (case sched_cancel_act t c u s of
                  Some r \<Rightarrow> Some r
                | None \<Rightarrow> sched_shut_act clk n (weak \<and> sp) t c u s))
      | TaskEnds _ \<Rightarrow> None)"

text \<open>The thread of timer \<open>i\<close> is thread \<open>2i\<close> of the pool and thread 0 of the timer.\<close>

definition timer_ev :: "bool \<Rightarrow> sched_ev \<Rightarrow> handler_ev option" where
  "timer_ev weak e =
     (case e of PoolStep clk n sp \<Rightarrow> Some (HStep clk n (weak \<and> sp)) | TaskEnds outcome \<Rightarrow> Some (BodyEnds outcome) | _ \<Rightarrow> None)"

definition sched_act :: "bool \<Rightarrow> sched_ev \<Rightarrow> tid \<Rightarrow> sched_pc \<Rightarrow> sched_sys \<Rightarrow> (sched_pc \<times> sched_sys) option" where
  "sched_act weak e t k s =
     (case k of
        TimerThread w \<Rightarrow>
          do { e' \<leftarrow> timer_ev weak e;
               (k', s') \<leftarrow> in_timer (t div 2) e' 0 (Timer w) s;
               case k' of Timer w' \<Rightarrow> Some (TimerThread w', s') | User _ \<Rightarrow> None }
      | ClientThread c u \<Rightarrow>
          map_option (\<lambda>(c', u', s'). (ClientThread c' u', s')) (sched_client_act weak e t c u s))"

definition handler_wakeup :: "tid \<Rightarrow> handler_sys \<Rightarrow> handler_sys" where
  "handler_wakeup t h = (if handler_waiting t h then handler_unwait t h else h)"

definition num_timers :: "sched_sys \<Rightarrow> nat" where
  "num_timers s = length (sc_handlers (sm_pool s))"

definition sched_waiting :: "sched_sys \<Rightarrow> tid \<Rightarrow> bool" where
  "sched_waiting s t \<longleftrightarrow> (if even t then t div 2 < num_timers s \<and> handler_waiting 0 (timer_of (t div 2) s)
     else list_ex (\<lambda>i. handler_waiting t (timer_of i s)) [0..<num_timers s])"

definition sched_unwait :: "tid \<Rightarrow> sched_sys \<Rightarrow> sched_sys" where
  "sched_unwait t s =
     (if even t then set_timer (t div 2) (handler_wakeup 0 (timer_of (t div 2) s)) s
      else s\<lparr>sm_pool := (sm_pool s)\<lparr>sc_handlers := map (map_option (handler_wakeup t)) (sc_handlers (sm_pool s))\<rparr>\<rparr>)"

fun sched_expire :: "sched_pc \<Rightarrow> sched_pc option" where
  "sched_expire (TimerThread (H_TimedWait d)) = Some (TimerThread H_Woken)"
| "sched_expire _ = None"

definition sched_machine :: "bool \<Rightarrow> (sched_sys, sched_pc, sched_ev) machine" where
  "sched_machine weak = \<lparr>act = sched_act weak, waiting = sched_waiting, unwait = sched_unwait, expire = sched_expire\<rparr>"

text \<open>The pool after its constructor, with the threads of all timers about to start.\<close>

definition sched_start :: "nat \<Rightarrow> (sched_sys, sched_pc) config" where
  "sched_start n =
     (\<lparr>sm_pool = the (ScheduledThreadPool_ctor 1 n TimerTaskHandler_ctor), sm_turns = [], sm_won = None\<rparr>,
      \<lambda>t. if even t then TimerThread H_Start else ClientThread SC_Ready (\<lambda>_. A_Idle))"

definition sched_init :: "nat \<Rightarrow> (sched_sys, sched_pc) config \<Rightarrow> bool" where
  "sched_init n c \<longleftrightarrow> n < 2 ^ 31 \<and> c = sched_start n"

section \<open>The effects of one action\<close>

lemma set_timer_simps [simp]:
  "num_timers (set_timer i h s) = num_timers s"
  "sc_state (sm_pool (set_timer i h s)) = sc_state (sm_pool s)"
  "sc_index (sm_pool (set_timer i h s)) = sc_index (sm_pool s)"
  "sc_stateGuard (sm_pool (set_timer i h s)) = sc_stateGuard (sm_pool s)"
  "sc_handlerGuard (sm_pool (set_timer i h s)) = sc_handlerGuard (sm_pool s)"
  "sc_isRequestShutDown (sm_pool (set_timer i h s)) = sc_isRequestShutDown (sm_pool s)"
  "sm_turns (set_timer i h s) = sm_turns s" "sm_won (set_timer i h s) = sm_won s"
  by (simp_all add: set_timer_def num_timers_def)

lemma timer_of_set_timer [simp]:
  "i < num_timers s \<Longrightarrow> timer_of j (set_timer i h s) = (if j = i then h else timer_of j s)"
  by (simp add: timer_of_def set_timer_def num_timers_def)

lemma timer_of_pool [simp]:
  "timer_of i (s\<lparr>sm_pool := (sm_pool s)\<lparr>sc_index := x\<rparr>, sm_turns := xs\<rparr>) = timer_of i s"
  "timer_of i (s\<lparr>sm_pool := (sm_pool s)\<lparr>sc_isRequestShutDown := b\<rparr>, sm_won := w\<rparr>) = timer_of i s"
  "timer_of i (s\<lparr>sm_pool := (sm_pool s)\<lparr>sc_state := st\<rparr>\<rparr>) = timer_of i s"
  by (simp_all add: timer_of_def)

text \<open>The pool has \<open>n\<close> timers, and its two guards are free between the actions.\<close>

definition pool_ok :: "nat \<Rightarrow> sched_sys \<Rightarrow> bool" where
  "pool_ok n s \<longleftrightarrow> num_timers s = n \<and> (\<forall>i < n. sc_handlers (sm_pool s) ! i \<noteq> None) \<and>
     sc_stateGuard (sm_pool s) = free_mutex \<and> sc_handlerGuard (sm_pool s) = free_mutex"

lemma pool_ok_same:
  "pool_ok n s \<Longrightarrow> sc_handlers (sm_pool s') = sc_handlers (sm_pool s) \<Longrightarrow>
   sc_stateGuard (sm_pool s') = sc_stateGuard (sm_pool s) \<Longrightarrow> sc_handlerGuard (sm_pool s') = sc_handlerGuard (sm_pool s) \<Longrightarrow>
   pool_ok n s'"
  by (simp add: pool_ok_def num_timers_def)

lemma pool_ok_set_timer: "pool_ok n s \<Longrightarrow> pool_ok n (set_timer i h s)"
  by (cases "i < n") (auto simp: pool_ok_def num_timers_def set_timer_def nth_list_update list_update_beyond)

lemma in_timer_Some:
  assumes "in_timer i e t k s = Some (k', s')" and "pool_ok n s"
  obtains h where "i < n" "handler_act False e t k (timer_of i s) = Some (k', h)" "s' = set_timer i h s"
  using assms by (auto simp: in_timer_def pool_ok_def num_timers_def timer_of_def split: if_splits option.splits)

lemma SetState_free:
  "sc_stateGuard p = free_mutex \<Longrightarrow> ScheduledThreadPool_SetState t st p = Some (p\<lparr>sc_state := st\<rparr>)"
  by (cases p) (simp add: ScheduledThreadPool_SetState_def MutexLocker_def Mutex_Lock_def MutexLocker_dtor_def Mutex_Unlock_def)

text \<open>One action of a client inside a timer: \<open>v\<close> and \<open>v'\<close> are the places in the code of the timer.\<close>

inductive timer_call :: "nat \<Rightarrow> sched_sys \<Rightarrow> handler_ev \<Rightarrow> tid \<Rightarrow> nat \<Rightarrow> (nat \<Rightarrow> user_pc) \<Rightarrow> user_pc \<Rightarrow>
    (nat \<Rightarrow> user_pc) \<Rightarrow> sched_sys \<Rightarrow> bool" for n s e t i u v where
  "i < n \<Longrightarrow> handler_act False e t (User (u i)) (timer_of i s) = Some (User v, h) \<Longrightarrow>
     timer_call n s e t i u v (u(i := v)) (set_timer i h s)"

inductive_cases timer_callE: "timer_call n s e t i u v u' s'"

inductive client_move :: "nat \<Rightarrow> bool \<Rightarrow> tid \<Rightarrow> sched_sys \<Rightarrow> sched_client \<Rightarrow> (nat \<Rightarrow> user_pc) \<Rightarrow>
    sched_client \<Rightarrow> (nat \<Rightarrow> user_pc) \<Rightarrow> sched_sys \<Rightarrow> bool"
  for n weak t s where
  calls_add: "client_ready c \<Longrightarrow> client_move n weak t s c u (SC_Load r) u s"
| calls_shut: "client_ready c \<Longrightarrow> client_move n weak t s c u (SC_Shut now) u s"
| refused: "sc_isRequestShutDown (sm_pool s) \<Longrightarrow> client_move n weak t s (SC_Load r) u (SC_Added None) u s"
| goes_on: "\<not> sc_isRequestShutDown (sm_pool s) \<Longrightarrow> client_move n weak t s (SC_Load r) u (SC_Turn r) u s"
| turn: "current_index (sm_pool s) = int i \<Longrightarrow> i < n \<Longrightarrow> client_move n weak t s (SC_Turn r) u (SC_Call i r) u
     (s\<lparr>sm_pool := (sm_pool s)\<lparr>sc_index := sc_index (sm_pool s) + 1\<rparr>, sm_turns := sm_turns s @ [i]\<rparr>)"
| add_call: "timer_call n s (request_ev clk r) t i u v u' s' \<Longrightarrow>
     client_move n weak t s (SC_Call i r) u (SC_InAdd i (hs_next (timer_of i s))) u' s'"
| in_add: "timer_call n s (HStep clk k False) t i u v u' s' \<Longrightarrow> client_move n weak t s (SC_InAdd i x) u
     (case v of A_Added ok \<Rightarrow> SC_Added (if ok then Some (i, x) else None) | _ \<Rightarrow> SC_InAdd i x) u' s'"
| calls_cancel: "client_ready c \<Longrightarrow> timer_call n s (CallCancel x) t i u v u' s' \<Longrightarrow>
     client_move n weak t s c u (SC_InCancel i) u' s'"
| in_cancel: "timer_call n s (HStep 0 0 False) t i u v u' s' \<Longrightarrow> client_move n weak t s (SC_InCancel i) u
     (case v of A_Cancelled \<Rightarrow> SC_Ready | _ \<Rightarrow> SC_InCancel i) u' s'"
| won: "\<not> sc_isRequestShutDown (sm_pool s) \<Longrightarrow> client_move n weak t s (SC_Shut now) u (SC_SetStop now) u
     (s\<lparr>sm_pool := (sm_pool s)\<lparr>sc_isRequestShutDown := True\<rparr>, sm_won := Some now\<rparr>)"
| lost: "weak \<or> sc_isRequestShutDown (sm_pool s) \<Longrightarrow> client_move n weak t s (SC_Shut now) u SC_ShutReturned u s"
| set_stop: "client_move n weak t s (SC_SetStop now) u (SC_Loop now 0) u
     (s\<lparr>sm_pool := (sm_pool s)\<lparr>sc_state := Sched_STOP\<rparr>\<rparr>)"
| loop: "i < n \<Longrightarrow> client_move n weak t s (SC_Loop now i) u (SC_CallShut now i) u s"
| loop_end: "n \<le> i \<Longrightarrow> client_move n weak t s (SC_Loop now i) u SC_ShutReturned u
     (s\<lparr>sm_pool := (sm_pool s)\<lparr>sc_state := Sched_SHUTDOWN\<rparr>\<rparr>)"
| shut_call: "timer_call n s (CallShutDown now) t i u v u' s' \<Longrightarrow>
     client_move n weak t s (SC_CallShut now i) u (SC_InShut now i) u' s'"
| in_shut: "timer_call n s (HStep clk k sp) t i u v u' s' \<Longrightarrow> sp \<longrightarrow> weak \<Longrightarrow> client_move n weak t s (SC_InShut now i) u
     (case v of A_ShutReturned \<Rightarrow> SC_Loop now (Suc i) | _ \<Rightarrow> SC_InShut now i) u' s'"

lemma call_timer_call:
  assumes "call_timer i e t c u s = Some (c', u', s')" and "pool_ok n s"
  shows "\<exists>v. c' = c v \<and> timer_call n s e t i u v u' s'"
proof -
  from assms(1) obtain k s1 where k: "in_timer i e t (User (u i)) s = Some (k, s1)"
    by (cases "in_timer i e t (User (u i)) s") (auto simp: call_timer_def)
  with assms(1) obtain v where "in_timer i e t (User (u i)) s = Some (User v, s')" "c' = c v" "u' = u(i := v)"
    by (cases k) (auto simp: call_timer_def)
  with assms(2) show ?thesis by (auto elim!: in_timer_Some intro: timer_call.intros)
qed

lemma pool_same: "sc_isRequestShutDown (sm_pool s) = b \<Longrightarrow> s\<lparr>sm_pool := (sm_pool s)\<lparr>sc_isRequestShutDown := b\<rparr>\<rparr> = s"
  "sc_handlerGuard (sm_pool s) = g \<Longrightarrow> s\<lparr>sm_pool := (sm_pool s)\<lparr>sc_handlerGuard := g\<rparr>\<rparr> = s"
  by simp_all

lemma add_act_move:
  assumes "sched_add_act clk k t c u s = Some (c', u', s')" and "pool_ok n s"
  shows "client_move n weak t s c u c' u' s'"
proof (cases c)
  case (SC_Load r)
  then show ?thesis using assms by (auto intro: client_move.intros)
next
  case (SC_Turn r)
  then have i: "\<not> current_index (sm_pool s) < 0" "\<not> int (length (sc_handlers (sm_pool s))) \<le> current_index (sm_pool s)"
    and eq: "c' = SC_Call (nat (current_index (sm_pool s))) r" "u' = u"
      "s' = s\<lparr>sm_pool := (sm_pool s)\<lparr>sc_index := sc_index (sm_pool s) + 1\<rparr>, sm_turns := sm_turns s @ [nat (current_index (sm_pool s))]\<rparr>"
    using assms(1) by (auto simp: Let_def split: if_splits)
  from i assms(2) have "current_index (sm_pool s) = int (nat (current_index (sm_pool s)))"
      "nat (current_index (sm_pool s)) < n" by (auto simp: pool_ok_def num_timers_def)
  then show ?thesis unfolding eq SC_Turn by (rule client_move.turn)
qed (use assms in \<open>auto dest!: call_timer_call intro: client_move.intros\<close>)

lemma cancel_act_move:
  "sched_cancel_act t c u s = Some (c', u', s') \<Longrightarrow> pool_ok n s \<Longrightarrow> client_move n weak t s c u c' u' s'"
  by (cases c) (auto dest!: call_timer_call intro: client_move.intros)

lemma shut_act_move:
  assumes "sched_shut_act clk k (weak \<and> sp) t c u s = Some (c', u', s')" and ok: "pool_ok n s"
  shows "client_move n weak t s c u c' u' s'"
proof -
  have g: "sc_stateGuard (sm_pool s) = free_mutex" "sc_handlerGuard (sm_pool s) = free_mutex"
      "length (sc_handlers (sm_pool s)) = n" "i < n \<Longrightarrow> sc_handlers (sm_pool s) ! i \<noteq> None" for i
    using ok by (simp_all add: pool_ok_def num_timers_def)
  show ?thesis
  proof (cases c)
    case (SC_Shut now)
    then show ?thesis
      using assms(1)
      by (cases "sc_isRequestShutDown (sm_pool s)"; cases "weak \<and> sp")
         (auto simp: compare_exchange_weak_def pool_same intro: client_move.intros split: if_splits)
  next
    case (SC_SetStop now)
    then show ?thesis using assms(1) by (simp add: SetState_free [OF g(1)]) (blast intro: client_move.set_stop)
  next
    case (SC_Loop now i)
    have lock: "MutexLocker t (sc_handlerGuard (sm_pool s)) = Some \<lparr>m_isInit = True, m_owner = Some t\<rparr>"
        "MutexLocker_dtor \<lparr>m_isInit = True, m_owner = Some t\<rparr> = free_mutex"
      using MutexLocker_free [of free_mutex t] by (simp_all add: g(2) MutexLocker_dtor_def Mutex_Unlock_def)
    show ?thesis
    proof (cases "i < n")
      case True
      with SC_Loop assms(1) have "c' = SC_CallShut now i" "u' = u" "s' = s"
        by (simp_all add: g(3,4) lock Let_def pool_same(2) [OF g(2)])
      with True SC_Loop show ?thesis by (auto intro: client_move.loop)
    next
      case False
      with SC_Loop assms(1) show ?thesis by (auto simp: SetState_free [OF g(1)] g(3) intro: client_move.loop_end)
    qed
  qed (use assms in \<open>auto dest!: call_timer_call intro: client_move.intros\<close>)
qed

lemma sched_client_act_move:
  "sched_client_act weak e t c u s = Some (c', u', s') \<Longrightarrow> pool_ok n s \<Longrightarrow> client_move n weak t s c u c' u' s'"
  by (cases e)
     (auto simp: sched_client_act_def intro: client_move.intros add_act_move cancel_act_move shut_act_move
        dest!: call_timer_call split: if_splits option.splits)

section \<open>The invariant of the pool\<close>

fun leaving :: "user_pc \<Rightarrow> bool" where
  "leaving (A_ShutDown _) = True" | "leaving (A_PushEnd _) = True" | "leaving (A_Close _) = True"
| "leaving A_CloseWait = True" | "leaving _ = False"

fun cancelling :: "user_pc \<Rightarrow> bool" where
  "cancelling (A_CancelWait _) = True" | "cancelling _ = False"

text \<open>Outside its calls a client is in no timer, inside a call it is where the call is.\<close>

definition stands :: "sched_client \<Rightarrow> nat \<Rightarrow> user_pc \<Rightarrow> bool" where
  "stands c i v \<longleftrightarrow>
     (case c of SC_InAdd j x \<Rightarrow> if j = i then adding v = Some x else user_ready v
      | SC_InShut _ j \<Rightarrow> if j = i then leaving v else user_ready v
      | SC_InCancel j \<Rightarrow> if j = i then cancelling v else user_ready v
      | _ \<Rightarrow> user_ready v)"

definition client_ok :: "nat \<Rightarrow> sched_client \<Rightarrow> (nat \<Rightarrow> user_pc) \<Rightarrow> bool" where
  "client_ok n c u \<longleftrightarrow> (\<forall>i. stands c i (u i)) \<and>
     (case c of SC_Call i _ \<Rightarrow> i < n | SC_InAdd i _ \<Rightarrow> i < n | SC_Loop _ i \<Rightarrow> i \<le> n | SC_CallShut _ i \<Rightarrow> i < n
      | SC_InShut _ i \<Rightarrow> i < n | SC_InCancel i \<Rightarrow> i < n | _ \<Rightarrow> True)"

lemma client_ok_simps:
  "client_ok n (SC_InAdd i x) u \<longleftrightarrow> i < n \<and> adding (u i) = Some x \<and> (\<forall>j. j \<noteq> i \<longrightarrow> user_ready (u j))"
  "client_ok n (SC_InShut now i) u \<longleftrightarrow> i < n \<and> leaving (u i) \<and> (\<forall>j. j \<noteq> i \<longrightarrow> user_ready (u j))"
  "client_ok n (SC_InCancel i) u \<longleftrightarrow> i < n \<and> cancelling (u i) \<and> (\<forall>j. j \<noteq> i \<longrightarrow> user_ready (u j))"
  "client_ok n (SC_Call i r) u \<longleftrightarrow> i < n \<and> (\<forall>j. user_ready (u j))"
  "client_ok n (SC_CallShut now i) u \<longleftrightarrow> i < n \<and> (\<forall>j. user_ready (u j))"
  "client_ok n (SC_Loop now i) u \<longleftrightarrow> i \<le> n \<and> (\<forall>j. user_ready (u j))"
  "client_ok n SC_Ready u \<longleftrightarrow> (\<forall>j. user_ready (u j))" "client_ok n (SC_Load r) u \<longleftrightarrow> (\<forall>j. user_ready (u j))"
  "client_ok n (SC_Turn r) u \<longleftrightarrow> (\<forall>j. user_ready (u j))" "client_ok n (SC_Added b) u \<longleftrightarrow> (\<forall>j. user_ready (u j))"
  "client_ok n (SC_Shut now) u \<longleftrightarrow> (\<forall>j. user_ready (u j))" "client_ok n (SC_SetStop now) u \<longleftrightarrow> (\<forall>j. user_ready (u j))"
  "client_ok n SC_ShutReturned u \<longleftrightarrow> (\<forall>j. user_ready (u j))"
  by (auto simp: client_ok_def stands_def split: if_splits)

lemma client_ok_ready: "client_ready c \<Longrightarrow> client_ok n c u \<longleftrightarrow> (\<forall>j. user_ready (u j))"
  by (cases c) (auto simp: client_ready_def client_ok_simps)

lemma user_ready_simps [simp]: "user_ready (A_Added b)" "user_ready A_ShutReturned" "user_ready A_Idle" "user_ready A_Cancelled"
  by (simp_all add: user_ready_def)

definition role_ok :: "nat \<Rightarrow> tid \<Rightarrow> sched_pc \<Rightarrow> bool" where
  "role_ok n t k \<longleftrightarrow> (case k of TimerThread w \<Rightarrow> even t | ClientThread c u \<Rightarrow> odd t \<and> client_ok n c u)"

text \<open>The turns go round, whatever the clients do; the counter wraps at \<open>2^64\<close>.\<close>

definition turns_ok :: "nat \<Rightarrow> sched_sys \<Rightarrow> bool" where
  "turns_ok n s \<longleftrightarrow> sc_index (sm_pool s) = word_of_nat (length (sm_turns s)) \<and>
     sm_turns s = map (\<lambda>j. j mod 2 ^ 64 mod n) [0..<length (sm_turns s)]"

definition sched_inv :: "nat \<Rightarrow> sched_sys \<Rightarrow> (tid \<Rightarrow> sched_pc) \<Rightarrow> bool" where
  "sched_inv n s pc \<longleftrightarrow> n < 2 ^ 31 \<and> pool_ok n s \<and> turns_ok n s \<and> (\<forall>t. role_ok n t (pc t))"

lemma sched_who:
  assumes "sched_inv n s pc" and "sched_act weak e t (pc t) s = Some (k, s')"
  obtains (timer) w w' e' h where "even t" "pc t = TimerThread w" "k = TimerThread w'" "timer_ev weak e = Some e'"
      "t div 2 < n" "handler_act False e' 0 (Timer w) (timer_of (t div 2) s) = Some (Timer w', h)"
      "s' = set_timer (t div 2) h s"
  | (client) c u c' u' where "odd t" "pc t = ClientThread c u" "k = ClientThread c' u'" "client_ok n c u"
      "client_move n weak t s c u c' u' s'"
proof (cases "pc t")
  case (TimerThread w)
  from assms(1) have ok: "pool_ok n s" and "role_ok n t (pc t)" by (simp_all add: sched_inv_def)
  with TimerThread have t: "even t" by (simp add: role_ok_def)
  from assms(2) TimerThread obtain e' k1 s1 where e': "timer_ev weak e = Some e'"
    and i1: "in_timer (t div 2) e' 0 (Timer w) s = Some (k1, s1)"
    by (cases "timer_ev weak e"; cases "in_timer (t div 2) (the (timer_ev weak e)) 0 (Timer w) s") (auto simp: sched_act_def)
  with assms(2) TimerThread obtain w' where k1: "k1 = Timer w'" "k = TimerThread w'" and i: "in_timer (t div 2) e' 0 (Timer w) s = Some (k1, s')"
    by (cases k1) (auto simp: sched_act_def)
  from in_timer_Some [OF i ok] obtain h where "t div 2 < n"
      "handler_act False e' 0 (Timer w) (timer_of (t div 2) s) = Some (k1, h)" "s' = set_timer (t div 2) h s" by blast
  with k1 show thesis by (intro timer [OF t TimerThread k1(2) e']) simp_all
next
  case (ClientThread c u)
  from assms(1) have ok: "pool_ok n s" and "role_ok n t (pc t)" by (simp_all add: sched_inv_def)
  with ClientThread have t: "odd t" "client_ok n c u" by (simp_all add: role_ok_def)
  from assms(2) ClientThread obtain c' u' where "sched_client_act weak e t c u s = Some (c', u', s')"
      "k = ClientThread c' u'" by (auto simp: sched_act_def)
  with sched_client_act_move [OF _ ok] t ClientThread show thesis by (auto intro: client)
qed

lemma adding_step:
  assumes "handler_act False (HStep clk k False) t (User v) h = Some (User v', h')" and "adding v \<noteq> None"
  shows "TimerTaskHandler_add k t v h = Some (v', h')" and "adding v' = adding v \<or> (\<exists>ok. v' = A_Added ok)"
proof -
  from assms show a: "TimerTaskHandler_add k t v h = Some (v', h')"
    by (cases v) (auto simp: handler_act_def split: option.splits)
  then show "adding v' = adding v \<or> (\<exists>ok. v' = A_Added ok)"
    by (cases v) (auto simp: Option.bind_eq_Some_conv Let_def split: if_splits option.splits)
qed

lemma leaving_step:
  assumes "handler_act False (HStep clk k sp) t (User v) h = Some (User v', h')" and "leaving v"
  shows "TimerTaskHandler_ShutDownHelper clk k sp t v h = Some (v', h')" and "leaving v' \<or> v' = A_ShutReturned"
proof -
  from assms show a: "TimerTaskHandler_ShutDownHelper clk k sp t v h = Some (v', h')"
    by (cases v) (auto simp: handler_act_def split: option.splits)
  then show "leaving v' \<or> v' = A_ShutReturned"
    by (cases v) (auto simp: Option.bind_eq_Some_conv Let_def split: if_splits prod.splits)
qed

lemma adding_call:
  "handler_act False (request_ev clk r) t (User v) h = Some (User v', h') \<Longrightarrow> adding v' = Some (hs_next h) \<and> h' = new_task h"
  by (cases r) (auto simp: handler_act_def user_call_def DoAddCronTimerTask_def DoAddCycleTimerTask_def split: if_splits)

lemma leaving_call:
  "handler_act False (CallShutDown now) t (User v) h = Some (User v', h') \<Longrightarrow> v' = A_ShutDown now \<and> h' = h \<and> user_ready v"
  by (auto simp: handler_act_def user_call_def split: if_splits)

lemma cancelling_call:
  "handler_act False (CallCancel x) t (User v) h = Some (User v', h') \<Longrightarrow> v' = A_CancelWait x \<and> x < hs_next h \<and>
     h' = with_task x ((hs_store h x)\<lparr>tb_isRequestCancel := True\<rparr>) h"
  by (auto simp: handler_act_def user_call_def with_task_def split: if_splits)

lemma cancelling_step:
  assumes "handler_act False (HStep clk k False) t (User v) h = Some (User v', h')" and "cancelling v"
  shows "timer_cancel t v h = Some (v', h')" and "cancelling v' \<or> v' = A_Cancelled"
proof -
  from assms show a: "timer_cancel t v h = Some (v', h')"
    by (cases v) (auto simp: handler_act_def split: option.splits)
  then show "cancelling v' \<or> v' = A_Cancelled"
    by (cases v) (auto simp: Option.bind_eq_Some_conv Let_def split: if_splits prod.splits)
qed

lemma in_cancel_cases:
  obtains (returned) "v = A_Cancelled" "(case v of A_Cancelled \<Rightarrow> SC_Ready | _ \<Rightarrow> SC_InCancel i) = SC_Ready"
  | (inside) "v \<noteq> A_Cancelled" "(case v of A_Cancelled \<Rightarrow> SC_Ready | _ \<Rightarrow> SC_InCancel i) = SC_InCancel i"
  by (cases v) auto

lemma in_add_cases:
  obtains (returned) ok where "v = A_Added ok"
      "(case v of A_Added ok \<Rightarrow> SC_Added (if ok then Some (i, x) else None) | _ \<Rightarrow> SC_InAdd i x) = SC_Added (if ok then Some (i, x) else None)"
  | (inside) "\<forall>ok. v \<noteq> A_Added ok"
      "(case v of A_Added ok \<Rightarrow> SC_Added (if ok then Some (i, x) else None) | _ \<Rightarrow> SC_InAdd i x) = SC_InAdd i x"
  by (cases v) auto

lemma in_shut_cases:
  obtains (returned) "v = A_ShutReturned" "(case v of A_ShutReturned \<Rightarrow> SC_Loop now (Suc i) | _ \<Rightarrow> SC_InShut now i) = SC_Loop now (Suc i)"
  | (inside) "v \<noteq> A_ShutReturned" "(case v of A_ShutReturned \<Rightarrow> SC_Loop now (Suc i) | _ \<Rightarrow> SC_InShut now i) = SC_InShut now i"
  by (cases v) auto

lemma sched_client_move_ok:
  assumes "client_move n weak t s c u c' u' s'" and "client_ok n c u"
  shows "client_ok n c' u'"
  using assms(1)
proof (cases rule: client_move.cases)
  case (in_add clk k i v x)
  from in_add(3) obtain h where v: "handler_act False (HStep clk k False) t (User (u i)) (timer_of i s) = Some (User v, h)"
      "u' = u(i := v)" by (blast elim: timer_callE)
  from assms(2) in_add(1) have ok: "i < n" "adding (u i) = Some x" "\<And>j. j \<noteq> i \<Longrightarrow> user_ready (u j)"
    by (auto simp: client_ok_simps)
  show ?thesis
    using adding_step(2) [OF v(1)] ok v(2) in_add(2)
    by (cases rule: in_add_cases [of v i x]) (auto simp: client_ok_simps)
next
  case (calls_cancel x i v)
  with assms(2) show ?thesis
    by (auto simp: client_ok_ready client_ok_simps elim!: timer_callE dest!: cancelling_call)
next
  case (in_cancel i v)
  from in_cancel(3) obtain h where v: "handler_act False (HStep 0 0 False) t (User (u i)) (timer_of i s) = Some (User v, h)"
      "u' = u(i := v)" by (blast elim: timer_callE)
  from assms(2) in_cancel(1) have ok: "i < n" "cancelling (u i)" "\<And>j. j \<noteq> i \<Longrightarrow> user_ready (u j)"
    by (auto simp: client_ok_simps)
  show ?thesis
    using cancelling_step(2) [OF v(1) ok(2)] ok(1,3) v(2) in_cancel(2)
    by (cases rule: in_cancel_cases [of v i]) (auto simp: client_ok_simps)
next
  case (in_shut clk k sp i v now)
  from in_shut(3) obtain h where v: "handler_act False (HStep clk k sp) t (User (u i)) (timer_of i s) = Some (User v, h)"
      "u' = u(i := v)" by (blast elim: timer_callE)
  from assms(2) in_shut(1) have ok: "i < n" "leaving (u i)" "\<And>j. j \<noteq> i \<Longrightarrow> user_ready (u j)"
    by (auto simp: client_ok_simps)
  show ?thesis
    using leaving_step(2) [OF v(1) ok(2)] ok(1,3) v(2) in_shut(2)
    by (cases rule: in_shut_cases [of v now i]) (auto simp: client_ok_simps)
next
  case (add_call clk r i v)
  with assms(2) show ?thesis
    by (auto simp: client_ok_simps elim!: timer_callE dest!: adding_call)
next
  case (shut_call now i v)
  with assms(2) show ?thesis
    by (auto simp: client_ok_simps elim!: timer_callE dest!: leaving_call)
qed (use assms(2) in \<open>simp_all add: client_ok_simps client_ok_ready\<close>)

lemma timer_callD:
  assumes "timer_call n s e t i u v u' s'"
  obtains h where "i < n" "handler_act False e t (User (u i)) (timer_of i s) = Some (User v, h)" "u' = u(i := v)"
    "s' = set_timer i h s"
  using assms by (blast elim: timer_callE)

lemma turns_ok_same:
  "turns_ok n s \<Longrightarrow> sc_index (sm_pool s') = sc_index (sm_pool s) \<Longrightarrow> sm_turns s' = sm_turns s \<Longrightarrow> turns_ok n s'"
  by (simp add: turns_ok_def)

lemma current_index_wraps:
  assumes "n < 2 ^ 31" and "pool_ok n s" and "turns_ok n s" and "0 < n"
  shows "current_index (sm_pool s) = int (length (sm_turns s) mod 2 ^ 64 mod n)"
proof (rule current_index_mod)
  show "length (sc_handlers (sm_pool s)) = n" using assms(2) by (simp add: pool_ok_def num_timers_def)
  show "sc_index (sm_pool s) = word_of_nat (length (sm_turns s) mod 2 ^ 64)"
    using assms(3) by (simp add: turns_ok_def word_of_nat_eq_iff take_bit_nat_def)
qed (use assms in simp_all)

lemma client_move_pool:
  assumes "client_move n weak t s c u c' u' s'" and ok: "n < 2 ^ 31" "pool_ok n s" "turns_ok n s"
  shows "pool_ok n s' \<and> turns_ok n s'"
  using assms(1)
proof (cases rule: client_move.cases)
  case (turn i r)
  from turn(6) have "0 < n" by simp
  with current_index_wraps [OF ok] turn(5) have "i = length (sm_turns s) mod 2 ^ 64 mod n"
    by (simp only: of_nat_eq_iff)
  with ok(2,3) show ?thesis
    unfolding turn(4) by (auto simp: turns_ok_def pool_ok_def num_timers_def add.commute)
qed (use ok in \<open>auto elim!: timer_callE intro: pool_ok_set_timer turns_ok_same pool_ok_same\<close>)

lemma sched_act_inv:
  assumes "sched_inv n s pc" and "sched_act weak e t (pc t) s = Some (k, s')"
  shows "sched_inv n s' (pc(t := k))"
  using assms
proof (cases rule: sched_who)
  case (timer w w' e' h)
  with assms(1) show ?thesis
    by (auto simp: sched_inv_def role_ok_def intro: pool_ok_set_timer turns_ok_same)
next
  case (client c u c' u')
  from assms(1) have ok: "n < 2 ^ 31" "pool_ok n s" "turns_ok n s" "\<And>t. role_ok n t (pc t)" by (simp_all add: sched_inv_def)
  have "role_ok n x ((pc(t := k)) x)" for x
    using ok(4) [of x] client(1,3) sched_client_move_ok [OF client(5,4)] by (auto simp: role_ok_def)
  with ok(1) client_move_pool [OF client(5) ok(1-3)] show ?thesis by (simp add: sched_inv_def)
qed

lemma sched_unwait_timer:
  assumes "sched_inv n s pc" and "sched_waiting s t" and "i < n"
  shows "timer_of i (sched_unwait t s) =
     (if even t then (if i = t div 2 then handler_wakeup 0 (timer_of i s) else timer_of i s) else handler_wakeup t (timer_of i s))"
proof -
  have n: "num_timers s = n" "\<And>i. i < n \<Longrightarrow> sc_handlers (sm_pool s) ! i \<noteq> None"
    using assms(1) by (simp_all add: sched_inv_def pool_ok_def)
  show ?thesis
  proof (cases "even t")
    case True
    with assms(2) n have "t div 2 < num_timers s" by (simp add: sched_waiting_def)
    with True show ?thesis by (simp add: sched_unwait_def)
  next
    case False
    with n(1) n(2) [OF assms(3)] assms(3) show ?thesis
      by (auto simp: sched_unwait_def timer_of_def num_timers_def)
  qed
qed

lemma sched_unwait_inv:
  assumes "sched_inv n s pc"
  shows "sched_inv n (sched_unwait t s) pc"
proof -
  have ok: "n < 2 ^ 31" "pool_ok n s" "turns_ok n s" "\<forall>t. role_ok n t (pc t)" using assms by (simp_all add: sched_inv_def)
  have "pool_ok n (sched_unwait t s) \<and> turns_ok n (sched_unwait t s)"
  proof (cases "even t")
    case True
    with ok show ?thesis by (auto simp: sched_unwait_def intro: pool_ok_set_timer turns_ok_same)
  next
    case False
    with ok show ?thesis by (auto simp: sched_unwait_def pool_ok_def num_timers_def turns_ok_def)
  qed
  with ok show ?thesis by (simp add: sched_inv_def)
qed

lemma sched_expire_Some: "sched_expire k = Some k' \<longleftrightarrow> (\<exists>d. k = TimerThread (H_TimedWait d) \<and> k' = TimerThread H_Woken)"
  by (cases k rule: sched_expire.cases) auto

lemma ScheduledThreadPool_ctor_timers:
  "ScheduledThreadPool_ctor t n h = Some \<lparr>sc_state = Sched_RUNNING, sc_index = 0, sc_stateGuard = free_mutex,
     sc_isRequestShutDown = False, sc_handlerGuard = free_mutex, sc_handlers = map (\<lambda>_. Some h) [0..<n]\<rparr>"
  by (simp add: ScheduledThreadPool_ctor_def SetState_free)

lemma sched_start_inv:
  assumes "sched_init n (s, pc)"
  shows "sched_inv n s pc"
proof -
  have "\<forall>t. role_ok n t (if even t then TimerThread H_Start else ClientThread SC_Ready (\<lambda>_. A_Idle))"
    by (simp add: role_ok_def client_ok_simps)
  with assms show ?thesis
    by (simp add: sched_init_def sched_start_def sched_inv_def ScheduledThreadPool_ctor_timers pool_ok_def num_timers_def
        turns_ok_def)
qed

interpretation sched: machine_invariant "sched_machine weak" "sched_init n" "sched_inv n" for weak n
proof (unfold_locales, goal_cases)
  case (1 s pc)
  then show ?case by (rule sched_start_inv)
next
  case (2 s pc t e k s')
  then show ?case by (auto simp: sched_machine_def intro: sched_act_inv)
next
  case (3 s pc t)
  then show ?case by (simp add: sched_machine_def sched_unwait_inv)
next
  case (4 s pc t k)
  then have "sched_inv n (sched_unwait t s) pc" "\<exists>d. pc t = TimerThread (H_TimedWait d) \<and> k = TimerThread H_Woken"
    by (simp_all add: sched_machine_def sched_unwait_inv sched_expire_Some)
  then show ?case by (auto simp: sched_machine_def sched_inv_def role_ok_def split: sched_pc.splits)
qed

section \<open>The pool seen from one timer\<close>

fun part :: "nat \<Rightarrow> sched_pc \<Rightarrow> handler_pc" where
  "part i (TimerThread w) = Timer w"
| "part i (ClientThread c u) = User (u i)"

definition sched_view :: "nat \<Rightarrow> (sched_sys, sched_pc) config \<Rightarrow> (handler_sys, handler_pc) config" where
  "sched_view i c = (timer_of i (fst c), \<lambda>t. if t = 0 then part i (snd c (2 * i)) else if odd t then part i (snd c t) else User A_Idle)"

lemma client_move_timer:
  assumes "client_move n weak t s c u c' u' s'" and "pool_ok n s"
  obtains (inside) e j v h where "j < n" "handler_act False e t (User (u j)) (timer_of j s) = Some (User v, h)"
      "u' = u(j := v)" "s' = set_timer j h s"
  | (outside) "u' = u" "\<And>i. timer_of i s' = timer_of i s"
  using assms(1)
  by (cases rule: client_move.cases) (auto elim!: timer_callE)

abbreviation view_pc :: "nat \<Rightarrow> (tid \<Rightarrow> sched_pc) \<Rightarrow> tid \<Rightarrow> handler_pc" where
  "view_pc i pc \<equiv> (\<lambda>t. if t = 0 then part i (pc (2 * i)) else if odd t then part i (pc t) else User A_Idle)"

lemma sched_view_pair: "sched_view i (s, pc) = (timer_of i s, view_pc i pc)"
  unfolding sched_view_def fst_conv snd_conv ..

lemma view_timer:
  "even t \<Longrightarrow> view_pc i (pc(t := k)) = (if t div 2 = i then (view_pc i pc)(0 := part i k) else view_pc i pc)"
  by (auto simp: fun_eq_iff)

lemma view_client: "odd t \<Longrightarrow> view_pc i (pc(t := k)) = (view_pc i pc)(t := part i k)"
  by (auto simp: fun_eq_iff)

lemma handler_machine_sel [simp]:
  "act (handler_machine shared) = handler_act shared" "waiting (handler_machine shared) s t = handler_waiting t s"
  "unwait (handler_machine shared) = handler_unwait" "expire (handler_machine shared) = handler_expire"
  by (simp_all add: handler_machine_def)

lemma sched_machine_sel [simp]:
  "act (sched_machine weak) = sched_act weak" "waiting (sched_machine weak) = sched_waiting"
  "unwait (sched_machine weak) = sched_unwait" "expire (sched_machine weak) = sched_expire"
  by (simp_all add: sched_machine_def)

lemma not_waiting_inside:
  assumes "\<not> sched_waiting s t" and "i < num_timers s"
  shows "even t \<Longrightarrow> t div 2 = i \<Longrightarrow> \<not> handler_waiting 0 (timer_of i s)" and "odd t \<Longrightarrow> \<not> handler_waiting t (timer_of i s)"
  using assms by (auto simp: sched_waiting_def list_ex_iff)

lemma view_act:
  assumes inv: "sched_inv n s pc" and "i < n" and awake: "\<not> sched_waiting s t" and "sched_act weak e t (pc t) s = Some (k, s')"
  shows "(step (handler_machine False))\<^sup>=\<^sup>= (sched_view i (s, pc)) (sched_view i (s', pc(t := k)))"
proof -
  have n: "num_timers s = n" "pool_ok n s" using inv by (simp_all add: sched_inv_def pool_ok_def)
  with assms(2) have quiet: "even t \<Longrightarrow> t div 2 = i \<Longrightarrow> \<not> handler_waiting 0 (timer_of i s)"
      "odd t \<Longrightarrow> \<not> handler_waiting t (timer_of i s)"
    using not_waiting_inside [OF awake] by simp_all
  from inv assms(4) show ?thesis
  proof (cases rule: sched_who)
    case (timer w w' e' h)
    show ?thesis
    proof (cases "t div 2 = i")
      case True
      with timer(1) have t: "t = 2 * i" by auto
      have "step (handler_machine False) (timer_of i s, view_pc i pc) (h, (view_pc i pc)(0 := Timer w'))"
        using timer(2,6) True quiet(1) [OF timer(1) True] t by (intro step_act [where e = e']) simp_all
      with timer(1,3,5,7) True n(1) show ?thesis by (simp add: sched_view_pair view_timer)
    next
      case False
      with timer(1,3,5,7) n(1) show ?thesis by (simp add: sched_view_pair view_timer)
    qed
  next
    case (client c u c' u')
    have pc: "view_pc i pc t = User (u i)" "t \<noteq> 0" using client(1,2) by (auto simp: odd_pos)
    from client(5) n(2) show ?thesis
    proof (cases rule: client_move_timer)
      case (inside e1 j v h)
      show ?thesis
      proof (cases "j = i")
        case True
        have "step (handler_machine False) (timer_of i s, view_pc i pc) (h, (view_pc i pc)(t := User v))"
          using inside(2) True pc quiet(2) [OF client(1)] by (intro step_act [where e = e1]) simp_all
        with inside(3,4) assms(2) client(1,3) True n(1) show ?thesis by (simp add: sched_view_pair view_client)
      next
        case False
        have "(view_pc i pc)(t := User (u i)) = view_pc i pc" using pc(1) by (rule fun_upd_idem)
        with inside(1,3,4) client(1,3) False n(1) show ?thesis by (simp add: sched_view_pair view_client)
      qed
    next
      case outside
      have "(view_pc i pc)(t := User (u i)) = view_pc i pc" using pc(1) by (rule fun_upd_idem)
      with outside client(1,3) show ?thesis by (simp add: sched_view_pair view_client)
    qed
  qed
qed

lemma view_wakeup:
  assumes inv: "sched_inv n s pc" and "i < n" and "sched_waiting s t"
  shows "(step (handler_machine False))\<^sup>=\<^sup>= (sched_view i (s, pc)) (sched_view i (sched_unwait t s, pc))"
    and "sched_expire (pc t) = Some k \<Longrightarrow>
      (step (handler_machine False))\<^sup>=\<^sup>= (sched_view i (s, pc)) (sched_view i (sched_unwait t s, pc(t := k)))"
proof -
  note un = sched_unwait_timer [OF inv assms(3,2)]
  define x where "x = (if even t then 0 else t)"
  show "(step (handler_machine False))\<^sup>=\<^sup>= (sched_view i (s, pc)) (sched_view i (sched_unwait t s, pc))"
  proof (cases "(even t \<longrightarrow> i = t div 2) \<and> handler_waiting x (timer_of i s)")
    case True
    then have "step (handler_machine False) (timer_of i s, view_pc i pc) (handler_unwait x (timer_of i s), view_pc i pc)"
      using step_wakeup [of "handler_machine False" "timer_of i s" x "view_pc i pc"] by simp
    with True show ?thesis by (auto simp: sched_view_pair un x_def handler_wakeup_def)
  next
    case False
    then show ?thesis by (auto simp: sched_view_pair un x_def handler_wakeup_def)
  qed
  assume "sched_expire (pc t) = Some k"
  then obtain d where d: "pc t = TimerThread (H_TimedWait d)" "k = TimerThread H_Woken" by (auto simp: sched_expire_Some)
  have "role_ok n t (pc t)" using inv by (simp add: sched_inv_def)
  with d(1) have t: "even t" by (simp add: role_ok_def)
  show "(step (handler_machine False))\<^sup>=\<^sup>= (sched_view i (s, pc)) (sched_view i (sched_unwait t s, pc(t := k)))"
  proof (cases "t div 2 = i")
    case True
    with t have t2: "t = 2 * i" by auto
    have w: "handler_waiting 0 (timer_of i s)" using assms(3) t True by (auto simp: sched_waiting_def)
    then have "step (handler_machine False) (timer_of i s, view_pc i pc)
        (handler_unwait 0 (timer_of i s), (view_pc i pc)(0 := Timer H_Woken))"
      using step_timeout [of "handler_machine False" "timer_of i s" 0 "view_pc i pc" "Timer H_Woken"] d(1) t2 by simp
    with True t w d(2) show ?thesis by (simp add: sched_view_pair un view_timer handler_wakeup_def)
  next
    case False
    with t show ?thesis by (simp add: sched_view_pair un view_timer)
  qed
qed

text \<open>Seen from one of its timers, a pool does the steps of that timer or nothing.\<close>

interpretation pooled: view_projection "sched_machine weak" "\<lambda>c. sched_init n c \<and> i < n" "\<lambda>s pc. sched_inv n s pc \<and> i < n"
    "handler_machine False" "sched_view i" for weak n i
proof (unfold_locales, goal_cases)
  case (5 s pc s' pc')
  from 5(2) show ?case
  proof (cases rule: step.cases)
    case (step_act t e k)
    with 5(1) view_act [of n s pc i t weak e k s'] show ?thesis by simp
  next
    case (step_wakeup t)
    with 5(1) view_wakeup(1) [of n s pc i t] show ?thesis by simp
  next
    case (step_timeout t k)
    with 5(1) view_wakeup(2) [of n s pc i t k] show ?thesis by simp
  qed
qed (auto intro: sched.init_inv sched.act_inv sched.wakeup_inv sched.timeout_inv simp del: sched_machine_sel)

end
