(* ===== verification/ScheduledMachineProperties.thy ===== *)
theory ScheduledMachineProperties
  imports ScheduledMachine
begin

text \<open>
  What holds of the scheduled pool whatever its clients do at the same time: its timers behave like
  timers on their own, the turns are dealt round, a task that an add returned is not lost, \<open>Cancel\<close> of a
  timer task is not slept through, a shutdown is final and does not block.  What is proved for
  \<open>sched_machine False\<close> only holds of the executions without spurious failures of weak exchanges.
\<close>

abbreviation sched_reachable :: "bool \<Rightarrow> nat \<Rightarrow> sched_sys \<Rightarrow> (tid \<Rightarrow> sched_pc) \<Rightarrow> bool" where
  "sched_reachable weak n s pc \<equiv> reachable (sched_machine weak) (sched_init n) (s, pc)"

section \<open>One timer\<close>

text \<open>A finished thread is past its loop, and a thread that sleeps on the state guard is in \<open>Close\<close>.\<close>

definition finish_ok :: "handler_sys \<Rightarrow> (tid \<Rightarrow> handler_pc) \<Rightarrow> bool" where
  "finish_ok s pc \<longleftrightarrow> (ct_state (hs_thread s) = Thread_FINISHED \<longrightarrow> pc 0 = Timer H_NotifyClosed \<or> pc 0 = Timer H_Done) \<and>
     (\<forall>t \<in> set (m_cond (ct_stateGuard (hs_thread s))). pc t = User A_CloseWait)"

lemma timer_move_state:
  assumes "timer_move t s w w' s'"
  shows "if w = H_Start then ct_state (hs_thread s') = Thread_RUNNING
    else if w = H_SetFinished then w' = H_NotifyClosed
    else ct_state (hs_thread s') = ct_state (hs_thread s)"
  using assms by (cases rule: timer_move.cases) (auto dest: iteration_frame)

lemma timer_move_past:
  "timer_move t s w w' s' \<Longrightarrow> w = H_NotifyClosed \<or> w = H_Done \<Longrightarrow> w' = H_Done"
  by (erule timer_move.cases) auto

lemma user_move_state:
  "user_move shared n t s c c' s' \<Longrightarrow> ct_state (hs_thread s') = ct_state (hs_thread s) \<and> hs_fired s' = hs_fired s \<and>
     (ct_isRequestClose (hs_thread s) \<longrightarrow> ct_isRequestClose (hs_thread s')) \<and>
     (hs_isRequestShutDown s \<longrightarrow> hs_isRequestShutDown s')"
  by (erule user_move.cases) (simp_all add: new_task_def new_end_def with_task_def with_queue_def with_cond_def queued_def)

lemma user_move_sleeps:
  "user_move shared n t s c c' s' \<Longrightarrow>
     c' = A_CloseWait \<or> m_cond (ct_stateGuard (hs_thread s')) = m_cond (ct_stateGuard (hs_thread s))"
  by (erule user_move.cases) (simp_all add: new_task_def new_end_def with_task_def with_queue_def with_cond_def queued_def)

lemma finish_ok_act:
  assumes inv: "handler_inv s pc" and ok: "finish_ok s pc" and "\<not> handler_waiting t s"
    and "handler_act False e t (pc t) s = Some (k, s')"
  shows "finish_ok s' (pc(t := k))"
  using inv assms(4)
proof (cases rule: handler_who)
  case (timer w w')
  have "ct_state (hs_thread s') = Thread_FINISHED \<Longrightarrow> w' = H_NotifyClosed \<or> w' = H_Done"
    using ok timer(2) timer_move_state [OF timer(4)] timer_move_past [OF timer(4)]
    by (cases "w = H_Start"; cases "w = H_SetFinished") (auto simp: finish_ok_def)
  moreover have "\<forall>x \<in> set (m_cond (ct_stateGuard (hs_thread s'))). (pc(t := k)) x = User A_CloseWait"
  proof -
    have "0 \<notin> set (m_cond (ct_stateGuard (hs_thread s)))" using inv by (simp add: handler_inv_def)
    with ok timer(1) timer_move_frame [OF timer(4)] show ?thesis unfolding finish_ok_def by (metis fun_upd_other subsetD)
  qed
  ultimately show ?thesis using timer(1,3) by (simp add: finish_ok_def)
next
  case (user n c c' w)
  have awake: "t \<notin> set (m_cond (ct_stateGuard (hs_thread s)))"
    using assms(3) by (simp add: handler_waiting_def sync)
  have "queue_ok s" using inv by (simp add: handler_inv_def)
  then have "set (m_cond (ct_stateGuard (hs_thread s'))) \<subseteq> insert t (set (m_cond (ct_stateGuard (hs_thread s))))"
    using user_move_frame [OF user(5)] by simp
  with user_move_sleeps [OF user(5)] ok awake have "\<forall>x \<in> set (m_cond (ct_stateGuard (hs_thread s'))). x \<noteq> t \<longrightarrow> pc x = User A_CloseWait"
      "t \<in> set (m_cond (ct_stateGuard (hs_thread s'))) \<longrightarrow> c' = A_CloseWait"
    unfolding finish_ok_def by (metis insert_iff subsetD, metis)
  moreover have "ct_state (hs_thread s') = ct_state (hs_thread s)" using user_move_state [OF user(5)] by simp
  ultimately show ?thesis using ok user(1,4) by (simp add: finish_ok_def)
qed

interpretation finish: machine_invariant "handler_machine False" "\<lambda>c. c = handler_start"
    "\<lambda>s pc. handler_inv s pc \<and> finish_ok s pc"
proof (unfold_locales, goal_cases)
  case (1 s pc)
  then show ?case
    using handler.init_inv [of s pc]
    by (auto simp: finish_ok_def handler_start_def TimerTaskHandler_ctor_def CloseableThread_ctor_def ConditionVariable_ctor_def)
next
  case (2 s pc t e k s')
  then show ?case using handler.act_inv [of s pc t e k s'] finish_ok_act [of s pc t e k s'] by simp
next
  case (3 s pc t)
  then show ?case
    using handler.wakeup_inv [of s pc t] by (auto simp: finish_ok_def handler_unwait_def sync)
next
  case (4 s pc t k)
  then obtain d where d: "pc t = Timer (H_TimedWait d)" "k = Timer H_Woken"
    by (cases "pc t" rule: handler_expire.cases) auto
  with 4 have "finish_ok (handler_unwait t s) (pc(t := k))"
    by (auto simp: finish_ok_def handler_unwait_def sync)
  with 4 show ?case using handler.timeout_inv [of s pc t k] by simp
qed

text \<open>A timer that was told to close takes no task any more.\<close>

definition closed_since :: "handler_sys \<Rightarrow> handler_sys \<Rightarrow> bool" where
  "closed_since h h' \<longleftrightarrow> ct_isRequestClose (hs_thread h') \<and> hs_fired h' = hs_fired h \<and>
     (hs_isRequestShutDown h \<longrightarrow> hs_isRequestShutDown h') \<and>
     (ct_state (hs_thread h) = Thread_FINISHED \<longrightarrow> ct_state (hs_thread h') = Thread_FINISHED)"

lemma timer_move_closed:
  "timer_move t s w w' s' \<Longrightarrow> ct_isRequestClose (hs_thread s) \<Longrightarrow> hs_fired s' = hs_fired s"
  by (erule timer_move.cases) (auto simp: with_task_def elim: iteration.cases)

lemma closed_since_act:
  assumes inv: "handler_inv s pc" "finish_ok s pc" and "closed_since h s"
    and "handler_act False e t (pc t) s = Some (k, s')"
  shows "closed_since h s'"
  using inv(1) assms(4)
proof (cases rule: handler_who)
  case (timer w w')
  with inv(2) assms(3) timer_move_state [OF timer(4)] timer_move_closed [OF timer(4)] timer_move_frame [OF timer(4)] show ?thesis
    by (auto simp: closed_since_def finish_ok_def split: if_splits)
next
  case (user n c c' w)
  with assms(3) user_move_state [OF user(5)] show ?thesis by (auto simp: closed_since_def)
qed

lemma closed_future:
  assumes "handler_reachable h pc0" and "ct_isRequestClose (hs_thread h)"
    and "reachable (handler_machine False) (\<lambda>c. c = (h, pc0)) (s, pc)"
  shows "closed_since h s"
proof -
  have m: "machine_invariant (handler_machine False) (\<lambda>c. c = (h, pc0)) (\<lambda>s pc. (handler_inv s pc \<and> finish_ok s pc) \<and> closed_since h s)"
  proof (unfold_locales, goal_cases)
    case (1 s pc)
    with finish.reachable_inv [OF assms(1)] assms(2) show ?case by (simp add: closed_since_def)
  next
    case (2 s pc t e k s')
    then show ?case using finish.act_inv [of s pc t e k s'] closed_since_act [of s pc h e t k s'] by simp
  next
    case (3 s pc t)
    then show ?case using finish.wakeup_inv [of s pc t] by (simp add: closed_since_def handler_unwait_def)
  next
    case (4 s pc t k)
    then show ?case using finish.timeout_inv [of s pc t k] by (simp add: closed_since_def handler_unwait_def)
  qed
  from machine_invariant.reachable_inv [OF m assms(3)] show ?thesis by simp
qed

text \<open>A task that the thread has in hand was fired.\<close>

definition entered_ok :: "handler_sys \<Rightarrow> (tid \<Rightarrow> handler_pc) \<Rightarrow> bool" where
  "entered_ok s pc \<longleftrightarrow> (\<forall>w x. pc 0 = Timer w \<and> (w = H_Fire x \<or> in_Run w = Some x) \<longrightarrow> x \<in> fst ` set (hs_fired s))"

lemma fired_log [simp]:
  "hs_fired (with_queue xs s) = hs_fired s" "hs_fired (with_cond c s) = hs_fired s" "hs_fired (with_task x tt s) = hs_fired s"
  "hs_fired (fired x now s) = hs_fired s @ [(x, now)]" "hs_fired (rescheduled x now s) = hs_fired s"
  by (simp_all add: hs_updates Let_def)

lemma iteration_fired:
  "iteration t now s w s' \<Longrightarrow> set (hs_fired s) \<subseteq> set (hs_fired s') \<and> in_Run w = None \<and>
     (\<forall>x. w = H_Fire x \<longrightarrow> x \<in> fst ` set (hs_fired s'))"
  by (erule iteration.cases) auto

lemma timer_move_fired:
  assumes "timer_move t s w w' s'"
  shows "set (hs_fired s) \<subseteq> set (hs_fired s') \<and>
    (w' = H_Fire x \<or> in_Run w' = Some x \<longrightarrow> x \<in> fst ` set (hs_fired s') \<or> w = H_Fire x \<or> in_Run w = Some x)"
  using assms
proof (cases rule: timer_move.cases)
  case (loop now)
  with iteration_fired [of t now s w' s'] show ?thesis by simp
next
  case (wait now)
  with iteration_fired [of t now s w' s'] show ?thesis by simp
qed auto

lemma entered_ok_act:
  assumes inv: "handler_inv s pc" and ok: "entered_ok s pc" and "handler_act False e t (pc t) s = Some (k, s')"
  shows "entered_ok s' (pc(t := k))"
  using inv assms(3)
proof (cases rule: handler_who)
  case (timer w w')
  have "x \<in> fst ` set (hs_fired s')" if "w' = H_Fire x \<or> in_Run w' = Some x" for x
    using timer_move_fired [OF timer(4), of x] that ok timer(2) unfolding entered_ok_def by blast
  with timer(1,3) show ?thesis by (simp add: entered_ok_def)
next
  case (user n c c' w)
  with ok user_move_state [OF user(5)] show ?thesis by (simp add: entered_ok_def)
qed

interpretation entered: machine_invariant "handler_machine False" "\<lambda>c. c = handler_start"
    "\<lambda>s pc. handler_inv s pc \<and> entered_ok s pc"
proof (unfold_locales, goal_cases)
  case (1 s pc)
  then show ?case
    using handler.init_inv [of s pc] by (auto simp: entered_ok_def handler_start_def)
next
  case (2 s pc t e k s')
  then show ?case using handler.act_inv [of s pc t e k s'] entered_ok_act [of s pc e t k s'] by simp
next
  case (3 s pc t)
  then show ?case using handler.wakeup_inv [of s pc t] unfolding entered_ok_def by auto
next
  case (4 s pc t k)
  then obtain d where "k = Timer H_Woken"
    by (cases "pc t" rule: handler_expire.cases) auto
  with 4 have "entered_ok (handler_unwait t s) (pc(t := k))" by (auto simp: entered_ok_def)
  with 4 show ?case using handler.timeout_inv [of s pc t k] by simp
qed

text \<open>A timer that has a task keeps it until it fires it or finds it cancelled.\<close>

definition held :: "handler_sys \<Rightarrow> task_id \<Rightarrow> bool" where
  "held s x \<longleftrightarrow> x < hs_next s \<and>
     (x \<in> set (hs_queue s) \<or> x \<in> fst ` set (hs_fired s) \<or> tb_state (hs_store s x) = Task_CANCELLED)"

lemma iteration_held:
  assumes "iteration t now s w s'" and "held s x"
  shows "held s' x"
  using assms(1)
proof (cases rule: iteration.cases)
  case (periodic y)
  with assms(2) show ?thesis by (auto simp: held_def rescheduled_set)
qed (use assms(2) set_pq_pop [of "hs_queue s" "CompareTimerTask (hs_store s)"] in \<open>auto simp: held_def\<close>)

lemma timer_move_held:
  assumes "timer_move t s w w' s'" and "held s x" and "w = H_Fire x \<or> in_Run w = Some x \<Longrightarrow> x \<in> fst ` set (hs_fired s)"
  shows "held s' x"
  using assms(1)
proof (cases rule: timer_move.cases)
  case (loop now)
  with assms(2) show ?thesis by (blast intro: iteration_held)
next
  case (wait now)
  with assms(2) show ?thesis by (blast intro: iteration_held)
qed (use assms(2,3) in \<open>auto simp: held_def\<close>)

lemma user_move_held:
  assumes "user_move shared n t s c c' s'" and "held s x"
  shows "held s' x"
  using assms by (cases rule: user_move.cases) (auto simp: held_def new_task_def new_end_def queued_def)

lemma held_act:
  assumes inv: "handler_inv s pc" "entered_ok s pc" and "held s x" and "handler_act False e t (pc t) s = Some (k, s')"
  shows "held s' x"
  using inv(1) assms(4)
proof (cases rule: handler_who)
  case (timer w w')
  with inv(2) have "w = H_Fire x \<or> in_Run w = Some x \<Longrightarrow> x \<in> fst ` set (hs_fired s)" unfolding entered_ok_def by blast
  from timer_move_held [OF timer(4) assms(3) this] show ?thesis .
next
  case (user n c c' w)
  with assms(3) show ?thesis by (blast intro: user_move_held)
qed

lemma held_future:
  assumes "handler_reachable h pc0" and "held h x"
    and "reachable (handler_machine False) (\<lambda>c. c = (h, pc0)) (s, pc)"
  shows "held s x"
proof -
  have m: "machine_invariant (handler_machine False) (\<lambda>c. c = (h, pc0)) (\<lambda>s pc. (handler_inv s pc \<and> entered_ok s pc) \<and> held s x)"
  proof (unfold_locales, goal_cases)
    case (1 s pc)
    with entered.reachable_inv [OF assms(1)] assms(2) show ?case by simp
  next
    case (2 s pc t e k s')
    then show ?case using entered.act_inv [of s pc t e k s'] held_act [of s pc x e t k s'] by simp
  next
    case (3 s pc t)
    then show ?case using entered.wakeup_inv [of s pc t] by (simp add: held_def)
  next
    case (4 s pc t k)
    then show ?case using entered.timeout_inv [of s pc t k] by (simp add: held_def)
  qed
  from machine_invariant.reachable_inv [OF m assms(3)] show ?thesis by simp
qed

text \<open>
  C6: \<open>Cancel\<close> of a timer task is not slept through.  When the task has stopped (FINISHED or CANCELLED), a
  thread inside \<open>Cancel\<close> is awake and returns with its next action, or the timer's thread is at the
  notification of that very task, can take it at once, and the thread in \<open>Cancel\<close> is awake after it.
\<close>

theorem timer_Cancel_progress:
  assumes "handler_reachable s pc" and "pc t = User (A_CancelWait x)" and "TaskBase_IsStopState (hs_store s x)"
  shows "\<not> handler_waiting t s \<and>
      mstep (handler_machine False) (Act t (HStep now n sp)) (s, pc) = Some (s, pc(t := User A_Cancelled)) \<or>
    pc 0 = Timer (H_NotifyTask x) \<and>
      (\<exists>s'. mstep (handler_machine False) (Act 0 (HStep now n sp)) (s, pc) = Some (s', pc(0 := Timer H_Loop)) \<and>
        \<not> handler_waiting t s' \<and> TaskBase_IsStopState (hs_store s' x))"
proof -
  from finish.reachable_inv [OF assms(1)] obtain w where inv: "handler_inv s pc" "finish_ok s pc" "cancel_ok s pc" "pc 0 = Timer w" "sleep_ok s w"
      "handler_free s" "0 \<notin> set (m_cond (ct_stateGuard (hs_thread s)))" by (auto simp: handler_inv_def)
  have t: "t \<noteq> 0" using inv(4) assms(2) by (cases "t = 0") auto
  have sleepers: "u \<notin> set (cancellers s y) \<or> pc u = User (A_CancelWait y)" for u y
    using inv(3) unfolding cancel_ok_def by blast
  have out: "t \<notin> set (m_cond (hs_cond s))" "t \<notin> set (m_cond (ct_stateGuard (hs_thread s)))" "y \<noteq> x \<Longrightarrow> t \<notin> set (cancellers s y)"
    "0 \<notin> set (cancellers s y)" for y
    using inv(2,4,5) t assms(2) sleepers [of t y] sleepers [of 0 y] by (auto simp: sleep_ok_def finish_ok_def)
  have free: "cv_free (tb_cancelCondition (hs_store s x))" using handler_freeD [OF inv(6)] by blast
  show ?thesis
  proof (cases "t \<in> set (cancellers s x)")
    case False
    with out have awake: "\<not> handler_waiting t s" by (auto simp: handler_waiting_def list_ex_iff sync) metis
    moreover have "handler_act False (HStep now n sp) t (pc t) s = Some (User A_Cancelled, s)"
      using assms(2,3) free by (simp add: handler_act_def sync Let_def)
    ultimately show ?thesis by (simp add: handler_machine_def)
  next
    case True
    then have "cancellers s x \<noteq> []" by auto
    with inv(3,4) assms(3) have w: "w = H_NotifyTask x" unfolding cancel_ok_def by (metis handler_pc.inject(1))
    have flag: "tb_isRequestCancel (hs_store s x)" using inv(3) assms(2) unfolding cancel_ok_def by blast
    let ?s' = "with_task x ((hs_store s x)\<lparr>tb_cancelCondition := CV_NotifyAll (tb_cancelCondition (hs_store s x))\<rparr>) s"
    have "m_cond (hs_cond s) = []" using inv(5) w by (simp add: sleep_ok_def)
    with inv(7) out(4) have "\<not> handler_waiting 0 s" by (auto simp: handler_waiting_def list_ex_iff sync)
    moreover have "handler_act False (HStep now n sp) 0 (pc 0) s = Some (Timer H_Loop, ?s')"
      using free flag inv(4) w by (simp add: handler_act_def sync Let_def TaskBase_IsRequestCancel_def with_task_def)
    moreover have "\<not> handler_waiting t ?s'" using out by (auto simp: handler_waiting_def list_ex_iff sync)
    moreover have "TaskBase_IsStopState (hs_store ?s' x)" using assms(3) by (simp add: TaskBase_IsStopState_def)
    ultimately show ?thesis using inv(4) w by (auto simp: handler_machine_def)
  qed
qed

section \<open>The timers of a pool\<close>

lemma sched_start_view: "sched_init n c \<Longrightarrow> i < n \<Longrightarrow> sched_view i c = handler_start"
  by (auto simp: sched_init_def sched_start_def sched_view_def handler_start_def timer_of_def ScheduledThreadPool_ctor_timers)

lemma sched_timer_reachable:
  assumes "sched_reachable weak n s pc" and "i < n"
  shows "reachable (handler_machine False) (\<lambda>c. c = handler_start) (sched_view i (s, pc))"
  using pooled.view_reachable [of weak n i s pc "\<lambda>c. c = handler_start"] assms sched_start_view by simp

lemma sched_timer_inv:
  assumes "sched_reachable weak n s pc" and "i < n"
  shows "handler_inv (timer_of i s) (view_pc i pc) \<and> finish_ok (timer_of i s) (view_pc i pc)"
  using finish.reachable_inv [OF sched_timer_reachable [OF assms, unfolded sched_view_pair]] .

text \<open>
  Seen from any one of its timers, a run of the pool, with all its threads and clients and with a counter
  that may have wrapped, is a run of that timer alone, from its constructor and from any point on; so
  what is proved of the timer holds of every timer of a pool.
\<close>

theorem scheduled_timers_refine_timer:
  assumes "sched_reachable weak n s pc" and "i < n" and "reachable (sched_machine weak) (\<lambda>c. c = (s, pc)) (s', pc')"
  shows "reachable (handler_machine False) (\<lambda>c. c = handler_start) (sched_view i (s, pc)) \<and>
    reachable (handler_machine False) (\<lambda>c. c = sched_view i (s, pc)) (sched_view i (s', pc'))"
  using sched_timer_reachable [OF assms(1,2)] pooled.view_future [of weak n i s pc s' pc'] assms by simp

section \<open>Returned tasks\<close>

lemma one_step_future: "step M c c' \<Longrightarrow> reachable M (\<lambda>d. d = c) c'"
  using reachable.reach_step [OF reachable.reach_init [where init = "\<lambda>d. d = c"]] by blast

lemma sched_held_future:
  assumes "sched_reachable weak n s pc" and "i < n" and "held (timer_of i s) x"
    and "reachable (sched_machine weak) (\<lambda>c. c = (s, pc)) (s', pc')"
  shows "held (timer_of i s') x"
  using held_future [of "timer_of i s" "view_pc i pc" x] assms(3)
    sched_timer_reachable [OF assms(1,2), unfolded sched_view_pair]
    pooled.view_future [of weak n i s pc s' pc', unfolded sched_view_pair] assms(1,2,4) by simp

definition returned_ok :: "nat \<Rightarrow> sched_sys \<Rightarrow> (tid \<Rightarrow> sched_pc) \<Rightarrow> bool" where
  "returned_ok n s pc \<longleftrightarrow> (\<forall>t i x u. pc t = ClientThread (SC_Added (Some (i, x))) u \<longrightarrow> i < n \<and> held (timer_of i s) x)"

lemma add_returns_queued:
  assumes "TimerTaskHandler_add k t v h = Some (A_Added True, h')" and "adding v = Some x" and "handler_free h"
  shows "h' = queued k x h"
proof -
  have "user_move False k t h v (A_Added True) h'" by (rule add_user_move [OF assms(1,3)])
  then show ?thesis using assms(2) by (cases rule: user_move.cases) auto
qed

lemma returned_act:
  assumes reach: "sched_reachable weak n s pc" and ok: "returned_ok n s pc" and awake: "\<not> sched_waiting s t"
    and act: "sched_act weak e t (pc t) s = Some (k, s')"
  shows "returned_ok n s' (pc(t := k))"
proof -
  have inv: "sched_inv n s pc" by (rule sched.reachable_inv [OF reach])
  have "step (sched_machine weak) (s, pc) (s', pc(t := k))" using awake act by (intro step_act) simp_all
  note next1 = one_step_future [OF this]
  have mine: "i < n \<and> held (timer_of i s') x" if k: "k = ClientThread (SC_Added (Some (i, x))) u'" for i x u'
    using inv act
  proof (cases rule: sched_who)
    case (client c u c' u2)
    with k have c': "c' = SC_Added (Some (i, x))" by simp
    from client(5) show ?thesis
    proof (cases rule: client_move.cases)
      case (in_add clk m j v y)
      from in_add(3) obtain h where h: "j < n" "handler_act False (HStep clk m False) t (User (u j)) (timer_of j s) = Some (User v, h)"
          "s' = set_timer j h s" by (rule timer_callD)
      from in_add(2) c' have v: "v = A_Added True" "j = i" "y = x"
        by (cases rule: in_add_cases [of v j y]; simp split: if_splits)+
      have adds: "adding (u j) = Some x" using client(4) in_add(1) v by (simp add: client_ok_simps)
      with adding_step(1) [OF h(2)] v(1) have "TimerTaskHandler_add m t (u j) (timer_of j s) = Some (A_Added True, h)" by simp
      from add_returns_queued [OF this adds] sched_timer_inv [OF reach h(1)] have q: "h = queued m x (timer_of j s)"
        by (simp add: handler_inv_def)
      have "t \<noteq> 0" using client(1) by (cases t) simp_all
      then have "is_adding x (view_pc j pc t)" using adds client(1,2) by simp
      then have "x < hs_next (timer_of j s)"
        using sched_timer_inv [OF reach h(1)] unfolding handler_inv_def adders_ok_def by blast
      with q h inv v(2) show ?thesis by (simp add: held_def sched_inv_def pool_ok_def)
    next
      case (in_cancel j v)
      with c' show ?thesis by (cases rule: in_cancel_cases [of v j]) simp_all
    next
      case (in_shut clk m sp j v now)
      with c' show ?thesis by (cases rule: in_shut_cases [of v now j]) simp_all
    qed (use c' in simp_all)
  qed (use k in simp)
  show ?thesis
    unfolding returned_ok_def
  proof (intro allI impI)
    fix r i x u'
    assume r: "(pc(t := k)) r = ClientThread (SC_Added (Some (i, x))) u'"
    show "i < n \<and> held (timer_of i s') x"
    proof (cases "r = t")
      case True
      with r mine show ?thesis by simp
    next
      case False
      with r ok have "i < n" "held (timer_of i s) x" unfolding returned_ok_def by (metis fun_upd_other)+
      with sched_held_future [OF reach _ _ next1] show ?thesis by blast
    qed
  qed
qed

interpretation returned: machine_invariant "sched_machine weak" "sched_init n"
    "\<lambda>s pc. sched_reachable weak n s pc \<and> returned_ok n s pc" for weak n
proof (unfold_locales, goal_cases)
  case (1 s pc)
  then have "pc t \<noteq> ClientThread (SC_Added (Some r)) u" for t r u by (auto simp: sched_init_def sched_start_def)
  with 1 show ?case by (auto simp: returned_ok_def reachable.reach_init)
next
  case (2 s pc t e k s')
  then have "step (sched_machine weak) (s, pc) (s', pc(t := k))" by (intro step_act) simp_all
  with 2 show ?case by (auto intro: reachable.reach_step returned_act)
next
  case (3 s pc t)
  then have st: "step (sched_machine weak) (s, pc) (sched_unwait t s, pc)"
    using step_wakeup [of "sched_machine weak" s t pc] by simp
  with 3 sched_held_future [OF _ _ _ one_step_future [OF st]] have "returned_ok n (sched_unwait t s) pc" unfolding returned_ok_def by blast
  with 3 st show ?case by (auto intro: reachable.reach_step)
next
  case (4 s pc t k)
  then have st: "step (sched_machine weak) (s, pc) (sched_unwait t s, pc(t := k))"
    using step_timeout [of "sched_machine weak" s t pc k] by simp
  have "k = TimerThread H_Woken" using 4 by (auto simp: sched_expire_Some)
  then have "pc r = ClientThread c u" if "(pc(t := k)) r = ClientThread c u" for r c u
    using that by (auto split: if_splits)
  with 4 sched_held_future [OF _ _ _ one_step_future [OF st]]
  have "returned_ok n (sched_unwait t s) (pc(t := k))" unfolding returned_ok_def by blast
  with 4 st show ?case by (auto intro: reachable.reach_step)
qed

text \<open>
  C27: a task that an add has returned is not lost.  Whatever threads and clients do at the same time and
  ever after, shutdowns and failing weak exchanges included, the task that \<open>AddCronTimerTask(f, ..)\<close> or
  \<open>AddCycleTimerTask(f, ..)\<close> returned is one of its timer's, and it stays in that timer's queue until it has
  been taken out to be run or found CANCELLED.
\<close>

theorem scheduled_add_keeps_task:
  assumes "sched_reachable weak n s pc" and "pc t = ClientThread (SC_Added (Some (i, x))) u"
    and "reachable (sched_machine weak) (\<lambda>c. c = (s, pc)) (s', pc')"
  shows "i < n \<and> x < hs_next (timer_of i s') \<and>
    (x \<in> set (hs_queue (timer_of i s')) \<or> x \<in> fst ` set (hs_fired (timer_of i s')) \<or>
     tb_state (hs_store (timer_of i s') x) = Task_CANCELLED)"
proof -
  from returned.reachable_inv [OF assms(1)] assms(2) have "i < n" "held (timer_of i s) x"
    unfolding returned_ok_def by blast+
  with sched_held_future [OF assms(1) this assms(3)] show ?thesis by (simp add: held_def)
qed

section \<open>Turns\<close>

lemma count_list_map_filter: "count_list (map f xs) x = length (filter (\<lambda>j. f j = x) xs)"
  by (induction xs) auto

lemma count_turns:
  assumes "i < n"
  shows "length (filter (\<lambda>j. j mod n = i) [0..<m]) = (m + n - 1 - i) div n"
proof (induction m)
  case 0
  from assms show ?case by simp
next
  case (Suc m)
  have eq: "Suc m + n - 1 - i = Suc (m + n - 1 - i)" using assms by simp
  have "Suc (m + n - 1 - i) mod n = 0 \<longleftrightarrow> m mod n = i"
  proof -
    have "Suc (m + n - 1 - i) = m + (n - i)" using assms by simp
    moreover have "(m + (n - i)) mod n = 0 \<longleftrightarrow> m mod n = i"
    proof
      assume "(m + (n - i)) mod n = 0"
      then have "(m + (n - i) + i) mod n = i" using assms by (metis mod_add_left_eq add_0 mod_less)
      with assms show "m mod n = i" by simp
    next
      assume "m mod n = i"
      then have "(m + (n - i)) mod n = (i + (n - i)) mod n" by (metis mod_add_left_eq)
      with assms show "(m + (n - i)) mod n = 0" by simp
    qed
    ultimately show ?thesis by simp
  qed
  with Suc.IH show ?case unfolding eq by (simp add: div_Suc)
qed

text \<open>
  C14: the turns go round under any interleaving.  Whatever the clients do at the same time, the
  \<open>j\<close>th of all the adds that pass the test of the flag is given to timer \<open>(j mod 2^64) mod n\<close>; up to the
  wrap of the counter the numbers of adds given to two timers differ by at most one.
\<close>

theorem scheduled_turns_round_robin:
  assumes "sched_reachable weak n s pc"
  shows "sm_turns s = map (\<lambda>j. j mod 2 ^ 64 mod n) [0..<length (sm_turns s)] \<and>
    (length (sm_turns s) \<le> 2 ^ 64 \<longrightarrow>
      (\<forall>i < n. count_list (sm_turns s) i = (length (sm_turns s) + n - 1 - i) div n))"
proof -
  let ?m = "length (sm_turns s)"
  have t: "sm_turns s = map (\<lambda>j. j mod 2 ^ 64 mod n) [0..<?m]"
  proof -
    have "turns_ok n s" using sched.reachable_inv [OF assms] by (simp add: sched_inv_def)
    then show ?thesis unfolding turns_ok_def by (rule conjunct2)
  qed
  have "count_list (sm_turns s) i = (?m + n - 1 - i) div n" if "?m \<le> 2 ^ 64" and "i < n" for i
  proof -
    have "map (\<lambda>j. j mod 2 ^ 64 mod n) [0..<?m] = map (\<lambda>j. j mod n) [0..<?m]"
      using that(1) by (intro map_cong refl) simp
    from arg_cong [OF trans [OF t this], of "\<lambda>xs. count_list xs i"]
    have "count_list (sm_turns s) i = count_list (map (\<lambda>j. j mod n) [0..<?m]) i" .
    also have "\<dots> = length (filter (\<lambda>j. j mod n = i) [0..<?m])"
      by (rule count_list_map_filter)
    finally show ?thesis using count_turns [OF that(2)] by simp
  qed
  with t show ?thesis by blast
qed

section \<open>Shutting down\<close>

text \<open>Spurious failures apart, only one client sweeps over the timers, and it shuts all of them down.\<close>

definition untouched :: "handler_sys \<Rightarrow> bool" where
  "untouched h \<longleftrightarrow> \<not> hs_isRequestShutDown h \<and> \<not> ct_isRequestClose (hs_thread h)"

definition shut_done :: "bool \<Rightarrow> handler_sys \<Rightarrow> bool" where
  "shut_done b h \<longleftrightarrow> hs_isRequestShutDown h \<and> ct_isRequestClose (hs_thread h) \<and>
     (b \<longrightarrow> ct_state (hs_thread h) = Thread_FINISHED)"

fun closing :: "bool \<Rightarrow> user_pc \<Rightarrow> handler_sys \<Rightarrow> bool" where
  "closing b (A_ShutDown c) h \<longleftrightarrow> c = b \<and> untouched h"
| "closing b (A_PushEnd c) h \<longleftrightarrow> c = b \<and> hs_isRequestShutDown h \<and> \<not> ct_isRequestClose (hs_thread h)"
| "closing b (A_Close c) h \<longleftrightarrow> c = b \<and> hs_isRequestShutDown h \<and> \<not> ct_isRequestClose (hs_thread h)"
| "closing b A_CloseWait h \<longleftrightarrow> b \<and> hs_isRequestShutDown h \<and> ct_isRequestClose (hs_thread h)"
| "closing b _ h \<longleftrightarrow> False"

definition swept :: "bool \<Rightarrow> nat \<Rightarrow> nat \<Rightarrow> sched_sys \<Rightarrow> bool" where
  "swept b n i s \<longleftrightarrow> (\<forall>j < n. if j < i then shut_done b (timer_of j s) else untouched (timer_of j s))"

fun progress :: "bool \<Rightarrow> nat \<Rightarrow> sched_client \<Rightarrow> (nat \<Rightarrow> user_pc) \<Rightarrow> sched_sys \<Rightarrow> bool" where
  "progress b n (SC_SetStop c) u s \<longleftrightarrow> c = b \<and> swept b n 0 s"
| "progress b n (SC_Loop c i) u s \<longleftrightarrow> c = b \<and> swept b n i s"
| "progress b n (SC_CallShut c i) u s \<longleftrightarrow> c = b \<and> swept b n i s"
| "progress b n (SC_InShut c i) u s \<longleftrightarrow> c = b \<and> closing b (u i) (timer_of i s) \<and>
     (\<forall>j < n. j \<noteq> i \<longrightarrow> (if j < i then shut_done b (timer_of j s) else untouched (timer_of j s)))"
| "progress b n _ u s \<longleftrightarrow> False"

definition sweeping :: "sched_pc \<Rightarrow> bool" where
  "sweeping k \<longleftrightarrow> (case k of ClientThread c _ \<Rightarrow>
     (case c of SC_SetStop _ \<Rightarrow> True | SC_Loop _ _ \<Rightarrow> True | SC_CallShut _ _ \<Rightarrow> True | SC_InShut _ _ \<Rightarrow> True | _ \<Rightarrow> False)
   | TimerThread _ \<Rightarrow> False)"

definition sweep_ok :: "bool \<Rightarrow> nat \<Rightarrow> sched_sys \<Rightarrow> (tid \<Rightarrow> sched_pc) \<Rightarrow> bool" where
  "sweep_ok b n s pc \<longleftrightarrow>
     (if sc_state (sm_pool s) = Sched_SHUTDOWN then (\<forall>t. \<not> sweeping (pc t)) \<and> (\<forall>i < n. shut_done b (timer_of i s))
      else \<exists>t. (\<forall>x. x \<noteq> t \<longrightarrow> \<not> sweeping (pc x)) \<and> (\<exists>c u. pc t = ClientThread c u \<and> progress b n c u s))"

definition shut_inv :: "nat \<Rightarrow> sched_sys \<Rightarrow> (tid \<Rightarrow> sched_pc) \<Rightarrow> bool" where
  "shut_inv n s pc \<longleftrightarrow>
     (case sm_won s of
        None \<Rightarrow> \<not> sc_isRequestShutDown (sm_pool s) \<and> sc_state (sm_pool s) \<noteq> Sched_SHUTDOWN \<and>
          (\<forall>t. \<not> sweeping (pc t)) \<and> (\<forall>i < n. untouched (timer_of i s))
      | Some b \<Rightarrow> sc_isRequestShutDown (sm_pool s) \<and> sweep_ok b n s pc)"

text \<open>What the actions of the others keep.\<close>

definition same_flags :: "handler_sys \<Rightarrow> handler_sys \<Rightarrow> bool" where
  "same_flags h h' \<longleftrightarrow> hs_isRequestShutDown h' = hs_isRequestShutDown h \<and>
     ct_isRequestClose (hs_thread h') = ct_isRequestClose (hs_thread h) \<and>
     (ct_state (hs_thread h) = Thread_FINISHED \<longrightarrow> ct_state (hs_thread h') = Thread_FINISHED)"

lemma same_flags_refl [simp]: "same_flags h h"
  by (simp add: same_flags_def)

lemma same_flags_keeps:
  assumes "same_flags h h'"
  shows "untouched h \<Longrightarrow> untouched h'" and "shut_done b h \<Longrightarrow> shut_done b h'" and "closing b v h \<Longrightarrow> closing b v h'"
proof -
  show "untouched h \<Longrightarrow> untouched h'" "shut_done b h \<Longrightarrow> shut_done b h'"
    using assms by (auto simp: same_flags_def untouched_def shut_done_def)
  show "closing b v h \<Longrightarrow> closing b v h'"
    using assms by (cases v) (auto simp: same_flags_def untouched_def)
qed

definition same_timers :: "nat \<Rightarrow> sched_sys \<Rightarrow> sched_sys \<Rightarrow> bool" where
  "same_timers n s s' \<longleftrightarrow> (\<forall>i < n. same_flags (timer_of i s) (timer_of i s'))"

lemma progress_keeps:
  assumes "same_timers n s s'" and "client_ok n c u" and "progress b n c u s"
  shows "progress b n c u s'"
proof -
  have keep: "untouched (timer_of i s) \<Longrightarrow> untouched (timer_of i s')" "shut_done b (timer_of i s) \<Longrightarrow> shut_done b (timer_of i s')"
      "closing b v (timer_of i s) \<Longrightarrow> closing b v (timer_of i s')" if "i < n" for i b v
    using same_flags_keeps assms(1) that by (auto simp: same_timers_def)
  then have sw: "swept b n i s \<Longrightarrow> swept b n i s'" for i by (simp add: swept_def)
  show ?thesis
    using assms(2,3) by (cases c) (simp_all add: sw keep client_ok_simps)
qed

lemma sweeping_simps [simp]:
  "\<not> sweeping (TimerThread w)" "\<not> sweeping (ClientThread SC_Ready u)" "\<not> sweeping (ClientThread (SC_Load r) u)"
  "\<not> sweeping (ClientThread (SC_Turn r) u)" "\<not> sweeping (ClientThread (SC_Call i r) u)" "\<not> sweeping (ClientThread (SC_InAdd i x) u)"
  "\<not> sweeping (ClientThread (SC_Added r') u)" "\<not> sweeping (ClientThread (SC_InCancel i) u)" "\<not> sweeping (ClientThread (SC_Shut b) u)" "\<not> sweeping (ClientThread SC_ShutReturned u)"
  "sweeping (ClientThread (SC_SetStop b) u)" "sweeping (ClientThread (SC_Loop b i) u)"
  "sweeping (ClientThread (SC_CallShut b i) u)" "sweeping (ClientThread (SC_InShut b i) u)"
  by (simp_all add: sweeping_def)

lemma sweeping_ready: "client_ready c \<Longrightarrow> \<not> sweeping (ClientThread c u)"
  by (cases c) (auto simp: client_ready_def)

lemma progress_sweeping: "progress b n c u s \<Longrightarrow> sweeping (ClientThread c u)"
  by (cases c) (simp_all add: sweeping_def)

lemma shut_inv_keeps:
  assumes inv: "sched_inv n s pc" "shut_inv n s pc" and same: "same_timers n s s'"
    and pool: "sm_won s' = sm_won s" "sc_isRequestShutDown (sm_pool s') = sc_isRequestShutDown (sm_pool s)"
      "sc_state (sm_pool s') = sc_state (sm_pool s)"
    and k: "pc' = pc \<or> (\<exists>t k. pc' = pc(t := k) \<and> \<not> sweeping (pc t) \<and> \<not> sweeping k)"
  shows "shut_inv n s' pc'"
proof -
  have quiet: "sweeping (pc' t) = sweeping (pc t)" for t using k by (auto split: if_splits)
  have keep: "untouched (timer_of i s) \<Longrightarrow> untouched (timer_of i s')" "shut_done b (timer_of i s) \<Longrightarrow> shut_done b (timer_of i s')"
    if "i < n" for i b using same_flags_keeps same that by (auto simp: same_timers_def)
  show ?thesis
  proof (cases "sm_won s")
    case None
    with inv(2) keep show ?thesis by (simp add: shut_inv_def pool quiet)
  next
    case (Some b)
    have "sweep_ok b n s' pc'"
    proof (cases "sc_state (sm_pool s) = Sched_SHUTDOWN")
      case True
      with Some inv(2) keep show ?thesis by (simp add: shut_inv_def sweep_ok_def pool quiet)
    next
      case False
      with Some inv(2) obtain t c u where o: "\<And>x. x \<noteq> t \<Longrightarrow> \<not> sweeping (pc x)" "pc t = ClientThread c u" "progress b n c u s"
        by (auto simp: shut_inv_def sweep_ok_def)
      have "role_ok n t (pc t)" using inv(1) by (simp add: sched_inv_def)
      with o(2) have "client_ok n c u" by (simp add: role_ok_def)
      from progress_keeps [OF same this o(3)] have p: "progress b n c u s'" .
      have "sweeping (pc t)" using progress_sweeping [OF o(3)] o(2) by simp
      with k o(2) have "pc' t = ClientThread c u" by auto
      with p o(1) False show ?thesis unfolding sweep_ok_def pool quiet by auto
    qed
    with Some inv(2) show ?thesis by (simp add: shut_inv_def pool)
  qed
qed

text \<open>Every action but those of a sweep leaves the flags of the timers alone.\<close>

lemma timer_same_flags:
  assumes "handler_inv h pc" and "finish_ok h pc" and "pc 0 = Timer w"
    and "handler_act False e 0 (Timer w) h = Some (Timer w', h')"
  shows "same_flags h h'"
proof -
  from assms(3,4) have "handler_act False e 0 (pc 0) h = Some (Timer w', h')" by simp
  with assms(1) have m: "timer_move 0 h w w' h'" using assms(3) by (cases rule: handler_who) auto
  have "w \<noteq> H_Start \<and> w \<noteq> H_SetFinished" if "ct_state (hs_thread h) = Thread_FINISHED"
    using that assms(2,3) by (auto simp: finish_ok_def)
  with timer_move_state [OF m] timer_move_frame [OF m] show ?thesis by (auto simp: same_flags_def)
qed

lemma add_same_flags:
  assumes "TimerTaskHandler_add k t v h = Some (v', h')"
  shows "same_flags h h'"
  using assms by (cases v) (auto simp: same_flags_def Option.bind_eq_Some_conv Let_def)

lemma cancel_same_flags:
  assumes "timer_cancel t v h = Some (v', h')"
  shows "same_flags h h'"
  using assms by (cases v) (auto simp: same_flags_def Option.bind_eq_Some_conv Let_def split: if_splits prod.splits)

lemma same_timers_set_timer:
  "num_timers s = n \<Longrightarrow> i < n \<Longrightarrow> same_flags (timer_of i s) h \<Longrightarrow> same_timers n s (set_timer i h s)"
  by (simp add: same_timers_def)

lemma closing_step:
  assumes "TimerTaskHandler_ShutDownHelper clk k False t v h = Some (v', h')" and "closing b v h" and "handler_free h"
  shows "if v' = A_ShutReturned then shut_done b h' else closing b v' h'"
  using assms(1,2) handler_freeD [OF assms(3)]
  by (cases v) (auto simp: sync close_op_defs Let_def untouched_def shut_done_def split: if_splits)

text \<open>The actions of a client.\<close>

lemma sched_client_move_shut:
  assumes "client_move n False t s c u c' u' s'" and inv: "client_ok n c u" "num_timers s = n"
    and free: "\<forall>i < n. handler_free (timer_of i s)"
  obtains (quiet) "\<not> sweeping (ClientThread c u)" "\<not> sweeping (ClientThread c' u')" "same_timers n s s'" "sm_won s' = sm_won s"
      "sc_isRequestShutDown (sm_pool s') = sc_isRequestShutDown (sm_pool s)" "sc_state (sm_pool s') = sc_state (sm_pool s)"
  | (won) now where "\<not> sc_isRequestShutDown (sm_pool s)" "c' = SC_SetStop now" "sm_won s' = Some now"
      "sc_isRequestShutDown (sm_pool s')" "sc_state (sm_pool s') = sc_state (sm_pool s)" "\<And>i. timer_of i s' = timer_of i s"
  | (sweep) "\<And>b. progress b n c u s \<Longrightarrow> progress b n c' u' s'" "sweeping (ClientThread c u)" "sm_won s' = sm_won s"
      "sc_isRequestShutDown (sm_pool s') = sc_isRequestShutDown (sm_pool s)"
      "sc_state (sm_pool s) \<noteq> Sched_SHUTDOWN \<Longrightarrow> sc_state (sm_pool s') \<noteq> Sched_SHUTDOWN"
  | (over) "\<And>b. progress b n c u s \<Longrightarrow> (\<forall>i < n. shut_done b (timer_of i s'))" "sweeping (ClientThread c u)"
      "\<not> sweeping (ClientThread c' u')" "sm_won s' = sm_won s"
      "sc_isRequestShutDown (sm_pool s') = sc_isRequestShutDown (sm_pool s)" "sc_state (sm_pool s') = Sched_SHUTDOWN"
  using assms(1)
proof (cases rule: client_move.cases)
  case (calls_add r)
  then show thesis by (intro quiet) (auto simp: same_timers_def sweeping_ready)
next
  case (calls_shut now)
  then show thesis by (intro quiet) (auto simp: same_timers_def sweeping_ready)
next
  case (add_call clk r i v)
  from add_call(3) obtain h where h: "i < n" "handler_act False (request_ev clk r) t (User (u i)) (timer_of i s) = Some (User v, h)"
      "s' = set_timer i h s" by (rule timer_callD)
  from adding_call [OF h(2)] have "same_flags (timer_of i s) h" by (simp add: same_flags_def new_task_def)
  with h add_call(1,2) inv(2) show thesis by (intro quiet same_timers_set_timer) (auto intro: same_timers_set_timer)
next
  case (in_add clk k i v x)
  from in_add(3) obtain h where h: "i < n" "handler_act False (HStep clk k False) t (User (u i)) (timer_of i s) = Some (User v, h)"
      "s' = set_timer i h s" by (rule timer_callD)
  have "adding (u i) \<noteq> None" using inv(1) in_add(1) by (simp add: client_ok_simps)
  from add_same_flags [OF adding_step(1) [OF h(2) this]] h in_add(1,2) inv(2) show thesis
    by (intro quiet) (auto intro: same_timers_set_timer split: user_pc.splits)
next
  case (calls_cancel x i v)
  from calls_cancel(3) obtain h where h: "i < n" "handler_act False (CallCancel x) t (User (u i)) (timer_of i s) = Some (User v, h)"
      "s' = set_timer i h s" by (rule timer_callD)
  from cancelling_call [OF h(2)] have "same_flags (timer_of i s) h" by (simp add: same_flags_def)
  with h calls_cancel(1,2) inv(2) show thesis by (intro quiet) (auto simp: sweeping_ready intro: same_timers_set_timer)
next
  case (in_cancel i v)
  from in_cancel(3) obtain h where h: "i < n" "handler_act False (HStep 0 0 False) t (User (u i)) (timer_of i s) = Some (User v, h)"
      "s' = set_timer i h s" by (rule timer_callD)
  have "cancelling (u i)" using inv(1) in_cancel(1) by (simp add: client_ok_simps)
  from cancel_same_flags [OF cancelling_step(1) [OF h(2) this]] h in_cancel(1,2) inv(2) show thesis
    by (intro quiet) (auto intro: same_timers_set_timer split: user_pc.splits)
next
  case (won now)
  then show thesis by (intro that(2) [of now]) simp_all
next
  case (set_stop now)
  then show thesis by (intro sweep) (simp_all add: swept_def)
next
  case (loop i now)
  then show thesis by (intro sweep) simp_all
next
  case (loop_end i now)
  then show thesis by (intro over) (auto simp: swept_def)
next
  case (shut_call now i v)
  from shut_call(3) obtain h where h: "i < n" "handler_act False (CallShutDown now) t (User (u i)) (timer_of i s) = Some (User v, h)"
      "u' = u(i := v)" "s' = set_timer i h s" by (rule timer_callD)
  with leaving_call [OF h(2)] shut_call(1,2) inv(2) show thesis
    by (intro sweep) (auto simp: swept_def)
next
  case (in_shut clk k sp i v now)
  from in_shut(3) obtain h where h: "i < n" "handler_act False (HStep clk k sp) t (User (u i)) (timer_of i s) = Some (User v, h)"
      "u' = u(i := v)" "s' = set_timer i h s" by (rule timer_callD)
  have "leaving (u i)" "\<not> sp" using inv(1) in_shut(1,4) by (simp_all add: client_ok_simps)
  with leaving_step(1) [OF h(2)] have st: "TimerTaskHandler_ShutDownHelper clk k False t (u i) (timer_of i s) = Some (v, h)" by simp
  show thesis
  proof (rule sweep)
    show "progress b n c' u' s'" if "progress b n c u s" for b
    proof -
      from that in_shut(1) have p: "now = b" "closing b (u i) (timer_of i s)"
          "\<And>j. j < n \<Longrightarrow> j \<noteq> i \<Longrightarrow> if j < i then shut_done b (timer_of j s) else untouched (timer_of j s)" by simp_all
      from closing_step [OF st p(2) free [rule_format, OF h(1)]] p(1,3) h(1,3,4) inv(2) in_shut(2) show ?thesis
        by (cases rule: in_shut_cases [of v now i]) (auto simp: swept_def less_Suc_eq)
    qed
  qed (use in_shut(1) h(4) in \<open>simp_all\<close>)
qed (intro quiet; simp add: same_timers_def)+

lemma sched_free:
  assumes "sched_reachable weak n s pc"
  shows "\<forall>i < n. handler_free (timer_of i s)"
  using sched_timer_inv [OF assms] by (simp add: handler_inv_def)

lemma sweeper:
  assumes "shut_inv n s pc" and "pc t = ClientThread c u" and "sweeping (ClientThread c u)"
  obtains b where "sm_won s = Some b" "sc_isRequestShutDown (sm_pool s)" "sc_state (sm_pool s) \<noteq> Sched_SHUTDOWN"
    "\<And>x. x \<noteq> t \<Longrightarrow> \<not> sweeping (pc x)" "progress b n c u s"
proof -
  have sw: "sweeping (pc t)" using assms(2,3) by simp
  with assms(1) obtain b where b: "sm_won s = Some b" "sc_isRequestShutDown (sm_pool s)" "sweep_ok b n s pc"
    by (auto simp: shut_inv_def split: option.splits)
  from b(3) sw have st: "sc_state (sm_pool s) \<noteq> Sched_SHUTDOWN" by (auto simp: sweep_ok_def)
  with b(3) obtain t' c' u' where o: "\<And>x. x \<noteq> t' \<Longrightarrow> \<not> sweeping (pc x)" "pc t' = ClientThread c' u'" "progress b n c' u' s"
    by (auto simp: sweep_ok_def)
  have "t' = t" using o(1) [of t] sw by (cases "t' = t") auto
  with o b st assms(2) show thesis by (intro that) auto
qed

lemma shut_inv_act:
  assumes reach: "sched_reachable False n s pc" and shut: "shut_inv n s pc"
    and "sched_act False e t (pc t) s = Some (k, s')"
  shows "shut_inv n s' (pc(t := k))"
proof -
  have inv: "sched_inv n s pc" by (rule sched.reachable_inv [OF reach])
  then have n: "num_timers s = n" by (simp add: sched_inv_def pool_ok_def)
  from inv assms(3) show ?thesis
  proof (cases rule: sched_who)
    case (timer w w' e' h)
    have "t = 2 * (t div 2)" using timer(1) by simp
    with timer(2) have "view_pc (t div 2) pc 0 = Timer w" by simp
    with sched_timer_inv [OF reach timer(5)] timer(6) have "same_flags (timer_of (t div 2) s) h"
      by (blast intro: timer_same_flags)
    then have "same_timers n s s'" unfolding timer(7) by (rule same_timers_set_timer [OF n timer(5)])
    then show ?thesis
      by (intro shut_inv_keeps [OF inv shut] disjI2 exI [of _ t] exI [of _ k]) (simp_all add: timer(2,3,7))
  next
    case (client c u c' u')
    from client(5,4) n sched_free [OF reach] show ?thesis
    proof (cases rule: sched_client_move_shut)
      case quiet
      then show ?thesis
        by (intro shut_inv_keeps [OF inv shut quiet(3-6)] disjI2 exI [of _ t] exI [of _ k]) (simp add: client(2,3))
    next
      case (won now)
      with shut have none: "sc_state (sm_pool s) \<noteq> Sched_SHUTDOWN" "\<And>x. \<not> sweeping (pc x)" "\<And>i. i < n \<Longrightarrow> untouched (timer_of i s)"
        by (auto simp: shut_inv_def split: option.splits)
      have "progress now n c' u' s'" using won(2,6) none(3) by (simp add: swept_def)
      with none(1,2) won(5) client(3) have "sweep_ok now n s' (pc(t := k))" unfolding sweep_ok_def by auto
      with won(3,4) show ?thesis by (simp add: shut_inv_def)
    next
      case sweep
      obtain b where b: "sm_won s = Some b" "sc_isRequestShutDown (sm_pool s)" "sc_state (sm_pool s) \<noteq> Sched_SHUTDOWN"
          "\<And>x. x \<noteq> t \<Longrightarrow> \<not> sweeping (pc x)" "progress b n c u s"
        by (rule sweeper [OF shut client(2) sweep(2)]) blast
      with sweep(1,5) client(3) have "sweep_ok b n s' (pc(t := k))" unfolding sweep_ok_def by auto
      with b(1,2) sweep(3,4) show ?thesis by (simp add: shut_inv_def)
    next
      case over
      obtain b where b: "sm_won s = Some b" "sc_isRequestShutDown (sm_pool s)" "\<And>x. x \<noteq> t \<Longrightarrow> \<not> sweeping (pc x)" "progress b n c u s"
        by (rule sweeper [OF shut client(2) over(2)]) blast
      with over(1,3,6) client(3) have "sweep_ok b n s' (pc(t := k))" unfolding sweep_ok_def by simp
      with b(1,2) over(4,5) show ?thesis by (simp add: shut_inv_def)
    qed
  qed
qed

lemma wakeup_same_flags: "same_flags h (handler_wakeup t h)"
  by (simp add: handler_wakeup_def handler_unwait_def same_flags_def)

lemma unwait_pool:
  "sm_won (sched_unwait t s) = sm_won s" "sc_isRequestShutDown (sm_pool (sched_unwait t s)) = sc_isRequestShutDown (sm_pool s)"
  "sc_state (sm_pool (sched_unwait t s)) = sc_state (sm_pool s)"
  by (simp_all add: sched_unwait_def)

lemma shut_inv_unwait:
  assumes "sched_inv n s pc" and "shut_inv n s pc" and "sched_waiting s t"
    and "pc' = pc \<or> (\<exists>t k. pc' = pc(t := k) \<and> \<not> sweeping (pc t) \<and> \<not> sweeping k)"
  shows "shut_inv n (sched_unwait t s) pc'"
proof (rule shut_inv_keeps [OF assms(1,2)])
  show "same_timers n s (sched_unwait t s)"
    using sched_unwait_timer [OF assms(1,3)] by (simp add: same_timers_def wakeup_same_flags)
qed (use assms(4) unwait_pool in simp_all)

lemma sched_start_shut:
  assumes "sched_init n (s, pc)"
  shows "shut_inv n s pc"
proof -
  have "timer_of i s = TimerTaskHandler_ctor" if "i < n" for i
    using assms that by (auto simp: sched_init_def sched_start_def timer_of_def ScheduledThreadPool_ctor_timers)
  moreover have "untouched TimerTaskHandler_ctor"
    by (simp add: untouched_def TimerTaskHandler_ctor_def CloseableThread_ctor_def)
  ultimately show ?thesis
    using assms by (auto simp: shut_inv_def sched_init_def sched_start_def ScheduledThreadPool_ctor_timers)
qed

interpretation shutdown: machine_invariant "sched_machine False" "sched_init n"
    "\<lambda>s pc. sched_reachable False n s pc \<and> shut_inv n s pc" for n
proof (unfold_locales, goal_cases)
  case (1 s pc)
  then show ?case by (simp add: sched_start_shut reachable.reach_init)
next
  case (2 s pc t e k s')
  then have "step (sched_machine False) (s, pc) (s', pc(t := k))" by (intro step_act) simp_all
  with 2 show ?case by (auto intro: reachable.reach_step shut_inv_act)
next
  case (3 s pc t)
  then have "step (sched_machine False) (s, pc) (sched_unwait t s, pc)"
    using step_wakeup [of "sched_machine False" s t pc] by simp
  with 3 show ?case by (auto intro: reachable.reach_step shut_inv_unwait sched.reachable_inv)
next
  case (4 s pc t k)
  then have "step (sched_machine False) (s, pc) (sched_unwait t s, pc(t := k))"
    using step_timeout [of "sched_machine False" s t pc k] by simp
  moreover have "\<not> sweeping (pc t) \<and> \<not> sweeping k" using 4 by (auto simp: sched_expire_Some)
  then have "shut_inv n (sched_unwait t s) (pc(t := k))"
    using 4 by (intro shut_inv_unwait [of n s pc]) (auto intro: sched.reachable_inv)
  ultimately show ?case using 4 by (auto intro: reachable.reach_step)
qed

lemma shut_down_done:
  assumes "sched_reachable False n s pc" and "sc_state (sm_pool s) = Sched_SHUTDOWN"
  obtains b where "sm_won s = Some b" "sc_isRequestShutDown (sm_pool s)" "\<And>i. i < n \<Longrightarrow> shut_done b (timer_of i s)"
    "\<And>t. \<not> sweeping (pc t)"
  using shutdown.reachable_inv [OF assms(1)] assms(2)
  by (auto simp: shut_inv_def sweep_ok_def split: option.splits)

lemma final_act:
  assumes reach: "sched_reachable False n s pc" and final: "sc_state (sm_pool s) = Sched_SHUTDOWN"
    and "sched_act False e t (pc t) s = Some (k, s')"
  shows "sc_state (sm_pool s') = Sched_SHUTDOWN \<and> sm_won s' = sm_won s"
proof -
  obtain b where b: "sc_isRequestShutDown (sm_pool s)" "\<not> sweeping (pc t)"
    using shut_down_done [OF reach final] by metis
  have inv: "sched_inv n s pc" by (rule sched.reachable_inv [OF reach])
  then have n: "num_timers s = n" by (simp add: sched_inv_def pool_ok_def)
  from inv assms(3) show ?thesis
  proof (cases rule: sched_who)
    case (timer w w' e' h)
    with final show ?thesis by simp
  next
    case (client c u c' u')
    from client(5,4) n sched_free [OF reach] show ?thesis
      by (cases rule: sched_client_move_shut) (use b client(2) final in simp_all)
  qed
qed

lemma final_future:
  assumes "sched_reachable False n s pc" and "sc_state (sm_pool s) = Sched_SHUTDOWN"
    and "reachable (sched_machine False) (\<lambda>c. c = (s, pc)) (s', pc')"
  shows "sched_reachable False n s' pc'" and "sc_state (sm_pool s') = Sched_SHUTDOWN" and "sm_won s' = sm_won s"
proof -
  have m: "machine_invariant (sched_machine False) (\<lambda>c. c = (s, pc))
      (\<lambda>s' pc'. (sched_reachable False n s' pc' \<and> shut_inv n s' pc') \<and> sc_state (sm_pool s') = Sched_SHUTDOWN \<and> sm_won s' = sm_won s)"
  proof (unfold_locales, goal_cases)
    case (1 s1 pc1)
    with shutdown.reachable_inv [OF assms(1)] assms(2) show ?case by simp
  next
    case (2 s1 pc1 t e k s2)
    then show ?case using shutdown.act_inv [of n s1 pc1 t e k s2] final_act [of n s1 pc1 e t k s2] by simp
  next
    case (3 s1 pc1 t)
    then show ?case using shutdown.wakeup_inv [of n s1 pc1 t] by (simp add: unwait_pool)
  next
    case (4 s1 pc1 t k)
    then show ?case using shutdown.timeout_inv [of n s1 pc1 t k] by (simp add: unwait_pool)
  qed
  from machine_invariant.reachable_inv [OF m assms(3)]
  show "sched_reachable False n s' pc'" "sc_state (sm_pool s') = Sched_SHUTDOWN" "sm_won s' = sm_won s" by blast+
qed

lemma IsShutDown_free:
  "sc_stateGuard p = free_mutex \<Longrightarrow> ScheduledThreadPool_IsShutDown t p = Some (sc_state p = Sched_SHUTDOWN, p)"
  by (cases p) (simp add: ScheduledThreadPool_IsShutDown_def ScheduledThreadPool_DoIsShutDown_def MutexLocker_def Mutex_Lock_def
      MutexLocker_dtor_def Mutex_Unlock_def)

lemma final_timer:
  assumes "sched_reachable False n s pc" and "sc_state (sm_pool s) = Sched_SHUTDOWN"
    and "reachable (sched_machine False) (\<lambda>c. c = (s, pc)) (s', pc')" and "i < n"
  shows "timer_refusing (timer_of i s') \<and> hs_fired (timer_of i s') = hs_fired (timer_of i s)"
    and "sm_won s = Some True \<Longrightarrow> pc' (2 * i) = TimerThread H_NotifyClosed \<or> pc' (2 * i) = TimerThread H_Done"
proof -
  note r' = final_future [OF assms(1-3)]
  obtain b where b: "sm_won s = Some b" "shut_done b (timer_of i s)"
    using shut_down_done [OF assms(1,2)] assms(4) by metis
  have over: "shut_done b (timer_of i s')"
    using shut_down_done [OF r'(1,2)] r'(3) b(1) assms(4) by (metis option.inject)
  have "closed_since (timer_of i s) (timer_of i s')"
    using closed_future [of "timer_of i s" "view_pc i pc"] b(2)
      sched_timer_reachable [OF assms(1,4), unfolded sched_view_pair]
      pooled.view_future [of False n i s pc s' pc', unfolded sched_view_pair] assms(1,3,4)
    by (simp add: shut_done_def)
  with over show "timer_refusing (timer_of i s') \<and> hs_fired (timer_of i s') = hs_fired (timer_of i s)"
    by (simp add: closed_since_def shut_done_def timer_refusing_def)
  show "pc' (2 * i) = TimerThread H_NotifyClosed \<or> pc' (2 * i) = TimerThread H_Done" if "sm_won s = Some True"
  proof -
    have "finish_ok (timer_of i s') (view_pc i pc')" using sched_timer_inv [OF r'(1) assms(4)] by simp
    with over that b(1) have "part i (pc' (2 * i)) = Timer H_NotifyClosed \<or> part i (pc' (2 * i)) = Timer H_Done"
      by (simp add: finish_ok_def shut_done_def)
    then show ?thesis by (cases "pc' (2 * i)") auto
  qed
qed

text \<open>
  C7: \<open>SHUTDOWN\<close> is final in executions in which no weak exchange fails spuriously (\<open>sched_machine False\<close>),
  whatever the clients do at the same time.  Once the pool is \<open>SHUTDOWN\<close>, \<open>IsShutDown\<close> is true for ever,
  every timer refuses, and no timer ever takes another task, not even one whose add returned the task;
  after \<open>ShutDownNow\<close> no timer is inside a task either: the threads are past their loops.  A spurious
  failure can leave a timer running (lemma \<open>spurious_failure_skips_timer\<close>).
\<close>

theorem scheduled_shutdown_is_final:
  assumes "sched_reachable False n s pc" and "sc_state (sm_pool s) = Sched_SHUTDOWN"
    and "reachable (sched_machine False) (\<lambda>c. c = (s, pc)) (s', pc')"
  shows "ScheduledThreadPool_IsShutDown t (sm_pool s') = Some (True, sm_pool s') \<and>
    (\<forall>i < n. timer_refusing (timer_of i s') \<and> hs_fired (timer_of i s') = hs_fired (timer_of i s)) \<and>
    (sm_won s = Some True \<longrightarrow> (\<forall>i < n. pc' (2 * i) = TimerThread H_NotifyClosed \<or> pc' (2 * i) = TimerThread H_Done))"
proof -
  note r' = final_future [OF assms]
  have "sched_inv n s' pc'" by (rule sched.reachable_inv [OF r'(1)])
  then have "sc_stateGuard (sm_pool s') = free_mutex" by (simp add: sched_inv_def pool_ok_def)
  then have "ScheduledThreadPool_IsShutDown t (sm_pool s') = Some (True, sm_pool s')"
    using IsShutDown_free [of "sm_pool s'" t] r'(2) by simp
  with final_timer [OF assms] show ?thesis by blast
qed

section \<open>\<open>ShutDown\<close> does not block\<close>

fun close_stage :: "user_pc \<Rightarrow> nat" where
  "close_stage (A_ShutDown _) = 4" | "close_stage (A_PushEnd _) = 3" | "close_stage (A_Close _) = 2" | "close_stage _ = 0"

text \<open>The actions a sweep over \<open>n\<close> timers has left, at most.\<close>

fun sweep_rank :: "nat \<Rightarrow> sched_pc \<Rightarrow> nat" where
  "sweep_rank n (ClientThread (SC_SetStop _) u) = 5 * n + 2"
| "sweep_rank n (ClientThread (SC_Loop _ i) u) = 5 * (n - i) + 1"
| "sweep_rank n (ClientThread (SC_CallShut _ i) u) = 5 * (n - i)"
| "sweep_rank n (ClientThread (SC_InShut _ i) u) = 5 * (n - Suc i) + close_stage (u i)"
| "sweep_rank n _ = 0"

lemma close_stage_less:
  assumes "TimerTaskHandler_ShutDownHelper clk k False t v h = Some (v', h')" and "closing False v h"
  shows "if v' = A_ShutReturned then 2 \<le> close_stage v else close_stage v' < close_stage v"
  using assms by (cases v) (auto simp: untouched_def Option.bind_eq_Some_conv Let_def split: if_splits prod.splits)

lemma closing_enabled:
  assumes "closing False v h" and "handler_free h"
  shows "\<exists>v' h'. handler_act False (HStep 0 0 False) t (User v) h = Some (User v', h')"
  using assms(1) handler_freeD [OF assms(2)]
  by (cases v) (auto simp: handler_act_def sync close_op_defs Let_def)

lemma sweeper_awake:
  assumes reach: "sched_reachable weak n s pc" and pc: "pc t = ClientThread c u" and u: "\<And>i. i < n \<Longrightarrow> u i \<noteq> A_CloseWait \<and> \<not> cancelling (u i)"
  shows "\<not> sched_waiting s t"
proof -
  have inv: "sched_inv n s pc" by (rule sched.reachable_inv [OF reach])
  then have n: "num_timers s = n" and "role_ok n t (pc t)" by (simp_all add: sched_inv_def pool_ok_def)
  with pc have t: "odd t" by (simp add: role_ok_def)
  have "\<not> handler_waiting t (timer_of i s)" if "i < n" for i
  proof -
    from sched_timer_inv [OF reach that] obtain w where h: "sleep_ok (timer_of i s) w" "finish_ok (timer_of i s) (view_pc i pc)"
        "cancel_ok (timer_of i s) (view_pc i pc)"
      by (auto simp: handler_inv_def)
    have "view_pc i pc t = User (u i)" using t pc by (auto simp: odd_pos)
    with h(2) u [OF that] have "t \<notin> set (m_cond (ct_stateGuard (hs_thread (timer_of i s))))"
      unfolding finish_ok_def by (metis handler_pc.inject(2))
    moreover have "t \<notin> set (m_cond (hs_cond (timer_of i s)))" using h(1) t by (auto simp: sleep_ok_def)
    moreover have "t \<notin> set (cancellers (timer_of i s) x)" for x
      using h(3) u [OF that] \<open>view_pc i pc t = User (u i)\<close> unfolding cancel_ok_def
      by (metis cancelling.simps(1) handler_pc.inject(2))
    ultimately show ?thesis by (auto simp: handler_waiting_def list_ex_iff sync)
  qed
  with t n show ?thesis by (simp add: sched_waiting_def list_ex_iff)
qed

lemma sweep_enabled:
  assumes ok: "pool_ok n s" "client_ok n c u" and free: "\<forall>i < n. handler_free (timer_of i s)" and p: "progress False n c u s"
  shows "sched_client_act False (PoolStep 0 0 False) t c u s \<noteq> None"
proof -
  have g: "sc_stateGuard (sm_pool s) = free_mutex" "sc_handlerGuard (sm_pool s) = free_mutex"
      "length (sc_handlers (sm_pool s)) = n"
    using ok(1) by (simp_all add: pool_ok_def num_timers_def)
  have timer: "in_timer i e t k s = map_option (\<lambda>(k', h'). (k', set_timer i h' s)) (handler_act False e t k (timer_of i s))"
    if "i < n" for i e k
    using ok(1) that by (auto simp: in_timer_def pool_ok_def num_timers_def timer_of_def)
  have "sched_shut_act 0 0 False t c u s \<noteq> None"
  proof (cases c)
    case (SC_SetStop now)
    then show ?thesis by (simp add: SetState_free [OF g(1)])
  next
    case (SC_Loop now i)
    then show ?thesis by (simp add: SetState_free [OF g(1)] g(2) MutexLocker_free Let_def)
  next
    case (SC_CallShut now i)
    with ok(2) have "i < n" "user_ready (u i)" by (simp_all add: client_ok_simps)
    then have "handler_act False (CallShutDown now) t (User (u i)) (timer_of i s) = Some (User (A_ShutDown now), timer_of i s)"
      by (simp add: handler_act_def user_call_def)
    with SC_CallShut timer [OF \<open>i < n\<close>] show ?thesis by (simp add: call_timer_def)
  next
    case (SC_InShut now i)
    with ok(2) p have i: "i < n" "closing False (u i) (timer_of i s)" by (simp_all add: client_ok_simps)
    from closing_enabled [OF i(2)] free i(1) obtain v h where
      "handler_act False (HStep 0 0 False) t (User (u i)) (timer_of i s) = Some (User v, h)" by blast
    with SC_InShut timer [OF i(1)] show ?thesis by (simp add: call_timer_def)
  qed (use p in simp_all)
  then show ?thesis by (simp add: sched_client_act_def split: option.splits)
qed

lemma sweep_rank_less:
  assumes "client_move n False t s c u c' u' s'" and ok: "client_ok n c u" and p: "progress False n c u s"
  shows "sweep_rank n (ClientThread c' u') < sweep_rank n (ClientThread c u)"
  using assms(1)
proof (cases rule: client_move.cases)
  case (shut_call now i v)
  then have "i < n" "u' i = A_ShutDown now" using ok
    by (auto simp: client_ok_simps elim!: timer_callD dest!: leaving_call)
  with shut_call(1,2) show ?thesis by (simp add: Suc_diff_Suc)
next
  case (in_shut clk k sp i v now)
  from in_shut(3) obtain h where h: "i < n" "handler_act False (HStep clk k sp) t (User (u i)) (timer_of i s) = Some (User v, h)"
      "u' = u(i := v)" by (rule timer_callD)
  have "leaving (u i)" "\<not> sp" "closing False (u i) (timer_of i s)" using ok p in_shut(1,4) by (simp_all add: client_ok_simps)
  with leaving_step(1) [OF h(2)] close_stage_less [of clk k t "u i" "timer_of i s" v h]
  have st: "if v = A_ShutReturned then 2 \<le> close_stage (u i) else close_stage v < close_stage (u i)" by simp
  have "n - i = Suc (n - Suc i)" using h(1) by simp
  with st h(3) in_shut(1,2) show ?thesis by (cases rule: in_shut_cases [of v now i]) simp_all
next
  case (calls_add r)
  with p show ?thesis using progress_sweeping sweeping_ready by blast
next
  case (calls_shut now)
  with p show ?thesis using progress_sweeping sweeping_ready by blast
next
  case (calls_cancel x i v)
  with p show ?thesis using progress_sweeping sweeping_ready by blast
next
  case (loop i now)
  then show ?thesis by simp
qed (use p in simp_all)

text \<open>
  C26: \<open>ShutDown\<close> of the pool does not block, in executions in which no weak exchange fails spuriously (a
  failure only cuts the call short).  A client whose \<open>ShutDown\<close> won the exchange can always take its next
  action, whatever the timers and the other clients do, even when a task never ends; each of its actions
  brings it nearer to its return, and there are at most \<open>5n + 2\<close> of them.
\<close>

theorem scheduled_ShutDown_never_blocks:
  assumes "sched_reachable False n s pc" and "sm_won s = Some False" and "sweeping (pc t)"
  shows "(\<exists>e c. mstep (sched_machine False) (Act t e) (s, pc) = Some c) \<and>
    (\<forall>e s' pc'. mstep (sched_machine False) (Act t e) (s, pc) = Some (s', pc') \<longrightarrow>
      sweep_rank n (pc' t) < sweep_rank n (pc t)) \<and> sweep_rank n (pc t) \<le> 5 * n + 2"
proof -
  obtain c u where c: "pc t = ClientThread c u" using assms(3) by (cases "pc t") auto
  have shut: "shut_inv n s pc" and inv: "sched_inv n s pc"
    using shutdown.reachable_inv [OF assms(1)] sched.reachable_inv [OF assms(1)] by auto
  have p: "progress False n c u s"
    using sweeper [OF shut c] assms(2,3) c by (metis option.inject)
  from inv have ok: "pool_ok n s" "client_ok n c u" by (auto simp: sched_inv_def role_ok_def c dest: spec [of _ t])
  have "u i \<noteq> A_CloseWait \<and> \<not> cancelling (u i)" if "i < n" for i
  proof (cases "\<exists>now. c = SC_InShut now i")
    case True
    with p show ?thesis by (cases "u i") auto
  next
    case False
    with ok(2) p have "user_ready (u i)" by (cases c) (auto simp: client_ok_simps)
    then show ?thesis by (cases "u i") (simp_all add: user_ready_def)
  qed
  with sweeper_awake [OF assms(1) c] have awake: "\<not> sched_waiting s t" by blast
  from sweep_enabled [OF ok sched_free [OF assms(1)] p, of t] obtain r where
    "sched_client_act False (PoolStep 0 0 False) t c u s = Some r" by blast
  then have "\<exists>e c. mstep (sched_machine False) (Act t e) (s, pc) = Some c"
    using awake c by (intro exI [of _ "PoolStep 0 0 False"]) (simp add: sched_act_def split: prod.splits)
  moreover have "sweep_rank n (pc' t) < sweep_rank n (pc t)"
    if step: "mstep (sched_machine False) (Act t e) (s, pc) = Some (s', pc')" for e s' pc'
  proof -
    from step awake obtain k where k: "sched_act False e t (pc t) s = Some (k, s')" "pc' = pc(t := k)"
      by (auto split: option.splits)
    from inv k(1) show ?thesis
    proof (cases rule: sched_who)
      case (client c1 u1 c' u')
      with c have "client_move n False t s c u c' u' s'" by simp
      from sweep_rank_less [OF this ok(2) p] c client(3) k(2) show ?thesis by simp
    qed (use c in simp)
  qed
  moreover have "sweep_rank n (pc t) \<le> 5 * n + 2"
  proof (cases c)
    case (SC_InShut now i)
    with ok(2) have "i < n" by (simp add: client_ok_simps)
    moreover have "close_stage (u i) \<le> 4" by (cases "u i") simp_all
    ultimately show ?thesis using c SC_InShut by simp
  qed (use c in simp_all)
  ultimately show ?thesis by blast
qed

section \<open>Witnesses\<close>

definition pool_steps :: "tid \<Rightarrow> TimeValue list \<Rightarrow> sched_ev label list" where
  "pool_steps t clks = map (\<lambda>clk. Act t (PoolStep clk 0 False)) clks"

text \<open>A complete add of a one-shot task, and a complete \<open>ShutDown\<close> of a pool of two timers.\<close>

definition pool_add :: "tid \<Rightarrow> TimeValue \<Rightarrow> TimeValue \<Rightarrow> sched_ev label list" where
  "pool_add t clk delay = Act t (PoolAdd (AddCron delay)) # pool_steps t [clk, clk, clk, clk, clk, clk, clk]"

definition pool_shut :: "tid \<Rightarrow> sched_ev label list" where
  "pool_shut t = Act t (PoolShutDown False) # pool_steps t (replicate 13 0)"

lemma pool_run:
  assumes "run_check (sched_machine weak) ls (sched_start n) P" and "n < 2 ^ 31"
  shows "\<exists>s pc. sched_reachable weak n s pc \<and> P s pc"
  using run_check_reachable [OF assms(1), of "sched_init n"] assms(2) by (simp add: sched_init_def)

theorem scheduled_turns_round_robin_witness:
  "\<exists>s pc. sched_reachable False 2 s pc \<and> sm_turns s = [0, 1, 0] \<and> count_list (sm_turns s) 0 = 2 \<and> count_list (sm_turns s) 1 = 1"
proof -
  have "run_check (sched_machine False) (pool_add 1 10 5 @ pool_add 3 10 5 @ pool_add 5 10 5) (sched_start 2)
      (\<lambda>s pc. length (sm_turns s) = 3)"
    by code_simp
  from pool_run [OF this] obtain s pc where r: "sched_reachable False 2 s pc" "length (sm_turns s) = 3" by auto
  from scheduled_turns_round_robin [OF r(1)] r(2) have "sm_turns s = map (\<lambda>j. j mod 2 ^ 64 mod 2) [0..<3]" by metis
  then have "sm_turns s = [0, 1, 0]" by (simp add: upt_rec)
  with r(1) show ?thesis by (intro exI [of _ s] exI [of _ pc]) simp
qed

text \<open>A task that a client cancels while it is queued: its end is set, the thread is about to notify.\<close>

theorem timer_Cancel_progress_witness:
  "\<exists>s pc s'. handler_reachable s pc \<and> pc 2 = User (A_CancelWait 0) \<and> handler_waiting 2 s \<and> pc 0 = Timer (H_NotifyTask 0) \<and>
    mstep (handler_machine False) (Act 0 (HStep 90 0 False)) (s, pc) = Some (s', pc(0 := Timer H_Loop)) \<and> \<not> handler_waiting 2 s'"
proof -
  have "run_check (handler_machine False)
      (hsteps 0 [5, 5] @ add_cron 1 10 40 @ Act 2 (CallCancel 0) # hsteps 2 [0] @ hsteps 0 [90, 90, 90]) handler_start
      (\<lambda>s pc. pc 2 = User (A_CancelWait 0) \<and> handler_waiting 2 s \<and> TaskBase_IsStopState (hs_store s 0))"
    by code_simp
  from handler_run [OF this] obtain s pc where r: "handler_reachable s pc" "pc 2 = User (A_CancelWait 0)" "handler_waiting 2 s"
    "TaskBase_IsStopState (hs_store s 0)" by blast
  from timer_Cancel_progress [OF r(1,2,4)] r(1-3) show ?thesis by blast
qed

theorem scheduled_add_keeps_task_witness:
  "\<exists>s pc u s' pc'. sched_reachable True 2 s pc \<and> pc 1 = ClientThread (SC_Added (Some (0, 0))) u \<and>
    reachable (sched_machine True) (\<lambda>c. c = (s, pc)) (s', pc') \<and> hs_queue (timer_of 0 s) = [0] \<and>
    hs_queue (timer_of 0 s') = [] \<and> (0, 20) \<in> set (hs_fired (timer_of 0 s')) \<and> 0 < hs_next (timer_of 0 s')"
proof -
  have "run_check (sched_machine True) (pool_add 1 10 5) (sched_start 2)
      (\<lambda>s pc. (case pc 1 of ClientThread c u \<Rightarrow> c = SC_Added (Some (0, 0)) | _ \<Rightarrow> False) \<and> hs_queue (timer_of 0 s) = [0] \<and>
        run_check (sched_machine True) (pool_steps 0 [20, 20, 20]) (s, pc)
          (\<lambda>s' pc'. hs_queue (timer_of 0 s') = [] \<and> hs_fired (timer_of 0 s') = [(0, 20)]))"
    by code_simp
  from pool_run [OF this] obtain s pc where r: "sched_reachable True 2 s pc"
      "case pc 1 of ClientThread c u \<Rightarrow> c = SC_Added (Some (0, 0)) | _ \<Rightarrow> False" "hs_queue (timer_of 0 s) = [0]"
      and run: "run_check (sched_machine True) (pool_steps 0 [20, 20, 20]) (s, pc)
          (\<lambda>s' pc'. hs_queue (timer_of 0 s') = [] \<and> hs_fired (timer_of 0 s') = [(0, 20)])" by auto
  from r(2) obtain u where u: "pc 1 = ClientThread (SC_Added (Some (0, 0))) u" by (cases "pc 1") auto
  from run_check_reachable [where init = "\<lambda>c. c = (s, pc)", OF run] obtain s' pc' where
    f: "reachable (sched_machine True) (\<lambda>c. c = (s, pc)) (s', pc')" "hs_queue (timer_of 0 s') = []" "hs_fired (timer_of 0 s') = [(0, 20)]"
    by auto
  from scheduled_add_keeps_task [OF r(1) u f(1)] have "0 < hs_next (timer_of 0 s')" by blast
  with r u f show ?thesis
    by (intro exI [of _ s] exI [of _ pc] exI [of _ u] exI [of _ s'] exI [of _ pc']) simp
qed

theorem scheduled_timers_refine_timer_witness:
  "\<exists>s pc. sched_reachable True 3 s pc \<and> hs_queue (timer_of 1 s) = [0] \<and> due (timer_of 1 s) 0 = 15 \<and>
    handler_reachable (timer_of 1 s) (view_pc 1 pc)"
proof -
  have "run_check (sched_machine True) (pool_add 1 10 5 @ pool_add 3 10 5) (sched_start 3)
      (\<lambda>s pc. hs_queue (timer_of 1 s) = [0] \<and> due (timer_of 1 s) 0 = 15)"
    by code_simp
  from pool_run [OF this] obtain s pc where r: "sched_reachable True 3 s pc" "hs_queue (timer_of 1 s) = [0]" "due (timer_of 1 s) 0 = 15"
    by auto
  have "reachable (sched_machine True) (\<lambda>c. c = (s, pc)) (s, pc)" by (rule reachable.reach_init) simp
  from scheduled_timers_refine_timer [OF r(1) _ this, of 1] have "handler_reachable (timer_of 1 s) (view_pc 1 pc)"
    by (simp only: sched_view_pair)
  with r show ?thesis by blast
qed

text \<open>\<open>ShutDownNow\<close> of a pool of two timers, whose threads have not started yet.\<close>

definition pool_shut_now :: "tid \<Rightarrow> sched_ev label list" where
  "pool_shut_now t = Act t (PoolShutDown True) # pool_steps t (replicate 7 0) @ pool_steps 0 [0, 0, 0, 0] @
     pool_steps t (replicate 6 0) @ pool_steps 2 [0, 0, 0, 0] @ pool_steps t [0, 0]"

theorem scheduled_shutdown_is_final_witness:
  "\<exists>s pc. sched_reachable False 2 s pc \<and> sc_state (sm_pool s) = Sched_SHUTDOWN \<and> sm_won s = Some True \<and>
    timer_refusing (timer_of 1 s) \<and> (pc 2 = TimerThread H_NotifyClosed \<or> pc 2 = TimerThread H_Done)"
proof -
  have "run_check (sched_machine False) (pool_shut_now 3) (sched_start 2)
      (\<lambda>s pc. sc_state (sm_pool s) = Sched_SHUTDOWN \<and> sm_won s = Some True)"
    by code_simp
  from pool_run [OF this] obtain s pc where r: "sched_reachable False 2 s pc" "sc_state (sm_pool s) = Sched_SHUTDOWN"
      "sm_won s = Some True" by auto
  have "reachable (sched_machine False) (\<lambda>c. c = (s, pc)) (s, pc)" by (rule reachable.reach_init) simp
  from scheduled_shutdown_is_final [OF r(1,2) this] r(3)
  have "\<forall>i < 2. timer_refusing (timer_of i s)" "\<forall>i < 2. pc (2 * i) = TimerThread H_NotifyClosed \<or> pc (2 * i) = TimerThread H_Done"
    by simp_all
  from this(1) [rule_format, of 1] this(2) [rule_format, of 1] r show ?thesis by auto
qed

theorem scheduled_ShutDown_never_blocks_witness:
  "\<exists>s pc c. sched_reachable False 2 s pc \<and> sweeping (pc 3) \<and> pc 0 = TimerThread H_Start \<and>
    (\<exists>e. mstep (sched_machine False) (Act 3 e) (s, pc) = Some c) \<and> sweep_rank 2 (pc 3) \<le> 12"
proof -
  have "run_check (sched_machine False) (Act 3 (PoolShutDown False) # pool_steps 3 [0, 0, 0, 0, 0]) (sched_start 2)
      (\<lambda>s pc. sm_won s = Some False \<and> sweeping (pc 3) \<and> (case pc 0 of TimerThread w \<Rightarrow> w = H_Start | _ \<Rightarrow> False))"
    by code_simp
  from pool_run [OF this] obtain s pc where r: "sched_reachable False 2 s pc" "sm_won s = Some False" "sweeping (pc 3)"
      "case pc 0 of TimerThread w \<Rightarrow> w = H_Start | _ \<Rightarrow> False" by auto
  from r(4) have "pc 0 = TimerThread H_Start" by (cases "pc 0") auto
  moreover have "5 * 2 + 2 = (12 :: nat)" by simp
  ultimately show ?thesis using scheduled_ShutDown_never_blocks [OF r(1-3)] r(1,3) by metis
qed

section \<open>Defects\<close>

text \<open>
  A client tests the flag, and the timer its own, before the shutdown; the task is queued after it.
  The add returns the task, and it never runs.
\<close>

lemma racing_add_is_lost:
  "\<exists>s pc u. sched_reachable False 1 s pc \<and> pc 1 = ClientThread (SC_Added (Some (0, 0))) u \<and> 0 \<in> set (hs_queue (timer_of 0 s)) \<and>
    (\<forall>s' pc'. reachable (sched_machine False) (\<lambda>c. c = (s, pc)) (s', pc') \<longrightarrow> hs_fired (timer_of 0 s') = [])"
proof -
  have "run_check (sched_machine False)
      (Act 1 (PoolAdd (AddCron 5)) # pool_steps 1 [10, 10, 10, 10] @ Act 3 (PoolShutDown False) # pool_steps 3 (replicate 8 0) @
       pool_steps 1 [10, 10, 10]) (sched_start 1)
      (\<lambda>s pc. sc_state (sm_pool s) = Sched_SHUTDOWN \<and> (case pc 1 of ClientThread c u \<Rightarrow> c = SC_Added (Some (0, 0)) | _ \<Rightarrow> False) \<and>
        0 \<in> set (hs_queue (timer_of 0 s)) \<and> hs_fired (timer_of 0 s) = [])"
    by code_simp
  from pool_run [OF this] obtain s pc where r: "sched_reachable False 1 s pc" "sc_state (sm_pool s) = Sched_SHUTDOWN"
      "case pc 1 of ClientThread c u \<Rightarrow> c = SC_Added (Some (0, 0)) | _ \<Rightarrow> False" "0 \<in> set (hs_queue (timer_of 0 s))"
      "hs_fired (timer_of 0 s) = []" by auto
  from r(3) obtain u where "pc 1 = ClientThread (SC_Added (Some (0, 0))) u" by (cases "pc 1") auto
  moreover have "hs_fired (timer_of 0 s') = []" if "reachable (sched_machine False) (\<lambda>c. c = (s, pc)) (s', pc')" for s' pc'
    using final_timer(1) [OF r(1,2) that, of 0] r(5) by simp
  ultimately show ?thesis using r(1,4) by blast
qed

text \<open>
  When the weak exchange in the \<open>ShutDown\<close> of a timer fails spuriously, the sweep goes past the timer: the
  pool reports \<open>SHUTDOWN\<close> although the timer runs on and nothing will ever stop it but the process.
\<close>

lemma spurious_failure_skips_timer:
  "\<exists>s pc. sched_reachable True 1 s pc \<and> sc_state (sm_pool s) = Sched_SHUTDOWN \<and>
    \<not> hs_isRequestShutDown (timer_of 0 s) \<and> \<not> ct_isRequestClose (hs_thread (timer_of 0 s))"
proof -
  have "run_check (sched_machine True)
      (Act 3 (PoolShutDown False) # pool_steps 3 (replicate 4 0) @ [Act 3 (PoolStep 0 0 True)] @ pool_steps 3 [0]) (sched_start 1)
      (\<lambda>s pc. sc_state (sm_pool s) = Sched_SHUTDOWN \<and> \<not> hs_isRequestShutDown (timer_of 0 s) \<and>
        \<not> ct_isRequestClose (hs_thread (timer_of 0 s)))"
    by code_simp
  from pool_run [OF this] show ?thesis by simp
qed

end
