(* ===== verification/ScheduledCalls.thy ===== *)
theory ScheduledCalls
  imports ScheduledMachineProperties
begin

text \<open>
  The two models of the scheduled pool agree: a call that no other thread interrupts goes through the
  actions of \<open>sched_machine\<close> to the result that the functions of theory \<open>ScheduledThreadPool\<close> give.
\<close>

section \<open>The functor forms as single calls\<close>

fun functor_request :: "TimeValue \<Rightarrow> task_id \<Rightarrow> add_request \<Rightarrow> timer_request" where
  "functor_request clk task (AddCron delay) = CronRequest task clk delay"
| "functor_request clk task (AddCycle period is_run_now) = CycleRequest task clk period is_run_now"

text \<open>The task that \<open>MakeTimerFunctorTask\<close> makes is the next one of the timer that gets it.\<close>

definition functor_add :: "nat \<Rightarrow> tid \<Rightarrow> TimeValue \<Rightarrow> add_request \<Rightarrow> handler_sys \<Rightarrow> (bool \<times> handler_sys) option" where
  "functor_add k t clk r h = timer_add k t (functor_request clk (hs_next h) r) (new_task h)"

definition ScheduledThreadPool_AddFunctor :: "nat \<Rightarrow> tid \<Rightarrow> TimeValue \<Rightarrow> add_request \<Rightarrow>
    handler_sys scheduled_pool \<Rightarrow> (add_request option \<times> handler_sys scheduled_pool) option" where
  "ScheduledThreadPool_AddFunctor k t clk r p = ScheduledThreadPool_DoAdd (functor_add k t clk) (Some r) p"

section \<open>An uninterrupted add\<close>

declare mstep.simps [simp del]

text \<open>\<open>own_run weak t c c'\<close>: thread \<open>t\<close> alone goes from \<open>c\<close> to \<open>c'\<close>.\<close>

definition own_run :: "bool \<Rightarrow> tid \<Rightarrow> (sched_sys, sched_pc) config \<Rightarrow> (sched_sys, sched_pc) config \<Rightarrow> bool" where
  "own_run weak t c c' \<longleftrightarrow> (\<exists>ls. (\<forall>l \<in> set ls. label_tid l = t) \<and> mrun (sched_machine weak) ls c = Some c')"

lemma own_run_refl: "own_run weak t c c"
  unfolding own_run_def by (rule exI [of _ "[]"]) simp

lemma own_run_step:
  assumes "mstep (sched_machine weak) (Act t e) c = Some c'" and "own_run weak t c' c''"
  shows "own_run weak t c c''"
proof -
  from assms(2) obtain ls where "\<forall>l \<in> set ls. label_tid l = t" "mrun (sched_machine weak) ls c' = Some c''"
    by (auto simp: own_run_def)
  with assms(1) show ?thesis unfolding own_run_def by (intro exI [of _ "Act t e # ls"]) simp
qed

text \<open>The places where a client may block.\<close>

fun waits :: "sched_client \<Rightarrow> bool" where
  "waits (SC_InShut _ _) = True" | "waits (SC_InCancel _) = True" | "waits _ = False"

lemma client_ok_not_waiting:
  assumes "client_ok n c u" and "\<not> waits c"
  shows "u i \<noteq> A_CloseWait \<and> \<not> cancelling (u i)"
proof -
  have "stands c i (u i)" using assms(1) by (simp add: client_ok_def)
  with assms(2) have "user_ready (u i) \<or> adding (u i) \<noteq> None"
    by (cases c) (auto simp: stands_def split: if_splits)
  then show ?thesis by (cases "u i") (simp_all add: user_ready_def)
qed

text \<open>A client that neither shuts down nor cancels can always act.\<close>

lemma client_step:
  assumes reach: "sched_reachable weak n s pc" and pc: "pc t = ClientThread c u" and "\<not> waits c"
    and "sched_client_act weak e t c u s = Some (c', u', s')"
  shows "mstep (sched_machine weak) (Act t e) (s, pc) = Some (s', pc(t := ClientThread c' u'))"
    and "sched_reachable weak n s' (pc(t := ClientThread c' u'))"
proof -
  have "role_ok n t (pc t)" using sched.reachable_inv [OF reach] by (simp add: sched_inv_def)
  then have "client_ok n c u" by (simp add: role_ok_def pc)
  from client_ok_not_waiting [OF this assms(3)] sweeper_awake [OF reach pc] have "\<not> sched_waiting s t" by blast
  then show m: "mstep (sched_machine weak) (Act t e) (s, pc) = Some (s', pc(t := ClientThread c' u'))"
    by (simp add: sched_act_def pc assms(4) mstep.simps)
  from reach mstep_step [OF m] show "sched_reachable weak n s' (pc(t := ClientThread c' u'))" by (rule reachable.reach_step)
qed

lemma waits_simps: "\<not> waits (SC_Load r)" "\<not> waits (SC_Turn r)" "\<not> waits (SC_Call j r)" "\<not> waits (SC_InAdd j x)"
  by simp_all

lemma client_next:
  assumes reach: "sched_reachable weak n s (pc(t := ClientThread c u))"
    and "sched_client_act weak e t c u s = Some (c', u', s')" and "\<not> waits c"
  shows "mstep (sched_machine weak) (Act t e) (s, pc(t := ClientThread c u)) = Some (s', pc(t := ClientThread c' u'))"
    and "sched_reachable weak n s' (pc(t := ClientThread c' u'))"
  using client_step [OF reach fun_upd_same assms(3,2)] by (simp_all only: fun_upd_upd)

lemma set_timer_twice [simp]: "set_timer i h' (set_timer i h s) = set_timer i h' s"
  by (simp add: set_timer_def)

lemma in_timer_act:
  assumes "sched_reachable weak n s pc" and "i < n" and "handler_act False e t k (timer_of i s) = Some (k', h)"
  shows "in_timer i e t k s = Some (k', set_timer i h s)"
proof -
  have "pool_ok n s" using sched.reachable_inv [OF assms(1)] by (simp add: sched_inv_def)
  with assms(2,3) show ?thesis by (auto simp: in_timer_def pool_ok_def num_timers_def timer_of_def)
qed

lemma add_run_run:
  assumes "add_run fuel k t (u i, timer_of i s) = Some (ok, h')"
    and "sched_reachable weak n s pc" and "pc t = ClientThread (SC_InAdd i x) u"
  shows "\<exists>u'. own_run weak t (s, pc) (set_timer i h' s, pc(t := ClientThread (SC_Added (if ok then Some (i, x) else None)) u'))"
  using assms
proof (induction fuel arbitrary: s pc u)
  case 0
  then show ?case by simp
next
  case (Suc fuel)
  from Suc.prems(1) obtain v h where v: "TimerTaskHandler_add k t (u i) (timer_of i s) = Some (v, h)"
    and rest: "case v of A_Added b \<Rightarrow> ok = b \<and> h' = h | _ \<Rightarrow> add_run fuel k t (v, h) = Some (ok, h')"
    by (cases "TimerTaskHandler_add k t (u i) (timer_of i s)") (auto split: user_pc.splits)
  have inv: "sched_inv n s pc" by (rule sched.reachable_inv [OF Suc.prems(2)])
  then have n: "num_timers s = n" and "role_ok n t (pc t)" by (simp_all add: sched_inv_def pool_ok_def)
  with Suc.prems(3) have i: "i < n" by (simp add: role_ok_def client_ok_simps)
  have "handler_act False (HStep 0 k False) t (User (u i)) (timer_of i s) = Some (User v, h)"
    by (simp add: handler_act_def v)
  from in_timer_act [OF Suc.prems(2) i this]
  have "sched_client_act weak (PoolStep 0 k False) t (SC_InAdd i x) u s =
      Some (case v of A_Added ok \<Rightarrow> SC_Added (if ok then Some (i, x) else None) | _ \<Rightarrow> SC_InAdd i x, u(i := v), set_timer i h s)"
    by (simp add: sched_client_act_def call_timer_def)
  note st = client_step [OF Suc.prems(2,3) waits_simps(4) this]
  show ?case
  proof (cases rule: in_add_cases [of v i x])
    case (returned b)
    from own_run_step [OF st(1) own_run_refl]
    have "own_run weak t (s, pc) (set_timer i h s, pc(t := ClientThread (SC_Added (if b then Some (i, x) else None)) (u(i := v))))"
      by (simp only: returned(2))
    moreover from rest returned(1) have "b = ok" "h = h'" by simp_all
    ultimately show ?thesis by blast
  next
    case inside
    with rest have "add_run fuel k t ((u(i := v)) i, timer_of i (set_timer i h s)) = Some (ok, h')"
      using i n by (cases v) auto
    from Suc.IH [where u = "u(i := v)" and s = "set_timer i h s", OF this st(2) [unfolded inside(2)] fun_upd_same] obtain u' where
      "own_run weak t (set_timer i h s, pc(t := ClientThread (SC_InAdd i x) (u(i := v))))
        (set_timer i h' s, pc(t := ClientThread (SC_Added (if ok then Some (i, x) else None)) u'))" unfolding fun_upd_upd set_timer_twice by blast
    from own_run_step [OF st(1) [unfolded inside(2)] this] show ?thesis by blast
  qed
qed

text \<open>
  The calls of the sequential model are the uninterrupted calls of the concurrent one.  Whatever
  \<open>AddCronTimerTask(f, ..)\<close> or \<open>AddCycleTimerTask(f, ..)\<close> returns as a single call in a reachable state of
  the pool, and whatever it makes of the pool, a client reaches by its own actions alone: it returns a
  task exactly when the single call does, and the pool is then the same.
\<close>

theorem scheduled_add_alone:
  assumes reach: "sched_reachable weak n s pc" and pc: "pc t = ClientThread c u" and ready: "client_ready c"
    and seq: "ScheduledThreadPool_AddFunctor k t clk r (sm_pool s) = Some (res, p')"
  shows "\<exists>s' u' a. own_run weak t (s, pc) (s', pc(t := ClientThread (SC_Added a) u')) \<and> (a = None \<longleftrightarrow> res = None) \<and> sm_pool s' = p'"
proof -
  have inv: "sched_inv n s pc" by (rule sched.reachable_inv [OF reach])
  then have n: "num_timers s = n" "pool_ok n s" by (simp_all add: sched_inv_def pool_ok_def)
  have noshut: "\<not> waits c" using ready by (cases c) (simp_all add: client_ready_def)
  have "sched_client_act weak (PoolAdd r) t c u s = Some (SC_Load r, u, s)" by (simp add: sched_client_act_def ready)
  note call = client_step [OF reach pc noshut this]
  show ?thesis
  proof (cases "sc_isRequestShutDown (sm_pool s)")
    case True
    then have "sched_client_act weak (PoolStep clk k False) t (SC_Load r) u s = Some (SC_Added None, u, s)"
      by (simp add: sched_client_act_def)
    from client_next(1) [OF call(2) this waits_simps(1)]
    have "own_run weak t (s, pc) (s, pc(t := ClientThread (SC_Added None) u))"
      by (intro own_run_step [OF call(1)] own_run_step [OF _ own_run_refl])
    with True seq show ?thesis
      by (intro exI [of _ s] exI [of _ u] exI [of _ None]) (auto simp: ScheduledThreadPool_AddFunctor_def ScheduledThreadPool_DoAdd_def)
  next
    case False
    define i where "i = nat (current_index (sm_pool s))"
    define s1 where "s1 = s\<lparr>sm_pool := (sm_pool s)\<lparr>sc_index := sc_index (sm_pool s) + 1\<rparr>, sm_turns := sm_turns s @ [i]\<rparr>"
    from seq False have idx: "ScheduledThreadPool_GetThreadNum (sm_pool s) \<noteq> 0" "\<not> current_index (sm_pool s) < 0"
        "\<not> int (length (sc_handlers (sm_pool s))) \<le> current_index (sm_pool s)"
      by (auto simp: ScheduledThreadPool_AddFunctor_def ScheduledThreadPool_DoAdd_def Let_def split: if_splits)
    then have i: "i < n" using n by (auto simp: i_def num_timers_def)
    have t1: "timer_of i s1 = timer_of i s" by (simp add: s1_def)
    have "sc_handlers (sm_pool s) ! i = Some (timer_of i s)"
      using i n(2) by (auto simp: pool_ok_def timer_of_def)
    with seq False idx have "do { (ok, h') \<leftarrow> functor_add k t clk r (timer_of i s);
        Some (if ok then Some r else None, sm_pool (set_timer i h' s1)) } = Some (res, p')"
      by (simp add: ScheduledThreadPool_AddFunctor_def ScheduledThreadPool_DoAdd_def Let_def i_def [symmetric] set_timer_def s1_def)
    then obtain ok h' where h': "functor_add k t clk r (timer_of i s) = Some (ok, h')"
      and res: "res = (if ok then Some r else None)" "p' = sm_pool (set_timer i h' s1)"
      by (cases "functor_add k t clk r (timer_of i s)") auto
    have a1: "sched_client_act weak (PoolStep clk k False) t (SC_Load r) u s = Some (SC_Turn r, u, s)"
      using False by (simp add: sched_client_act_def)
    note st1 = client_next [OF call(2) a1 waits_simps(1)]
    have a2: "sched_client_act weak (PoolStep clk k False) t (SC_Turn r) u s = Some (SC_Call i r, u, s1)"
      using idx by (simp add: sched_client_act_def Let_def i_def s1_def)
    note st2 = client_next [OF st1(2) a2 waits_simps(2)]
    let ?x = "hs_next (timer_of i s)"
    define v where "v = request_pc (functor_request clk (hs_next (timer_of i s)) r)"
    have "role_ok n t (ClientThread (SC_Call i r) u)"
      using sched.reachable_inv [OF st2(2)] by (auto simp: sched_inv_def dest: spec [of _ t])
    then have "user_ready (u i)" by (simp add: role_ok_def client_ok_simps)
    then have "handler_act False (request_ev clk r) t (User (u i)) (timer_of i s1) = Some (User v, new_task (timer_of i s))"
      by (cases r) (simp_all add: handler_act_def user_call_def v_def timer_add_forms t1)
    from in_timer_act [OF st2(2) i this]
    have a3: "sched_client_act weak (PoolStep clk k False) t (SC_Call i r) u s1 =
        Some (SC_InAdd i ?x, u(i := v), set_timer i (new_task (timer_of i s)) s1)"
      by (simp add: sched_client_act_def call_timer_def t1)
    note st3 = client_next [OF st2(2) a3 waits_simps(3)]
    have n1: "num_timers s1 = n" using n(1) by (simp add: s1_def num_timers_def)
    have "add_run 5 k t ((u(i := v)) i, timer_of i (set_timer i (new_task (timer_of i s)) s1)) = Some (ok, h')"
      using h' i n1 by (simp add: functor_add_def timer_add_def v_def)
    from add_run_run [where u = "u(i := v)" and i = i and s = "set_timer i (new_task (timer_of i s)) s1", OF this st3(2) fun_upd_same] obtain u' where
      "own_run weak t (set_timer i (new_task (timer_of i s)) s1, pc(t := ClientThread (SC_InAdd i ?x) (u(i := v))))
        (set_timer i h' s1, pc(t := ClientThread (SC_Added (if ok then Some (i, ?x) else None)) u'))" unfolding fun_upd_upd set_timer_twice by blast
    note run = this
    from own_run_step [OF call(1) own_run_step [OF st1(1) own_run_step [OF st2(1) own_run_step [OF st3(1) run]]]] res
    show ?thesis by (intro exI [of _ "set_timer i h' s1"] exI [of _ u'] exI [of _ "if ok then Some (i, ?x) else None"]) (simp split: if_splits)
  qed
qed

theorem scheduled_add_alone_witness:
  "\<exists>s pc s' pc' u' a. sched_reachable False 2 s pc \<and> own_run False 3 (s, pc) (s', pc') \<and>
    pc' 3 = ClientThread (SC_Added (Some a)) u' \<and> hs_queue (timer_of 1 s') = [0] \<and> due (timer_of 1 s') 0 = 25"
proof -
  let ?seq = "\<lambda>s. ScheduledThreadPool_AddFunctor 0 3 20 (AddCron 5) (sm_pool s)"
  have "run_check (sched_machine False) (pool_add 1 10 5) (sched_start 2)
      (\<lambda>s pc. (case pc 3 of ClientThread c u \<Rightarrow> c = SC_Ready | _ \<Rightarrow> False) \<and>
        (case ?seq s of None \<Rightarrow> False | Some (res, p) \<Rightarrow> res \<noteq> None \<and>
          hs_queue (the (sc_handlers p ! 1)) = [0] \<and> due (the (sc_handlers p ! 1)) 0 = 25))"
    by code_simp
  from pool_run [OF this] obtain s pc where r: "sched_reachable False 2 s pc"
      "case pc 3 of ClientThread c u \<Rightarrow> c = SC_Ready | _ \<Rightarrow> False"
      "case ?seq s of None \<Rightarrow> False | Some (res, p) \<Rightarrow> res \<noteq> None \<and>
          hs_queue (the (sc_handlers p ! 1)) = [0] \<and> due (the (sc_handlers p ! 1)) 0 = 25" by auto
  from r(2) obtain u where u: "pc 3 = ClientThread SC_Ready u" by (cases "pc 3") auto
  from r(3) obtain res p where p: "?seq s = Some (res, p)" "res \<noteq> None" "hs_queue (the (sc_handlers p ! 1)) = [0]"
      "due (the (sc_handlers p ! 1)) 0 = 25" by (cases "?seq s") auto
  have "client_ready SC_Ready" by (simp add: client_ready_def)
  from scheduled_add_alone [OF r(1) u this p(1)] p(2) obtain s' u' a where
    "own_run False 3 (s, pc) (s', pc(3 := ClientThread (SC_Added (Some a)) u'))" "sm_pool s' = p" by auto
  with r(1) p(3,4) show ?thesis unfolding timer_of_def by (metis fun_upd_same)
qed

end
