(* ===== verification/Spec2Isabelle.thy ===== *)
theory Spec2Isabelle
  imports Clock Sync BlockingQueue TaskBase Thread CloseableThread CyclicBarrier PriorityQueue
    TaskPoolSpec SingleThreadPool TimerTask TimerTaskHandler ScheduledThreadPool
    WorkerThread ScalingThreadPool ScalingInvariant ScalingScenarios FixedThreadPool FutureTask NoBlockingTaskQueue
    ThreadPoolManager PoolTasks PoolTaskProperties PoolDestructor ThreadCreation ThreadDestructors FutureRun
    ScheduledMachine ScheduledMachineProperties ScheduledCalls
begin

text \<open>
  Verification library of Empool, a C++ library of thread pools (\<open>include/empool\<close>, \<open>src\<close>).

  The program.  Four pools run tasks on their own threads: \<open>SingleThreadPool\<close> (one thread, a priority
  queue), \<open>ScalingThreadPool\<close> (workers between a core and a maximal size, a monitor thread that adds
  and removes them), \<open>FixedThreadPool\<close> (a scaling pool of constant size) and \<open>ScheduledThreadPool\<close>
  (several \<open>TimerTaskHandler\<close>s that take turns).  They share the layers below: \<open>Mutex\<close>,
  \<open>ConditionVariable\<close> and their scoped lockers; \<open>BlockingQueue\<close>; \<open>TaskBase\<close> with its cancellation;
  \<open>Thread\<close> and \<open>CloseableThread\<close>, a thread with a close request and a finish action.
  \<open>ThreadPoolManager\<close> makes pools; \<open>CyclicBarrier\<close> and \<open>FutureTask\<close> are helpers of the user.

  How the code is modelled.  Pure functions are HOL functions over the records of their class.  The
  methods of a class run on several threads, so each class is an interleaving machine (theory
  \<open>Prelude\<close>): one shared state, one program counter per thread, one step per atomic action, that is,
  per atomic variable or per critical section; a section that is left across several actions (the guard
  of the scaling pool, the mutex of a future) stays locked in the state.  A method is the function that
  maps a program counter of its own to the next one; its early returns and exceptions are program
  counters or values.  A thread in the wait set of a condition variable cannot act; spurious wake-ups
  and the expiry of timed waits are steps of their own.  The environment's choices (which waiter
  \<open>pthread_cond_signal\<close> wakes, whether a weak exchange fails spuriously, what the clock reads, what the
  user calls) are labels of the steps, so a theorem about reachable states covers all of them, except
  where a machine has a parameter that excludes some: \<open>barrier_machine timed\<close> (whether threads use the
  timed \<open>Await\<close>), \<open>handler_machine shared\<close> (whether users pass task objects that somebody else may be
  adding), \<open>task_machine rerun\<close> and \<open>future_run_machine rerun\<close> (whether a task is run again), \<open>pool_task_machine
  once\<close> (whether clients add no task object twice) and \<open>sched_machine weak\<close> (whether weak exchanges fail
  spuriously).  A theorem names the value it is proved for, its text says what this means, and lemmas show
  what happens otherwise: the counting of the barrier and the single timer are proved for \<open>False\<close>, \<open>Cancel\<close>
  in a pool for \<open>once\<close>, the shutdown of a scheduled pool for executions without spurious failures, its
  turns and its adds for both values.
  A mutex that is taken, a division by zero and an access out of range make an action \<open>None\<close>.

  The theories, in the order of the code:
  \<^item> \<open>Prelude\<close>: machines, reachability, executable schedules (\<open>run_check\<close>), the locale
    \<open>machine_invariant\<close>, weak exchanges.
  \<^item> \<open>Clock\<close>: \<open>Util.cpp\<close>, the deadline arithmetic of \<open>ConditionVariable::TimeWait\<close> and
    \<open>GetCurrentTime\<close> on 64-bit words: exact, normalised, without overflow in the stated range.
  \<^item> \<open>Sync\<close>: \<open>Mutex.cpp\<close>, \<open>ConditionVariable.h\<close> and \<open>.cpp\<close>: mutual exclusion, normal forms of critical
    sections, and two wait disciplines as locales, \<open>guarded_wait\<close> (waiters of a predicate) and
    \<open>finish_handshake\<close> (waiters for the end of another thread), each of which loses no wake-up.
  \<^item> \<open>BlockingQueue\<close>: \<open>BlockingQueue.h\<close>, \<open>BlockingTaskQueue\<close>, and \<open>TaskQueueBase\<close> as a locale: first in
    first out, no lost wake-up.
  \<^item> \<open>TaskBase\<close>: \<open>TaskBase.cpp\<close>: what \<open>Cancel\<close> guarantees, for tasks that run once and periodic ones.
  \<^item> \<open>Thread\<close>, \<open>CloseableThread\<close>, \<open>ThreadCreation\<close>: \<open>Thread.h\<close>, \<open>System.cpp\<close>, \<open>CloseableThread.cpp\<close>:
    creation, the close handshake, the finish action runs exactly once; and the constructor beside the
    thread it creates, which reads \<open>m_thread\<close>.
  \<^item> \<open>Joining\<close>: the joins that destructors wait for, and the locale \<open>draining\<close>: threads that make a bounded
    number of actions and can act until the last of them has ended.
  \<^item> \<open>ThreadDestructors\<close>: \<open>draining\<close> interpreted on the thread of the single pool and on that of a timer: their
    destructors, and that of the scheduled pool, return.
  \<^item> \<open>CyclicBarrier\<close>: counting invariant of the barrier, when it opens, what \<open>Reset\<close> and timed waits do.
  \<^item> \<open>PriorityQueue\<close>: the locale \<open>priority_queue\<close> and the array heap that stands for
    \<open>std::priority_queue\<close> and \<open>std::make_heap\<close>, with its correctness over any total preorder.
  \<^item> \<open>SingleThreadPool\<close>: the pool, its thread and its clients: order of the queue, tasks run at most
    once, progress, the end of the thread, the meaning of shutdown.
  \<^item> \<open>TimerTask\<close>, \<open>TimerTaskHandler\<close>: timer tasks, their queue over a store of tasks (deadlines change
    while a task is queued) and the timer thread: it fires the earliest due task, never oversleeps, ends.
    It runs a task action by action, as \<open>TaskBase\<close> does, beside users that add, cancel (with the wait of
    \<open>Cancel\<close>) and shut down.
  \<^item> \<open>ScheduledThreadPool\<close>: the pool over the locale \<open>timer_service\<close>, interpreted on the timer of
    \<open>TimerTaskHandler\<close>; requests go round the timers.  A call of a timer runs its program counters to
    the end with fuel 5 (adding) or 4 (shutting down), the number of their actions; \<open>None\<close> otherwise,
    and the contract shows that the calls return.  A task object is one object for all timers: what an add
    writes to it every timer sees (\<open>share_task\<close>), so that a second add is refused whichever timer gets it.
    This is the pool of one client, whose timers fire nothing in between; several clients are below.
  \<^item> \<open>TaskPoolSpec\<close>: the abstract specification of a pool: its steps are labelled \<open>Submit x\<close>, \<open>Take x\<close>,
    \<open>Finish x\<close>, its discipline is a pair of operations (a queue, or any least task of an order).  The locale
    \<open>task_pool_refinement\<close> turns steps into traces whose submissions and ends are the logs of the
    concrete machine; \<open>SingleThreadPool\<close> and \<open>ScalingThreadPool\<close> interpret it.
  \<^item> \<open>WorkerThread\<close>: \<open>EndTask\<close>, \<open>FunctorTask\<close> and the loop of a worker.
  \<^item> \<open>ScalingThreadPool\<close>, \<open>ScalingInvariant\<close>, \<open>ScalingScenarios\<close>: \<open>ScalingThreadPool.cpp\<close>: the machine
    of monitor (thread 0), workers (odd threads) and clients (even threads), its invariant and
    properties, and runs of more than \<open>TASK_QUEUE_SIZE_THRESHOLD\<close> tasks that make the pool grow.
  \<^item> \<open>FixedThreadPool\<close>: what holds in addition when core and maximal size agree: the size is constant,
    shutdown ends and is final.
  \<^item> \<open>PoolDestructor\<close>: the destructors of both pools, with \<open>draining\<close> interpreted on monitor and workers of
    a fixed pool: it returns when \<open>ShutDownNow\<close> has closed the monitor, and never when the weak exchange that
    closes it has failed.
  \<^item> \<open>Projection\<close>, \<open>PoolTasks\<close>, \<open>PoolTaskProperties\<close>: the composition of a scaling pool with the task
    objects it runs and the clients that cancel them.  The locale \<open>view_projection\<close>, and \<open>machine_projection\<close>
    which gives it action by action, map its runs to runs of the pool's machine and of the machine of each
    task, which transfers the properties of the parts.
  \<^item> \<open>ScheduledMachine\<close>, \<open>ScheduledMachineProperties\<close>: the scheduled pool under concurrency, the threads of
    all its timers (even threads) beside any number of clients (odd threads) that add functors, cancel tasks and
    shut down.  Seen from one timer (\<open>sched_view\<close>) it is \<open>handler_machine\<close>; the turns go round, a task that an
    add returned is not lost, \<open>Cancel\<close> is not slept through, a shutdown is final, \<open>ShutDown\<close> does not block.
  \<^item> \<open>ScheduledCalls\<close>: the functor forms of the pool's adds as single calls, and that a call of the machine
    that nobody interrupts is the single call of \<open>ScheduledThreadPool\<close>.
  \<^item> \<open>FutureTask\<close>: \<open>FutureTask.h\<close>, \<open>FunctorFutureTask.h\<close>: \<open>GetResult\<close> returns computed values and no
    wake-up is lost.
  \<^item> \<open>FutureRun\<close>: a future as a task: \<open>Run\<close> and \<open>Cancel\<close> beside \<open>DoRun\<close> and \<open>GetResult\<close>, with projections to
    both machines; the result agrees with the state of the task, and a cancelled one never gives a result.
  \<^item> \<open>NoBlockingTaskQueue\<close>: its operations over those of \<open>boost::lockfree::queue\<close>, code that is not in the
    repository and so a parameter with the laws of a queue; the loop of \<open>Pop\<close> is a partial function.
  \<^item> \<open>ThreadPoolManager\<close>: the factory functions and the conversion of their sizes.

  Each of the larger machines has a step relation of its effects (\<open>..._move\<close>), a lemma that the code's actions are such
  moves (\<open>..._act_move\<close>), one lemma per part of the invariant, and an interpretation of
  \<open>machine_invariant\<close> and of the wait discipline it follows; the properties rest on those.  Theorems that
  state a defect exhibit a schedule, evaluated in the kernel, or a set of states that no step leaves.

  Bounds.  Thread identifiers, list lengths and the counters of the barrier are unbounded; times,
  the turn index of \<open>ScheduledThreadPool\<close> and the sizes of \<open>ThreadPoolManager\<close> are machine words.
  A worker of the scaling pool starts after the constructor, or the monitor, has entered it into the map,
  and the identifiers of its threads are never used again; its map is a list in the order of insertion.

  Not modelled.  Output to the console, thread names, the branch prediction macros;
  \<open>FutureTask::TryGetResult\<close>, which does not compile when it is used.  A destructor is the shutdown it
  calls, a step of the machine, and then the joins of its members, which are functions of the threads that
  have returned.  Memory is not modelled: a \<open>shared_ptr\<close> is the object it points to, a caller can name the objects
  that exist (\<open>objects_exist\<close>, the tests of \<open>hs_next\<close>), and two timers of the concurrent scheduled pool never
  share a task: its adds that take a task object are in the sequential model only.  The machines of the
  single pool and of the scaling pool run a task's functor as one action, which either returns or throws;
  what happens between the start and the end of a task is the machine of \<open>TaskBase\<close>, of \<open>PoolTasks\<close> in a
  scaling or fixed pool, and of \<open>TimerTaskHandler\<close> in a timer.
\<close>

end
